(* ===== verification/Prelude.thy ===== *)
theory Prelude
  imports Main "HOL-Library.Word"
begin

text \<open>
  Shared foundation of the development: the result type of fallible C++ code, the
  pointer-free counterparts of the standard algorithms the sources call
  (\<^verbatim>\<open>std::find\<close>, \<^verbatim>\<open>std::search\<close>, \<^verbatim>\<open>std::copy\<close> into a vector, \<^verbatim>\<open>isspace\<close>,
  \<^verbatim>\<open>atoi\<close>, the \<^verbatim>\<open>%d\<close> conversion of \<^verbatim>\<open>snprintf\<close>), and the list lemmas the
  components share.

  Bytes are Isabelle's 8-bit \<^typ>\<open>char\<close>, so a byte sequence and a \<^verbatim>\<open>std::string\<close>
  are both a \<^typ>\<open>string\<close>. A pointer into a buffer is an offset.
\<close>

named_theorems res_simps \<open>rewriting of fallible computations\<close>
named_theorems find_simps \<open>facts about std::find and std::search\<close>

type_synonym bytes = string

subsection \<open>Faults and fallible computations\<close>

text \<open>
  The ways a call of the library ends other than by returning: \<^verbatim>\<open>exit(-1)\<close> of
  \<^verbatim>\<open>LOG_FATAL\<close>, a failed \<^verbatim>\<open>assert\<close>, a dereference of a null or dead pointer, a read
  outside the storage of a vector, the call of an empty \<^verbatim>\<open>std::function\<close>, and a loop that
  never ends.
\<close>

datatype fault = ExitProcess | AssertFail | NullDeref | UseAfterFree | OutOfRange | BadFunctionCall
  | Hang | RuntimeError

type_synonym 'a res = "fault + 'a"

definition rbind :: "'a res \<Rightarrow> ('a \<Rightarrow> 'b res) \<Rightarrow> 'b res" where
  "rbind m k = (case m of Inl e \<Rightarrow> Inl e | Inr x \<Rightarrow> k x)"

lemma rbind_Inr [simp, res_simps]: "rbind (Inr x) k = k x"
  by (simp add: rbind_def)

lemma rbind_Inl [simp, res_simps]: "rbind (Inl e) k = Inl e"
  by (simp add: rbind_def)

lemma rbind_eq_Inr [res_simps]: "rbind m k = Inr y \<longleftrightarrow> (\<exists>x. m = Inr x \<and> k x = Inr y)"
  by (cases m) auto

lemma rbind_assoc: "rbind (rbind m k) h = rbind m (\<lambda>x. rbind (k x) h)"
  by (cases m) auto

lemma rbind_cong [fundef_cong]:
  "m = m' \<Longrightarrow> (\<And>x. m' = Inr x \<Longrightarrow> k x = k' x) \<Longrightarrow> rbind m k = rbind m' k'"
  by (cases m') auto

lemma rbind_InrE:
  assumes "rbind m k = Inr y"
  obtains x where "m = Inr x" and "k x = Inr y"
  using assms by (auto simp: rbind_eq_Inr)

text \<open>\<^verbatim>\<open>assert(P)\<close> of \<^verbatim>\<open><assert.h>\<close>, which the build leaves enabled.\<close>

definition assert_res :: "bool \<Rightarrow> unit res" where
  "assert_res P = (if P then Inr () else Inl AssertFail)"

lemma assert_res_True [simp]: "assert_res True = Inr ()"
  and assert_res_False [simp]: "assert_res False = Inl AssertFail"
  by (simp_all add: assert_res_def)

subsection \<open>std::find and std::search\<close>

text \<open>
  \<open>find_char c xs\<close> is the offset \<^verbatim>\<open>std::find(first, last, c)\<close> returns relative to
  \<^verbatim>\<open>first\<close>; the length of the range when \<open>c\<close> is not in it (\<^verbatim>\<open>last\<close>).
\<close>

fun find_char :: "'a \<Rightarrow> 'a list \<Rightarrow> nat" where
  "find_char c [] = 0"
| "find_char c (x # xs) = (if x = c then 0 else Suc (find_char c xs))"

lemma find_char_le [simp]: "find_char c xs \<le> length xs"
  by (induction xs) auto

lemma find_char_less_iff [find_simps]: "find_char c xs < length xs \<longleftrightarrow> c \<in> set xs"
  by (induction xs) auto

lemma find_char_eq_length [find_simps]: "find_char c xs = length xs \<longleftrightarrow> c \<notin> set xs"
  using find_char_less_iff [of c xs] find_char_le [of c xs] by linarith

lemma find_char_append [find_simps]:
  "c \<notin> set xs \<Longrightarrow> find_char c (xs @ ys) = length xs + find_char c ys"
  by (induction xs) auto

lemma find_char_append_in: "c \<in> set xs \<Longrightarrow> find_char c (xs @ ys) = find_char c xs"
  by (induction xs) auto

lemma find_char_first [find_simps]: "c \<notin> set xs \<Longrightarrow> find_char c (xs @ c # ys) = length xs"
  by (simp add: find_char_append)

lemma first_sep_unique:
  assumes "c \<notin> set xs" "c \<notin> set ys"
  shows "xs @ c # us = ys @ c # vs \<longleftrightarrow> xs = ys \<and> us = vs"
proof
  assume eq: "xs @ c # us = ys @ c # vs"
  then have "length xs = length ys"
    using assms by (metis find_char_first)
  with eq show "xs = ys \<and> us = vs" by simp
qed simp

lemma find_char_nth [find_simps]: "find_char c xs < length xs \<Longrightarrow> xs ! find_char c xs = c"
  by (induction xs) auto

lemma take_find_char_absent [simp]: "c \<notin> set xs \<Longrightarrow> take (find_char c xs) xs = xs"
  using find_char_eq_length [of c xs] by simp

lemma find_char_take_notin: "c \<notin> set (take (find_char c xs) xs)"
  by (induction xs) auto

text \<open>
  \<open>search_sub pat xs\<close> is the offset \<^verbatim>\<open>std::search\<close> returns: the first position where
  \<open>pat\<close> occurs in full, or the length of the range.
\<close>

definition starts_with :: "'a list \<Rightarrow> 'a list \<Rightarrow> bool" where
  "starts_with pat xs \<longleftrightarrow> take (length pat) xs = pat"

fun search_sub :: "'a list \<Rightarrow> 'a list \<Rightarrow> nat" where
  "search_sub pat [] = 0"
| "search_sub pat (x # xs) = (if starts_with pat (x # xs) then 0 else Suc (search_sub pat xs))"

lemma search_sub_le [simp]: "search_sub pat xs \<le> length xs"
  by (induction xs) auto

lemma search_sub_hit: "search_sub pat xs < length xs \<Longrightarrow> starts_with pat (drop (search_sub pat xs) xs)"
  by (induction xs) auto

lemma search_sub_least: "i < search_sub pat xs \<Longrightarrow> \<not> starts_with pat (drop i xs)"
proof (induction xs arbitrary: i)
  case (Cons x xs)
  then show ?case by (cases i) (auto split: if_splits)
qed simp

lemma search_sub_room:
  assumes "search_sub pat xs < length xs"
  shows "search_sub pat xs + length pat \<le> length xs"
proof -
  have "length (take (length pat) (drop (search_sub pat xs) xs)) = length pat"
    using search_sub_hit [OF assms] by (simp add: starts_with_def)
  then show ?thesis using assms by simp
qed

lemma starts_with_append [simp]: "starts_with pat (pat @ xs)"
  by (simp add: starts_with_def)

text \<open>
  The two-character pattern CR LF is found right after a prefix that holds no CR: the
  form in which the HTTP parser meets it.
\<close>

lemma search_pair_first [find_simps]:
  "c \<notin> set xs \<Longrightarrow> search_sub [c, d] (xs @ c # d # ys) = length xs"
proof (induction xs)
  case Nil
  then show ?case by (simp add: starts_with_def)
next
  case (Cons x xs)
  then show ?case by (auto simp: starts_with_def)
qed

lemma search_pair_none:
  "c \<notin> set xs \<Longrightarrow> search_sub [c, d] xs = length xs"
  by (induction xs) (auto simp: starts_with_def)

subsection \<open>Copying into a vector\<close>

text \<open>
  \<^verbatim>\<open>std::copy(src, src + n, v.begin() + i)\<close> overwrites \<open>n\<close> cells of the vector from
  index \<open>i\<close>. \<^verbatim>\<open>std::vector::resize(n)\<close> truncates, or appends value-initialised
  (zero) cells.
\<close>

definition overwrite :: "'a list \<Rightarrow> nat \<Rightarrow> 'a list \<Rightarrow> 'a list" where
  "overwrite v i src = take i v @ src @ drop (i + length src) v"

definition resize :: "nat \<Rightarrow> string \<Rightarrow> string" where
  "resize n v = take n v @ replicate (n - length v) (CHR 0x00)"

lemma length_overwrite [simp]:
  "i + length src \<le> length v \<Longrightarrow> length (overwrite v i src) = length v"
  by (simp add: overwrite_def)

lemma length_resize [simp]: "length (resize n v) = n"
  by (simp add: resize_def)

lemma take_overwrite [simp]: "i \<le> length v \<Longrightarrow> take i (overwrite v i src) = take i v"
  by (simp add: overwrite_def)

lemma take_drop_overwrite [simp]:
  "i \<le> length v \<Longrightarrow> take (length src) (drop i (overwrite v i src)) = src"
  by (simp add: overwrite_def)

lemma take_overwrite_end [simp]:
  "i \<le> length v \<Longrightarrow> take (i + length src) (overwrite v i src) = take i v @ src"
  by (simp add: overwrite_def)

lemma take_resize [simp]: "i \<le> n \<Longrightarrow> i \<le> length v \<Longrightarrow> take i (resize n v) = take i v"
  by (simp add: resize_def)

lemma take_drop_split:
  "r \<le> w \<Longrightarrow> w \<le> length v \<Longrightarrow> take (w - r) (drop r v) = drop r (take w v)"
  by (simp add: drop_take)

lemma drop_append_le: "n \<le> length xs \<Longrightarrow> drop n (xs @ ys) = drop n xs @ ys"
  by simp

subsection \<open>Characters and numbers of the C library\<close>

definition isspace :: "char \<Rightarrow> bool" where
  "isspace c \<longleftrightarrow> c \<in> {CHR '' '', CHR 0x09, CHR 0x0A, CHR 0x0B, CHR 0x0C, CHR 0x0D}"

definition isdigit :: "char \<Rightarrow> bool" where
  "isdigit c \<longleftrightarrow> 48 \<le> (of_char c :: nat) \<and> (of_char c :: nat) \<le> 57"

definition digit_val :: "char \<Rightarrow> nat" where
  "digit_val c = of_char c - 48"

definition digit_char :: "nat \<Rightarrow> char" where
  "digit_char d = char_of (48 + d)"

text \<open>The digits \<^verbatim>\<open>%d\<close>, \<^verbatim>\<open>%u\<close>, \<^verbatim>\<open>%zd\<close> and \<^verbatim>\<open>std::to_string\<close> print.\<close>

fun dec :: "nat \<Rightarrow> string" where
  "dec n = (if n < 10 then [digit_char n] else dec (n div 10) @ [digit_char (n mod 10)])"

declare dec.simps [simp del]

definition dec_int :: "int \<Rightarrow> string" where
  "dec_int i = (if i < 0 then CHR ''-'' # dec (nat (- i)) else dec (nat i))"

text \<open>
  \<^verbatim>\<open>atoi(s)\<close> of glibc is \<^verbatim>\<open>(int) strtol(s, NULL, 10)\<close>: white space is skipped, one sign is
  read, then the longest run of digits; \<^verbatim>\<open>strtol\<close> saturates at the 64-bit range and
  the cast keeps the low 32 bits.
\<close>

definition digits_val :: "nat \<Rightarrow> string \<Rightarrow> nat" where
  "digits_val acc s = fold (\<lambda>c a. 10 * a + digit_val c) (takeWhile isdigit s) acc"

definition clamp64 :: "int \<Rightarrow> int" where
  "clamp64 i = max (- (2 ^ 63)) (min (2 ^ 63 - 1) i)"

definition strtol10 :: "string \<Rightarrow> int" where
  "strtol10 s =
     (let t = dropWhile isspace s
      in case t of
           [] \<Rightarrow> 0
         | c # t' \<Rightarrow>
             if c = CHR ''-'' then clamp64 (- int (digits_val 0 t'))
             else if c = CHR ''+'' then clamp64 (int (digits_val 0 t'))
             else clamp64 (int (digits_val 0 t)))"

definition to_int32 :: "int \<Rightarrow> int" where
  "to_int32 i = (i + 2 ^ 31) mod 2 ^ 32 - 2 ^ 31"

definition atoi :: "string \<Rightarrow> int" where
  "atoi s = to_int32 (strtol10 s)"

text \<open>The conversion of an \<^verbatim>\<open>int\<close> to \<^verbatim>\<open>size_t\<close> in a mixed comparison.\<close>

definition int_to_size :: "int \<Rightarrow> nat" where
  "int_to_size i = nat (i mod 2 ^ 64)"

lemma digit_char_code: "d < 10 \<Longrightarrow> of_char (digit_char d) = 48 + d"
  by (simp add: digit_char_def)

lemma digit_char_eval [simp]:
  "digit_char 0 = CHR ''0''" "digit_char (Suc 0) = CHR ''1''" "digit_char 1 = CHR ''1''"
  "digit_char 2 = CHR ''2''" "digit_char 3 = CHR ''3''" "digit_char 4 = CHR ''4''"
  "digit_char 5 = CHR ''5''" "digit_char 6 = CHR ''6''" "digit_char 7 = CHR ''7''"
  "digit_char 8 = CHR ''8''" "digit_char 9 = CHR ''9''"
  by (simp_all add: digit_char_def char_of_def bit_0)

lemma isdigit_digit_char [simp]: "d < 10 \<Longrightarrow> isdigit (digit_char d)"
  by (simp add: isdigit_def digit_char_code)

lemma digit_val_digit_char [simp]: "d < 10 \<Longrightarrow> digit_val (digit_char d) = d"
  by (simp add: digit_val_def digit_char_code)

lemma isdigit_not_space: "isdigit c \<Longrightarrow> \<not> isspace c"
  by (auto simp: isdigit_def isspace_def)

lemma length_dec_le: "n < 10 ^ k \<Longrightarrow> 0 < k \<Longrightarrow> length (dec n) \<le> k"
proof (induction n arbitrary: k rule: dec.induct)
  case (1 n)
  show ?case
  proof (cases "n < 10")
    case True
    with "1.prems" show ?thesis by (simp add: dec.simps [of n])
  next
    case False
    from "1.prems" obtain j where k: "k = Suc j" by (cases k) auto
    with False "1.prems" have "n div 10 < 10 ^ j" "0 < j" by (auto intro: gr0I)
    with "1.IH" [OF False] show ?thesis by (simp add: dec.simps [of n] False k)
  qed
qed

lemma dec_not_Nil [simp]: "dec n \<noteq> []"
  by (subst dec.simps) simp

lemma dec_digits: "c \<in> set (dec n) \<Longrightarrow> isdigit c"
proof (induction n rule: dec.induct)
  case (1 n)
  then show ?case
    by (cases "n < 10") (auto simp: dec.simps [of n])
qed

lemma digits_val_snoc:
  "(\<And>c. c \<in> set s \<Longrightarrow> isdigit c) \<Longrightarrow> isdigit d \<Longrightarrow>
   digits_val a (s @ [d]) = 10 * digits_val a s + digit_val d"
  by (simp add: digits_val_def takeWhile_eq_all_conv [THEN iffD2])

lemma digits_val_dec: "digits_val 0 (dec n) = n"
proof (induction n rule: dec.induct)
  case (1 n)
  show ?case
  proof (cases "n < 10")
    case True
    then show ?thesis by (simp add: dec.simps [of n] digits_val_def)
  next
    case False
    then show ?thesis
      using "1.IH" by (simp add: dec.simps [of n] digits_val_snoc dec_digits)
  qed
qed

lemma dropWhile_isspace_dec [simp]: "dropWhile isspace (dec n) = dec n"
proof -
  obtain c t where c: "dec n = c # t"
    by (cases "dec n") auto
  have "\<not> isspace c"
    using dec_digits [of c n] c by (auto dest: isdigit_not_space)
  then show ?thesis using c by simp
qed

lemma atoi_dec: "n < 2 ^ 31 \<Longrightarrow> atoi (dec n) = int n"
proof -
  assume n: "n < 2 ^ 31"
  obtain c t where c: "dec n = c # t"
    by (cases "dec n") auto
  have d: "isdigit c" using dec_digits [of c n] c by auto
  then have "c \<noteq> CHR ''-''" "c \<noteq> CHR ''+''" by (auto simp: isdigit_def)
  moreover have "digits_val 0 (c # t) = n" using digits_val_dec [of n] c by simp
  ultimately have "strtol10 (dec n) = clamp64 (int n)"
    using c dropWhile_isspace_dec [of n] by (simp add: strtol10_def)
  also have "\<dots> = int n" using n by (simp add: clamp64_def)
  finally show ?thesis using n by (simp add: atoi_def to_int32_def)
qed

lemma dec_inject [simp]: "dec m = dec n \<longleftrightarrow> m = n"
  using digits_val_dec by metis

lemma int_to_size_nonneg: "0 \<le> i \<Longrightarrow> i < 2 ^ 64 \<Longrightarrow> int_to_size i = nat i"
  by (simp add: int_to_size_def)

end
