(* ===== verification/Buffer.thy ===== *)
theory Buffer
  imports Prelude
begin

text \<open>
  The network buffer (\<^verbatim>\<open>src/Buffer.h\<close>, \<^verbatim>\<open>src/Buffer.cpp\<close>): a vector of bytes with a
  reader and a writer index. A \<^verbatim>\<open>const char *\<close> into the buffer is an offset into the
  vector, \<^verbatim>\<open>size_t\<close> quantities are \<^typ>\<open>nat\<close> (they are bounded by the length of
  storage that exists), and the results of \<^verbatim>\<open>readv\<close> and \<^verbatim>\<open>write\<close> are arguments.

  What is shown: every operation keeps the index invariant, and through the
  abstraction \<open>readable\<close> the buffer is a byte queue (locale \<open>byte_fifo\<close>): append adds
  at the end whatever path \<open>makeSpace\<close> takes, retrieve drops from the front, \<open>readFd\<close>
  appends what the kernel delivered, and the searches return the first match.
\<close>

subsection \<open>The data and its accessors\<close>

record buffer =
  buf_data :: bytes
  readerIndex :: nat
  writeIndex :: nat

definition kCheapPrepend :: nat where
  "kCheapPrepend = 8"

definition kInitialSize :: nat where
  "kInitialSize = 1024"

definition kCRLF :: bytes where
  "kCRLF = [CHR 0x0D, CHR 0x0A]"

definition Buffer_ctor :: "nat \<Rightarrow> buffer" where
  "Buffer_ctor initialSize =
     \<lparr>buf_data = replicate (kCheapPrepend + initialSize) (CHR 0x00),
      readerIndex = kCheapPrepend, writeIndex = kCheapPrepend\<rparr>"

definition Buffer_copy :: "buffer \<Rightarrow> buffer" where
  "Buffer_copy other =
     \<lparr>buf_data = buf_data other, readerIndex = readerIndex other, writeIndex = writeIndex other\<rparr>"

definition readableBytes :: "buffer \<Rightarrow> nat" where
  "readableBytes b = writeIndex b - readerIndex b"

definition writeableBytes :: "buffer \<Rightarrow> nat" where
  "writeableBytes b = length (buf_data b) - writeIndex b"

definition prependableBytes :: "buffer \<Rightarrow> nat" where
  "prependableBytes b = readerIndex b"

definition peek :: "buffer \<Rightarrow> nat" where
  "peek b = readerIndex b"

definition beginWrite :: "buffer \<Rightarrow> nat" where
  "beginWrite b = writeIndex b"

text \<open>\<open>mem b p q\<close> are the bytes of the pointer range \<open>[p, q)\<close>.\<close>

definition mem :: "buffer \<Rightarrow> nat \<Rightarrow> nat \<Rightarrow> bytes" where
  "mem b p q = take (q - p) (drop p (buf_data b))"

subsection \<open>Consuming data\<close>

definition retrieveAll :: "buffer \<Rightarrow> buffer" where
  "retrieveAll b = b\<lparr>readerIndex := kCheapPrepend, writeIndex := kCheapPrepend\<rparr>"

definition retrieve :: "buffer \<Rightarrow> nat \<Rightarrow> buffer" where
  "retrieve b len =
     (if len < readableBytes b then b\<lparr>readerIndex := readerIndex b + len\<rparr>
      else retrieveAll b)"

text \<open>
  \<^verbatim>\<open>std::string result(peek(), len)\<close> reads \<open>len\<close> cells from the reader index, whether
  or not they are readable; beyond the vector the read is out of range.
\<close>

definition retrieveAsString :: "buffer \<Rightarrow> nat \<Rightarrow> (bytes \<times> buffer) res" where
  "retrieveAsString b len =
     (if length (buf_data b) < peek b + len then Inl OutOfRange
      else Inr (mem b (peek b) (peek b + len), retrieve b len))"

definition retrieveAllAsString :: "buffer \<Rightarrow> (bytes \<times> buffer) res" where
  "retrieveAllAsString b = retrieveAsString b (readableBytes b)"

text \<open>
  The pointer difference \<^verbatim>\<open>end - peek()\<close> is converted to \<^verbatim>\<open>size_t\<close>: a pointer before
  \<^verbatim>\<open>peek()\<close> gives a value near \<open>2 ^ 64\<close>.
\<close>

definition retrieveUntil :: "buffer \<Rightarrow> nat \<Rightarrow> buffer" where
  "retrieveUntil b end_ptr =
     retrieve b (if peek b \<le> end_ptr then end_ptr - peek b else 2 ^ 64 - (peek b - end_ptr))"

subsection \<open>Producing data\<close>

definition makeSpace :: "buffer \<Rightarrow> nat \<Rightarrow> buffer" where
  "makeSpace b len =
     (if writeableBytes b + prependableBytes b < len + kCheapPrepend
      then b\<lparr>buf_data := resize (writeIndex b + len) (buf_data b)\<rparr>
      else
        let readable_n = readableBytes b;
            b1 = b\<lparr>buf_data :=
                     overwrite (buf_data b) kCheapPrepend
                       (mem b (readerIndex b) (writeIndex b))\<rparr>;
            b2 = b1\<lparr>readerIndex := kCheapPrepend\<rparr>
        in b2\<lparr>writeIndex := readerIndex b2 + readable_n\<rparr>)"

definition ensureWriteableBytes :: "buffer \<Rightarrow> nat \<Rightarrow> buffer" where
  "ensureWriteableBytes b len = (if writeableBytes b < len then makeSpace b len else b)"

definition append_buf :: "buffer \<Rightarrow> bytes \<Rightarrow> buffer" where
  "append_buf b d =
     (let b1 = ensureWriteableBytes b (length d);
          b2 = b1\<lparr>buf_data := overwrite (buf_data b1) (beginWrite b1) d\<rparr>
      in b2\<lparr>writeIndex := writeIndex b2 + length d\<rparr>)"

text \<open>\<^verbatim>\<open>append(const char *)\<close> stops at the terminating NUL (\<^verbatim>\<open>strlen\<close>).\<close>

definition append_cstr :: "buffer \<Rightarrow> bytes \<Rightarrow> buffer" where
  "append_cstr b s = append_buf b (takeWhile (\<lambda>c. c \<noteq> CHR 0x00) s)"

subsection \<open>Searching\<close>

definition findCRLF_from :: "buffer \<Rightarrow> nat \<Rightarrow> nat option" where
  "findCRLF_from b start =
     (let crlf = start + search_sub kCRLF (mem b start (beginWrite b))
      in if crlf = beginWrite b then None else Some crlf)"

definition findCRLF :: "buffer \<Rightarrow> nat option" where
  "findCRLF b =
     (let crlf = peek b + search_sub kCRLF (mem b (peek b) (beginWrite b))
      in if crlf = beginWrite b then None else Some crlf)"

text \<open>\<^verbatim>\<open>memchr\<close> over the readable range.\<close>

definition findEOL_from :: "buffer \<Rightarrow> nat \<Rightarrow> nat option" where
  "findEOL_from b start =
     (let r = mem b start (beginWrite b); i = find_char (CHR 0x0A) r
      in if i = length r then None else Some (start + i))"

definition findEOL :: "buffer \<Rightarrow> nat option" where
  "findEOL b =
     (let r = mem b (peek b) (peek b + readableBytes b); i = find_char (CHR 0x0A) r
      in if i = length r then None else Some (peek b + i))"

subsection \<open>Descriptor I/O\<close>

text \<open>
  The result of a \<^verbatim>\<open>readv\<close> is an error number or the bytes delivered; the result of a
  \<^verbatim>\<open>write\<close> an error number or the count accepted. \<open>readFd\<close> passes the capacity of its
  two-element vector to the kernel and returns the buffer, the return value and what
  it stored through \<^verbatim>\<open>saveErrno\<close>. The kernel fills the first element (the writeable
  tail of the vector) before the second (the 64 KiB stack buffer).
\<close>

datatype read_ret = ReadErr nat | ReadGot bytes

datatype write_ret = WriteErr nat | WriteDone nat

definition extrabuf_size :: nat where
  "extrabuf_size = 65536"

definition readFd :: "(nat \<Rightarrow> read_ret) \<Rightarrow> buffer \<Rightarrow> buffer \<times> int \<times> nat option" where
  "readFd readv b =
     (let writeable = writeableBytes b;
          capacity = (if writeable < extrabuf_size then writeable + extrabuf_size else writeable)
      in case readv capacity of
           ReadErr e \<Rightarrow> (b, - 1, Some e)
         | ReadGot got \<Rightarrow>
             let n = length got;
                 b1 = b\<lparr>buf_data := overwrite (buf_data b) (writeIndex b) (take writeable got)\<rparr>;
                 extrabuf = (if writeable < extrabuf_size
                             then overwrite (replicate extrabuf_size (CHR 0x00)) 0
                                    (take extrabuf_size (drop writeable got))
                             else replicate extrabuf_size (CHR 0x00))
             in if n \<le> writeable then (b1\<lparr>writeIndex := writeIndex b1 + n\<rparr>, int n, None)
                else (append_buf (b1\<lparr>writeIndex := length (buf_data b1)\<rparr>)
                        (take (n - writeable) extrabuf), int n, None))"

definition writeFd :: "(bytes \<Rightarrow> write_ret) \<Rightarrow> buffer \<Rightarrow> int \<times> nat option" where
  "writeFd write b =
     (case write (mem b (peek b) (peek b + readableBytes b)) of
        WriteErr e \<Rightarrow> (- 1, Some e)
      | WriteDone n \<Rightarrow> (int n, None))"

subsection \<open>Invariant and abstraction\<close>

definition buffer_inv :: "buffer \<Rightarrow> bool" where
  "buffer_inv b \<longleftrightarrow>
     kCheapPrepend \<le> readerIndex b \<and> readerIndex b \<le> writeIndex b \<and>
     writeIndex b \<le> length (buf_data b)"

definition readable :: "buffer \<Rightarrow> bytes" where
  "readable b = mem b (readerIndex b) (writeIndex b)"

lemmas buffer_defs =
  readableBytes_def writeableBytes_def prependableBytes_def peek_def beginWrite_def mem_def

lemma length_readable [simp]: "buffer_inv b \<Longrightarrow> length (readable b) = readableBytes b"
  by (auto simp: buffer_inv_def readable_def buffer_defs)

lemma readable_alt: "buffer_inv b \<Longrightarrow> readable b = drop (readerIndex b) (take (writeIndex b) (buf_data b))"
  by (simp add: buffer_inv_def readable_def buffer_defs take_drop_split)

lemma readableBytes_0 [simp]: "buffer_inv b \<Longrightarrow> readableBytes b = 0 \<longleftrightarrow> readable b = []"
  by (metis length_0_conv length_readable)

lemma buffer_inv_ctor [simp]: "buffer_inv (Buffer_ctor n)"
  by (simp add: buffer_inv_def Buffer_ctor_def)

lemma readable_ctor [simp]: "readable (Buffer_ctor n) = []"
  by (simp add: readable_def mem_def Buffer_ctor_def)

lemma readableBytes_ctor [simp]: "readableBytes (Buffer_ctor n) = 0"
  by (simp add: readableBytes_def Buffer_ctor_def)

lemma Buffer_copy_id: "Buffer_copy b = b"
  by (simp add: Buffer_copy_def)

lemma buffer_inv_retrieveAll [simp]: "buffer_inv b \<Longrightarrow> buffer_inv (retrieveAll b)"
  by (simp add: buffer_inv_def retrieveAll_def)

lemma readable_retrieveAll [simp]: "readable (retrieveAll b) = []"
  by (simp add: readable_def mem_def retrieveAll_def)

lemma buffer_inv_retrieve [simp]: "buffer_inv b \<Longrightarrow> buffer_inv (retrieve b n)"
  by (auto simp: retrieve_def) (auto simp: buffer_inv_def readableBytes_def)

lemma readable_retrieve [simp]: "buffer_inv b \<Longrightarrow> readable (retrieve b n) = drop n (readable b)"
proof (cases "n < readableBytes b")
  case True
  then show ?thesis by (simp add: retrieve_def readable_def mem_def drop_take add.commute)
next
  case False
  assume "buffer_inv b"
  with False show ?thesis by (simp add: retrieve_def)
qed

subsection \<open>Making space and appending\<close>

text \<open>
  Both branches of \<open>makeSpace\<close>: growing the vector, and moving the readable bytes back
  to the start. The readable bytes are the same afterwards and the room asked for is
  there.
\<close>

lemma makeSpace_grow:
  assumes "buffer_inv b" "writeableBytes b < len"
    and "writeableBytes b + prependableBytes b < len + kCheapPrepend"
  shows "buffer_inv (makeSpace b len)" "readable (makeSpace b len) = readable b"
    "writeableBytes (makeSpace b len) = len"
  using assms
  by (simp_all add: makeSpace_def buffer_inv_def readable_def buffer_defs take_drop_split)

lemma move_down:
  assumes "p \<le> r" "r \<le> w" "w \<le> length v"
  shows "take (w - r) (drop p (overwrite v p (take (w - r) (drop r v)))) = take (w - r) (drop r v)"
  using assms by (simp add: overwrite_def)

lemma makeSpace_move:
  assumes "buffer_inv b"
    and "\<not> writeableBytes b + prependableBytes b < len + kCheapPrepend"
  shows "buffer_inv (makeSpace b len)" "readable (makeSpace b len) = readable b"
    "len \<le> writeableBytes (makeSpace b len)"
    "length (buf_data (makeSpace b len)) = length (buf_data b)"
proof -
  have len: "length (mem b (readerIndex b) (writeIndex b)) = writeIndex b - readerIndex b"
    using assms(1) by (auto simp: buffer_inv_def mem_def)
  have size: "length (overwrite (buf_data b) kCheapPrepend (mem b (readerIndex b) (writeIndex b)))
      = length (buf_data b)"
    using assms(1) len by (subst length_overwrite) (auto simp: buffer_inv_def)
  show "length (buf_data (makeSpace b len)) = length (buf_data b)"
    using assms(2) size by (simp add: makeSpace_def)
  show "buffer_inv (makeSpace b len)"
    using assms size by (auto simp: makeSpace_def buffer_inv_def buffer_defs)
  show "readable (makeSpace b len) = readable b"
    using assms move_down [of kCheapPrepend "readerIndex b" "writeIndex b" "buf_data b"]
    by (simp add: makeSpace_def buffer_inv_def readable_def buffer_defs)
  show "len \<le> writeableBytes (makeSpace b len)"
    using assms size by (auto simp: makeSpace_def buffer_inv_def buffer_defs)
qed

lemma ensureWriteableBytes_correct:
  assumes "buffer_inv b"
  shows "buffer_inv (ensureWriteableBytes b len)"
    and "readable (ensureWriteableBytes b len) = readable b"
    and "len \<le> writeableBytes (ensureWriteableBytes b len)"
  using assms makeSpace_grow [of b len] makeSpace_move [of b len]
  by (cases "writeableBytes b + prependableBytes b < len + kCheapPrepend";
      simp add: ensureWriteableBytes_def)+


lemma append_in_place:
  assumes "buffer_inv b" "length d \<le> writeableBytes b"
  defines "b' \<equiv> b\<lparr>buf_data := overwrite (buf_data b) (writeIndex b) d,
                  writeIndex := writeIndex b + length d\<rparr>"
  shows "buffer_inv b'" "readable b' = readable b @ d"
proof -
  have room: "writeIndex b + length d \<le> length (buf_data b)"
    using assms(1,2) by (auto simp: buffer_inv_def writeableBytes_def)
  show inv: "buffer_inv b'"
    using assms(1) room by (simp add: b'_def buffer_inv_def)
  have "readable b' = drop (readerIndex b) (take (writeIndex b) (buf_data b) @ d)"
    using readable_alt [OF inv] assms(1) by (simp add: b'_def buffer_inv_def)
  also have "\<dots> = readable b @ d"
    using assms(1) readable_alt [OF assms(1)] by (simp add: buffer_inv_def)
  finally show "readable b' = readable b @ d" .
qed

lemma append_buf_eq:
  "append_buf b d =
     (let b1 = ensureWriteableBytes b (length d)
      in b1\<lparr>buf_data := overwrite (buf_data b1) (writeIndex b1) d,
            writeIndex := writeIndex b1 + length d\<rparr>)"
  by (simp add: append_buf_def Let_def beginWrite_def)

lemma buffer_inv_append [simp]: "buffer_inv b \<Longrightarrow> buffer_inv (append_buf b d)"
  unfolding append_buf_eq Let_def
  by (rule append_in_place(1)) (simp_all add: ensureWriteableBytes_correct)

lemma readable_append [simp]: "buffer_inv b \<Longrightarrow> readable (append_buf b d) = readable b @ d"
  unfolding append_buf_eq Let_def
  by (subst append_in_place(2)) (simp_all add: ensureWriteableBytes_correct)

subsection \<open>The byte-queue interface\<close>

text \<open>
  What the users of a buffer (connections, the HTTP parser and printer) rely on: an
  invariant, the bytes held, adding at the end and dropping from the front.
\<close>

locale byte_fifo =
  fixes content :: "'b \<Rightarrow> bytes"
    and invar :: "'b \<Rightarrow> bool"
    and push :: "'b \<Rightarrow> bytes \<Rightarrow> 'b"
    and pop :: "'b \<Rightarrow> nat \<Rightarrow> 'b"
  assumes invar_push: "invar b \<Longrightarrow> invar (push b d)"
    and invar_pop: "invar b \<Longrightarrow> invar (pop b n)"
    and content_push: "invar b \<Longrightarrow> content (push b d) = content b @ d"
    and content_pop: "invar b \<Longrightarrow> content (pop b n) = drop n (content b)"
begin

lemma invar_push_all: "invar b \<Longrightarrow> invar (foldl push b ds)"
  by (induction ds arbitrary: b) (simp_all add: invar_push)

lemma content_push_all: "invar b \<Longrightarrow> content (foldl push b ds) = content b @ concat ds"
  by (induction ds arbitrary: b) (simp_all add: invar_push content_push)

lemma invar_pop_all: "invar b \<Longrightarrow> invar (foldl pop b ns)"
  by (induction ns arbitrary: b) (simp_all add: invar_pop)

lemma content_pop_all: "invar b \<Longrightarrow> content (foldl pop b ns) = drop (sum_list ns) (content b)"
  by (induction ns arbitrary: b) (simp_all add: invar_pop content_pop add.commute)

text \<open>Writing messages and draining them in any chunking yields the messages in order.\<close>

lemma drain:
  assumes "invar b" "content b = []" "sum_list ns \<le> length (concat ds)"
  shows "take (sum_list ns) (concat ds) @ content (foldl pop (foldl push b ds) ns) = concat ds"
  using assms by (simp add: content_pop_all content_push_all invar_push_all)

end

interpretation buf: byte_fifo readable buffer_inv append_buf retrieve
  by unfold_locales simp_all

lemma buffer_inv_append_cstr [simp]: "buffer_inv b \<Longrightarrow> buffer_inv (append_cstr b s)"
  by (simp add: append_cstr_def)

lemma readable_append_cstr [simp]:
  "buffer_inv b \<Longrightarrow> CHR 0x00 \<notin> set s \<Longrightarrow> readable (append_cstr b s) = readable b @ s"
proof -
  assume "buffer_inv b" "CHR 0x00 \<notin> set s"
  moreover from this(2) have "takeWhile (\<lambda>c. c \<noteq> CHR 0x00) s = s"
    by (auto simp: takeWhile_eq_all_conv)
  ultimately show ?thesis by (simp add: append_cstr_def)
qed

text \<open>Any interleaving of writers and readers, against the queue it stands for.\<close>

datatype fifo_op = Push bytes | Pop nat

fun fifo_apply :: "('b \<Rightarrow> bytes \<Rightarrow> 'b) \<Rightarrow> ('b \<Rightarrow> nat \<Rightarrow> 'b) \<Rightarrow> 'b \<Rightarrow> fifo_op \<Rightarrow> 'b" where
  "fifo_apply push pop b (Push d) = push b d"
| "fifo_apply push pop b (Pop n) = pop b n"

context byte_fifo
begin

lemma run_refines:
  "invar b \<Longrightarrow>
   invar (foldl (fifo_apply push pop) b ops) \<and>
   content (foldl (fifo_apply push pop) b ops)
     = foldl (fifo_apply (@) (\<lambda>q n. drop n q)) (content b) ops"
proof (induction ops arbitrary: b)
  case (Cons x ops)
  have "invar (fifo_apply push pop b x)"
    and "content (fifo_apply push pop b x) = fifo_apply (@) (\<lambda>q n. drop n q) (content b) x"
    using Cons.prems by (cases x; simp add: invar_push invar_pop content_push content_pop)+
  with Cons.IH show ?case by simp
qed simp

end

subsection \<open>Searching, strings and descriptor I/O\<close>

lemma mem_readable: "mem b (peek b) (beginWrite b) = readable b"
  by (simp add: readable_def peek_def beginWrite_def)

lemma peek_plus_readable: "buffer_inv b \<Longrightarrow> peek b + readableBytes b = writeIndex b"
  by (simp add: buffer_inv_def peek_def readableBytes_def)

lemma findCRLF_eq:
  assumes "buffer_inv b"
  shows "findCRLF b =
    (if search_sub kCRLF (readable b) < length (readable b)
     then Some (peek b + search_sub kCRLF (readable b)) else None)"
proof -
  have "peek b + length (readable b) = beginWrite b"
    using assms peek_plus_readable [OF assms] by (simp add: beginWrite_def)
  moreover have "search_sub kCRLF (readable b) \<le> length (readable b)" by simp
  ultimately show ?thesis
    by (auto simp: findCRLF_def Let_def mem_readable le_less)
qed

lemma starts_with_iff: "starts_with p xs \<longleftrightarrow> (\<exists>ys. xs = p @ ys)"
  by (auto simp: starts_with_def) (metis append_take_drop_id)

lemma search_sub_decomp:
  assumes "search_sub p xs < length xs"
  shows "xs = take (search_sub p xs) xs @ p @ drop (search_sub p xs + length p) xs"
proof -
  obtain ys where ys: "drop (search_sub p xs) xs = p @ ys"
    using search_sub_hit [OF assms] by (auto simp: starts_with_iff)
  then have "ys = drop (search_sub p xs + length p) xs"
    by (metis add.commute append_eq_conv_conj drop_drop)
  then show ?thesis using ys by (metis append_take_drop_id)
qed

lemma search_sub_none:
  assumes "search_sub p xs = length xs" "p \<noteq> []"
  shows "xs \<noteq> us @ p @ vs"
proof
  assume eq: "xs = us @ p @ vs"
  then have "length us < search_sub p xs" using assms by (cases p) auto
  then have "\<not> starts_with p (drop (length us) xs)" by (rule search_sub_least)
  with eq show False by simp
qed

lemma retrieveAsString_ok:
  assumes "buffer_inv b" "len \<le> readableBytes b"
  shows "retrieveAsString b len = Inr (take len (readable b), retrieve b len)"
proof -
  have "peek b + len \<le> length (buf_data b)"
    using assms by (auto simp: buffer_inv_def buffer_defs)
  moreover have "mem b (peek b) (peek b + len) = take len (readable b)"
    using assms by (simp add: readable_def buffer_defs min_def)
  ultimately show ?thesis by (simp add: retrieveAsString_def)
qed

lemma retrieveAllAsString_ok:
  "buffer_inv b \<Longrightarrow> retrieveAllAsString b = Inr (readable b, retrieveAll b)"
  using retrieveAsString_ok [of b "readableBytes b"]
  by (simp add: retrieveAllAsString_def retrieve_def flip: length_readable)

lemma retrieveUntil_forward [simp]: "retrieveUntil b (peek b + n) = retrieve b n"
  by (simp add: retrieveUntil_def)

lemma readFd_room:
  assumes "buffer_inv b" "readv (if writeableBytes b < extrabuf_size
      then writeableBytes b + extrabuf_size else writeableBytes b) = ReadGot got"
    and "length got \<le> writeableBytes b"
  shows "readFd readv b =
    (b\<lparr>buf_data := overwrite (buf_data b) (writeIndex b) got,
       writeIndex := writeIndex b + length got\<rparr>, int (length got), None)"
  using assms by (simp add: readFd_def Let_def)

lemma readFd_spill:
  assumes "buffer_inv b" "writeableBytes b < extrabuf_size"
    and "readv (writeableBytes b + extrabuf_size) = ReadGot got"
    and "writeableBytes b < length got" "length got \<le> writeableBytes b + extrabuf_size"
  shows "readFd readv b =
    (append_buf (b\<lparr>buf_data := overwrite (buf_data b) (writeIndex b) (take (writeableBytes b) got),
                   writeIndex := length (buf_data b)\<rparr>)
       (drop (writeableBytes b) got), int (length got), None)"
proof -
  have "writeIndex b + length (take (writeableBytes b) got) = length (buf_data b)"
    using assms(1,4) by (simp add: buffer_inv_def writeableBytes_def)
  then have "length (overwrite (buf_data b) (writeIndex b) (take (writeableBytes b) got))
      = length (buf_data b)" by simp
  then show ?thesis
    using assms by (simp add: readFd_def Let_def overwrite_def)
qed

lemma spill_state:
  assumes "buffer_inv b" "writeableBytes b < length got"
  defines "b1 \<equiv> b\<lparr>buf_data := overwrite (buf_data b) (writeIndex b) (take (writeableBytes b) got),
                   writeIndex := length (buf_data b)\<rparr>"
  shows "buffer_inv b1" "readable b1 = readable b @ take (writeableBytes b) got"
proof -
  have "writeIndex b + length (take (writeableBytes b) got) = length (buf_data b)"
    using assms(1,2) by (simp add: buffer_inv_def writeableBytes_def)
  then show "buffer_inv b1" "readable b1 = readable b @ take (writeableBytes b) got"
    using append_in_place [OF assms(1), of "take (writeableBytes b) got"] by (simp_all add: b1_def)
qed

lemma readFd_got:
  assumes inv: "buffer_inv b"
    and got: "readv (if writeableBytes b < extrabuf_size
                     then writeableBytes b + extrabuf_size else writeableBytes b) = ReadGot got"
    and cap: "\<forall>c got. readv c = ReadGot got \<longrightarrow> length got \<le> c"
  shows "\<exists>b'. readFd readv b = (b', int (length got), None) \<and>
    buffer_inv b' \<and> readable b' = readable b @ got"
proof (cases "length got \<le> writeableBytes b")
  case True
  then show ?thesis
    using readFd_room [where readv = readv, OF inv got True] append_in_place [OF inv True] by simp
next
  case False
  then have small: "writeableBytes b < extrabuf_size"
    and fits: "length got \<le> writeableBytes b + extrabuf_size"
    using cap got by (auto split: if_splits)
  with got have "readv (writeableBytes b + extrabuf_size) = ReadGot got" by simp
  then show ?thesis
    using readFd_spill [where readv = readv, OF inv small _ _ fits] False small
      spill_state [OF inv, of got] by simp
qed

subsection \<open>Properties\<close>

text \<open>
  Appending to a well-formed buffer keeps it well formed and adds exactly the given
  bytes after the readable ones, whether or not the vector has to grow or be compacted;
  and when the free space before and after the data suffices, the storage does not grow.
\<close>

theorem append_buf_correct:
  assumes "buffer_inv b"
  shows "buffer_inv (append_buf b d) \<and> readable (append_buf b d) = readable b @ d \<and>
    (length d + kCheapPrepend \<le> writeableBytes b + prependableBytes b \<longrightarrow>
       length (buf_data (append_buf b d)) = length (buf_data b))"
proof (intro conjI impI)
  assume room: "length d + kCheapPrepend \<le> writeableBytes b + prependableBytes b"
  let ?e = "ensureWriteableBytes b (length d)"
  have "length (buf_data ?e) = length (buf_data b)"
    using room makeSpace_move(4) [OF assms, of "length d"] by (auto simp: ensureWriteableBytes_def)
  moreover have "writeIndex ?e + length d \<le> length (buf_data ?e)"
    using ensureWriteableBytes_correct [OF assms, of "length d"]
    by (auto simp: buffer_inv_def writeableBytes_def)
  ultimately show "length (buf_data (append_buf b d)) = length (buf_data b)"
    by (simp add: append_buf_eq Let_def)
qed (use assms in simp_all)

theorem append_buf_correct_witness:
  "buffer_inv (Buffer_ctor 4) \<and>
   readable (append_buf (Buffer_ctor 4) ''hello'') = readable (Buffer_ctor 4) @ ''hello''"
  using append_buf_correct [of "Buffer_ctor 4" "''hello''"] by simp

text \<open>
  C7: for every interleaving of appends and retrieves the buffer behaves as the byte queue
  it stands for: no byte is lost, duplicated or reordered, and the invariant holds
  throughout.
\<close>

theorem buffer_refines_queue:
  assumes "buffer_inv b"
  shows "buffer_inv (foldl (fifo_apply append_buf retrieve) b ops) \<and>
    readable (foldl (fifo_apply append_buf retrieve) b ops)
      = foldl (fifo_apply (@) (\<lambda>q n. drop n q)) (readable b) ops"
  using assms by (rule buf.run_refines)

theorem buffer_refines_queue_witness:
  "readable (foldl (fifo_apply append_buf retrieve) (Buffer_ctor 2)
     [Push ''abc'', Pop 2, Push ''de'', Pop 1]) = ''de''"
  using buffer_refines_queue [of "Buffer_ctor 2" "[Push ''abc'', Pop 2, Push ''de'', Pop 1]"]
  by simp

text \<open>What an operation does to the size of the storage: only appending makes it larger, and then by little.\<close>

lemma length_append_buf:
  assumes "buffer_inv b"
  shows "length (buf_data (append_buf b d)) \<le>
    max (length (buf_data b)) (2 * length (readable (append_buf b d)) + 7)"
proof -
  have room: "length (buf_data (ensureWriteableBytes b (length d))) \<le>
      max (length (buf_data b)) (readableBytes b + 2 * length d + 7)"
    using assms
    by (auto simp: ensureWriteableBytes_def makeSpace_def buffer_defs buffer_inv_def resize_def mem_def Let_def
        kCheapPrepend_def max_def)
  have "length (buf_data (append_buf b d)) = length (buf_data (ensureWriteableBytes b (length d)))"
    using ensureWriteableBytes_correct [OF assms, of "length d"]
    by (auto simp: append_buf_def Let_def buffer_defs buffer_inv_def)
  with room assms show ?thesis by simp
qed

lemma length_retrieve: "length (buf_data (retrieve b n)) = length (buf_data b)"
  by (simp add: retrieve_def retrieveAll_def)

text \<open>
  C21: the storage of a buffer is bounded by what the buffer has to hold. In every sequence of appends
  and retrieves in which never more than \<open>M\<close> bytes are to be held, the vector never has more
  than twice \<open>M\<close> plus seven cells, or the cells it had at first: reclaiming the space in front of the reader
  keeps a long-lived connection from growing its buffer without end.
\<close>

theorem buffer_memory_bound:
  assumes "\<forall>k. length (foldl (fifo_apply (@) (\<lambda>q n. drop n q)) [] (take k ops)) \<le> M"
  shows "length (buf_data (foldl (fifo_apply append_buf retrieve) (Buffer_ctor n) ops)) \<le>
    max (kCheapPrepend + n) (2 * M + 7)"
  using assms
proof (induction ops rule: rev_induct)
  case Nil
  show ?case by (simp add: Buffer_ctor_def)
next
  case (snoc x ops)
  let ?b = "foldl (fifo_apply append_buf retrieve) (Buffer_ctor n) ops"
  have inv: "buffer_inv ?b" using buf.run_refines [of "Buffer_ctor n" ops] by simp
  have held: "length (readable (fifo_apply append_buf retrieve ?b x)) \<le> M"
    using snoc.prems [rule_format, of "length (ops @ [x])"] buf.run_refines [of "Buffer_ctor n" "ops @ [x]"] by simp
  have IH: "length (buf_data ?b) \<le> max (kCheapPrepend + n) (2 * M + 7)"
  proof (rule snoc.IH, rule allI)
    fix k
    show "length (foldl (fifo_apply (@) (\<lambda>q n. drop n q)) [] (take k ops)) \<le> M"
      using snoc.prems [rule_format, of "min k (length ops)"] by (simp add: min_def split: if_splits)
  qed
  show ?case
  proof (cases x)
    case (Push d)
    with length_append_buf [OF inv, of d] held IH show ?thesis by simp
  next
    case (Pop m)
    with IH show ?thesis by (simp add: length_retrieve)
  qed
qed

theorem buffer_memory_bound_witness:
  "length (buf_data (foldl (fifo_apply append_buf retrieve) (Buffer_ctor 4) [Push ''abcdef'', Pop 5, Push ''ghijkl''])) \<le> 21"
proof -
  have "\<forall>k. length (foldl (fifo_apply (@) (\<lambda>q n. drop n q)) [] (take k [Push ''abcdef'', Pop 5, Push ''ghijkl''])) \<le> 7"
  proof
    fix k :: nat
    consider "k = 0" | "k = 1" | "k = 2" | "k \<ge> 3" by linarith
    then show "length (foldl (fifo_apply (@) (\<lambda>q n. drop n q)) [] (take k [Push ''abcdef'', Pop 5, Push ''ghijkl''])) \<le> 7"
      by cases (simp_all add: numeral_2_eq_2)
  qed
  from buffer_memory_bound [OF this, of 4] show ?thesis by (simp add: kCheapPrepend_def)
qed

text \<open>
  \<open>readFd\<close> appends exactly the bytes the kernel delivered, over the writeable tail
  and the 64 KiB overflow area, and returns their number; on an error it leaves the
  buffer alone, returns -1 and stores the error number. The kernel is assumed to deliver
  no more than the capacity of the vector it was given.
\<close>

theorem readFd_correct:
  assumes inv: "buffer_inv b"
    and cap: "\<forall>c got. readv c = ReadGot got \<longrightarrow> length got \<le> c"
  shows "case readv (if writeableBytes b < extrabuf_size
                     then writeableBytes b + extrabuf_size else writeableBytes b) of
      ReadErr e \<Rightarrow> readFd readv b = (b, - 1, Some e)
    | ReadGot got \<Rightarrow> (\<exists>b'. readFd readv b = (b', int (length got), None) \<and>
        buffer_inv b' \<and> readable b' = readable b @ got)"
  using readFd_got [where readv = readv, OF inv _ cap]
  by (cases "readv (if writeableBytes b < extrabuf_size
                     then writeableBytes b + extrabuf_size else writeableBytes b)")
     (auto simp: readFd_def Let_def)

theorem readFd_correct_witness:
  "\<exists>b'. readFd (\<lambda>c. ReadGot (take c ''ping'')) (Buffer_ctor 2) = (b', 4, None) \<and>
     buffer_inv b' \<and> readable b' = ''ping''"
proof -
  have w: "writeableBytes (Buffer_ctor 2) = 2"
    by (simp add: writeableBytes_def Buffer_ctor_def)
  show ?thesis
    using readFd_correct [of "Buffer_ctor 2" "\<lambda>c. ReadGot (take c ''ping'')"]
    by (simp add: w extrabuf_size_def)
qed

text \<open>
  \<open>findCRLF\<close> returns the position of the first CR LF of the readable bytes, and no
  position exactly when they contain none.
\<close>

theorem findCRLF_correct:
  assumes inv: "buffer_inv b"
  shows "case findCRLF b of
      None \<Rightarrow> (\<forall>us vs. readable b \<noteq> us @ kCRLF @ vs)
    | Some p \<Rightarrow> (\<exists>us vs. readable b = us @ kCRLF @ vs \<and> p = peek b + length us \<and>
        (\<forall>us' vs'. readable b = us' @ kCRLF @ vs' \<longrightarrow> length us \<le> length us'))"
proof (cases "search_sub kCRLF (readable b) < length (readable b)")
  case True
  let ?i = "search_sub kCRLF (readable b)"
  have "length us' < ?i \<Longrightarrow> readable b \<noteq> us' @ kCRLF @ vs'" for us' vs'
    using search_sub_least [of "length us'" kCRLF "readable b"] by auto
  then have "readable b = us' @ kCRLF @ vs' \<Longrightarrow> ?i \<le> length us'" for us' vs'
    using not_less by blast
  moreover have "length (take ?i (readable b)) = ?i" using True by simp
  ultimately have "\<exists>us vs. readable b = us @ kCRLF @ vs \<and> peek b + ?i = peek b + length us \<and>
      (\<forall>us' vs'. readable b = us' @ kCRLF @ vs' \<longrightarrow> length us \<le> length us')"
    using search_sub_decomp [OF True] by metis
  then show ?thesis using True findCRLF_eq [OF inv] by simp
next
  case False
  then have "search_sub kCRLF (readable b) = length (readable b)"
    using search_sub_le [of kCRLF "readable b"] by linarith
  then show ?thesis
    using False findCRLF_eq [OF inv] search_sub_none [of kCRLF "readable b"]
    by (auto simp: kCRLF_def)
qed

theorem findCRLF_correct_witness:
  "findCRLF (append_buf (Buffer_ctor 4) (''ab'' @ kCRLF)) = Some 10"
proof -
  have r: "readable (append_buf (Buffer_ctor 4) (''ab'' @ kCRLF)) = ''ab'' @ kCRLF @ []" by simp
  have p: "peek (append_buf (Buffer_ctor 4) (''ab'' @ kCRLF)) = 8"
    by (simp add: append_buf_eq ensureWriteableBytes_def writeableBytes_def Buffer_ctor_def
        kCRLF_def kCheapPrepend_def peek_def)
  show ?thesis
    using findCRLF_correct [of "append_buf (Buffer_ctor 4) (''ab'' @ kCRLF)"] r p
    by (auto simp: kCRLF_def Cons_eq_append_conv split: option.splits)
qed

end
