(* ===== verification/Channel.thy ===== *)
theory Channel
  imports Prelude
begin

unbundle bit_operations_syntax

text \<open>
  The channel (\<^verbatim>\<open>src/Channel.h\<close>, \<^verbatim>\<open>src/Channel.cpp\<close>): a descriptor, the events it wants,
  the events that happened, its registration state, and four callbacks. A callback is a
  value of the type \<open>'f\<close> of callables (what a \<^verbatim>\<open>std::function\<close> holds), absent when the
  function object is empty. The operations that go through the event loop
  (\<^verbatim>\<open>enableReading\<close> and its kin, \<^verbatim>\<open>remove\<close>) are in theory \<open>Poller\<close>, after what they call.

  Event masks are 32-bit words, with the values of \<^verbatim>\<open><sys/epoll.h>\<close>.
\<close>

type_synonym events = "32 word"

definition EPOLLIN :: events where "EPOLLIN = 1"
definition EPOLLPRI :: events where "EPOLLPRI = 2"
definition EPOLLOUT :: events where "EPOLLOUT = 4"
definition EPOLLERR :: events where "EPOLLERR = 8"
definition EPOLLHUP :: events where "EPOLLHUP = 16"

lemmas epoll_consts = EPOLLIN_def EPOLLPRI_def EPOLLOUT_def EPOLLERR_def EPOLLHUP_def

text \<open>
  \<^verbatim>\<open>kReadEvent = EPOLLIN || EPOLLPRI\<close>: the logical or, a boolean converted to \<^verbatim>\<open>int\<close>.
\<close>

definition kNoneEvent :: events where
  "kNoneEvent = 0"

definition kReadEvent :: events where
  "kReadEvent = (if EPOLLIN \<noteq> 0 \<or> EPOLLPRI \<noteq> 0 then 1 else 0)"

definition kWriteEvent :: events where
  "kWriteEvent = EPOLLOUT"

record 'f channel =
  ch_fd :: int
  ch_events :: events
  ch_revents :: events
  ch_index :: int
  ch_tied :: bool
  ch_readCallback :: "'f option"
  ch_writeCallback :: "'f option"
  ch_closeCallback :: "'f option"
  ch_errorCallback :: "'f option"

definition Channel_ctor :: "int \<Rightarrow> 'f channel" where
  "Channel_ctor fd =
     \<lparr>ch_fd = fd, ch_events = 0, ch_revents = 0, ch_index = - 1, ch_tied = False,
      ch_readCallback = None, ch_writeCallback = None, ch_closeCallback = None,
      ch_errorCallback = None\<rparr>"

definition isNoneEvent :: "'f channel \<Rightarrow> bool" where
  "isNoneEvent ch \<longleftrightarrow> ch_events ch = kNoneEvent"

definition isWriting :: "'f channel \<Rightarrow> bool" where
  "isWriting ch \<longleftrightarrow> ch_events ch AND kWriteEvent \<noteq> 0"

definition isReading :: "'f channel \<Rightarrow> bool" where
  "isReading ch \<longleftrightarrow> ch_events ch AND kReadEvent \<noteq> 0"

definition tie :: "'f channel \<Rightarrow> 'f channel" where
  "tie ch = ch\<lparr>ch_tied := True\<rparr>"

text \<open>The updates of \<^verbatim>\<open>events_\<close> that precede \<^verbatim>\<open>update()\<close> in the five event setters.\<close>

definition add_reading :: "'f channel \<Rightarrow> 'f channel" where
  "add_reading ch = ch\<lparr>ch_events := ch_events ch OR kReadEvent\<rparr>"

definition del_reading :: "'f channel \<Rightarrow> 'f channel" where
  "del_reading ch = ch\<lparr>ch_events := ch_events ch AND NOT kReadEvent\<rparr>"

definition add_writing :: "'f channel \<Rightarrow> 'f channel" where
  "add_writing ch = ch\<lparr>ch_events := ch_events ch OR kWriteEvent\<rparr>"

definition del_writing :: "'f channel \<Rightarrow> 'f channel" where
  "del_writing ch = ch\<lparr>ch_events := ch_events ch AND NOT kWriteEvent\<rparr>"

definition del_all :: "'f channel \<Rightarrow> 'f channel" where
  "del_all ch = ch\<lparr>ch_events := kNoneEvent\<rparr>"

text \<open>
  \<open>handleEventWithGuard\<close>: the callbacks it invokes, in order. They depend on the
  returned events only, which nothing changes before the next poll. The read callback
  gets the time of the poll. An absent callback is skipped.
\<close>

datatype 'f invocation = Invoke 'f | InvokeAt 'f int

definition call_opt :: "'f option \<Rightarrow> 'f invocation list" where
  "call_opt cb = (case cb of None \<Rightarrow> [] | Some f \<Rightarrow> [Invoke f])"

definition call_at_opt :: "int \<Rightarrow> 'f option \<Rightarrow> 'f invocation list" where
  "call_at_opt t cb = (case cb of None \<Rightarrow> [] | Some f \<Rightarrow> [InvokeAt f t])"

definition handleEventWithGuard :: "int \<Rightarrow> 'f channel \<Rightarrow> 'f invocation list" where
  "handleEventWithGuard receiveTime ch =
     (let rev = ch_revents ch in
      (if rev AND EPOLLHUP \<noteq> 0 \<and> \<not> (rev AND EPOLLIN \<noteq> 0) then call_opt (ch_closeCallback ch) else [])
      @ (if rev AND EPOLLERR \<noteq> 0 then call_opt (ch_errorCallback ch) else [])
      @ (if rev AND (EPOLLIN OR EPOLLPRI) \<noteq> 0 then call_at_opt receiveTime (ch_readCallback ch) else [])
      @ (if rev AND EPOLLOUT \<noteq> 0 then call_opt (ch_writeCallback ch) else []))"

text \<open>\<open>alive\<close>: whether \<^verbatim>\<open>tie_.lock()\<close> yields the owner, for a tied channel.\<close>

definition handleEvent :: "bool \<Rightarrow> int \<Rightarrow> 'f channel \<Rightarrow> 'f invocation list" where
  "handleEvent alive receiveTime ch =
     (if ch_tied ch then (if alive then handleEventWithGuard receiveTime ch else [])
      else handleEventWithGuard receiveTime ch)"

subsection \<open>Event masks\<close>

lemma kReadEvent_eq: "kReadEvent = EPOLLIN"
  by (simp add: kReadEvent_def epoll_consts)

lemmas event_defs = kNoneEvent_def kReadEvent_eq kWriteEvent_def epoll_consts

lemma and_4: "(w :: events) AND 4 \<noteq> 0 \<longleftrightarrow> bit w 2"
  using and_exp_eq_0_iff_not_bit [of w 2] by simp

lemma and_1: "(w :: events) AND 1 \<noteq> 0 \<longleftrightarrow> bit w 0"
  using and_exp_eq_0_iff_not_bit [of w 0] by simp

lemma bit_4: "bit (4 :: events) n \<longleftrightarrow> n = 2"
  using bit_exp_iff [of 2 n, where ?'a = "32 word"] by (auto simp: bit_simps)

lemma isWriting_bit: "isWriting ch \<longleftrightarrow> bit (ch_events ch) 2"
  by (simp add: isWriting_def event_defs and_4)

lemma isReading_bit: "isReading ch \<longleftrightarrow> bit (ch_events ch) 0"
  by (simp add: isReading_def event_defs and_1)

lemma isWriting_simps [simp]:
  "isWriting (add_writing ch)" "\<not> isWriting (del_writing ch)" "\<not> isWriting (del_all ch)"
  "isWriting (add_reading ch) = isWriting ch" "isWriting (del_reading ch) = isWriting ch"
  by (simp_all add: isWriting_bit add_writing_def del_writing_def del_all_def add_reading_def
      del_reading_def event_defs bit_simps bit_4)

lemma isReading_simps [simp]:
  "isReading (add_reading ch)" "\<not> isReading (del_reading ch)" "\<not> isReading (del_all ch)"
  "isReading (add_writing ch) = isReading ch" "isReading (del_writing ch) = isReading ch"
  by (simp_all add: isReading_bit add_writing_def del_writing_def del_all_def add_reading_def
      del_reading_def event_defs bit_simps bit_4)

lemma add_reading_mask:
  "ch_events (add_reading ch) AND EPOLLPRI = ch_events ch AND EPOLLPRI"
  "ch_events (add_reading ch) AND EPOLLIN = EPOLLIN"
  by (simp_all add: add_reading_def kReadEvent_eq epoll_consts bit.conj_disj_distrib2 word_ao_absorbs)

text \<open>
  The callbacks an event invokes, for every mask of events that happened: a hang-up
  without input closes first, then errors, reading (input or urgent data, with the poll
  time) and writing follow in this order; a tied channel whose owner is gone invokes
  nothing.
\<close>

theorem handleEvent_dispatch:
  "handleEvent alive t ch =
     (if ch_tied ch \<and> \<not> alive then []
      else (if bit (ch_revents ch) 4 \<and> \<not> bit (ch_revents ch) 0 then call_opt (ch_closeCallback ch) else [])
         @ (if bit (ch_revents ch) 3 then call_opt (ch_errorCallback ch) else [])
         @ (if bit (ch_revents ch) 0 \<or> bit (ch_revents ch) 1 then call_at_opt t (ch_readCallback ch) else [])
         @ (if bit (ch_revents ch) 2 then call_opt (ch_writeCallback ch) else []))"
proof -
  let ?w = "ch_revents ch"
  have b: "?w AND 16 \<noteq> 0 \<longleftrightarrow> bit ?w 4" "?w AND 8 \<noteq> 0 \<longleftrightarrow> bit ?w 3" "?w AND 2 \<noteq> 0 \<longleftrightarrow> bit ?w 1"
    using and_exp_eq_0_iff_not_bit [of ?w 4] and_exp_eq_0_iff_not_bit [of ?w 3]
      and_exp_eq_0_iff_not_bit [of ?w 1] by simp_all
  have "?w AND (1 OR 2) \<noteq> 0 \<longleftrightarrow> ?w AND 1 \<noteq> 0 \<or> ?w AND 2 \<noteq> 0"
    unfolding bit.conj_disj_distrib by (simp add: or_eq_0_iff)
  then show ?thesis
    using b by (auto simp: handleEvent_def handleEventWithGuard_def Let_def epoll_consts and_4 and_1)
qed

end
