(* ===== verification/Kernel.thy ===== *)
theory Kernel
  imports Buffer Channel
begin

text \<open>
  The operating system, which is not part of the sources, as a parameter. The library's
  system calls are recorded in a trace, in the order they are made; a \<open>kernel\<close> is a family
  of functions that answer a call given the trace so far, so every behaviour of a real
  kernel is an instance. What the theorems need from it is stated as named predicates
  over these functions (\<open>ctl_sound\<close>, \<open>write_sound\<close>), which paraphrase the manual pages.
\<close>

datatype ctl_op = CTL_ADD | CTL_MOD | CTL_DEL

text \<open>
  A channel pointer is a heap address, a \<^typ>\<open>nat\<close>. \<open>EpollCtl\<close> carries the pointer stored
  in \<^verbatim>\<open>event.data.ptr\<close> and whether the call succeeded.
\<close>

datatype sysevent =
    EpollCtl ctl_op int events nat bool
  | EventfdWrite int
  | EventfdRead int
  | SockWrite int bytes write_ret
  | SockRead int read_ret
  | SockShutdownWr int
  | SockKeepAlive int
  | SockGetError int
  | TimerfdRead int
  | TimerfdSet int int int
  | SockClose int
  | SockOpen int
  | SockConnect int
  | SockReuseAddr int
  | SockReusePort int
  | SockBind int
  | SockListen int
  | SockAccept int int
  | SockNoDelay int bool
  | SockOptOff int string

record kernel =
  k_epoll_ctl :: "sysevent list \<Rightarrow> ctl_op \<Rightarrow> int \<Rightarrow> events \<Rightarrow> bool"
  k_write :: "sysevent list \<Rightarrow> int \<Rightarrow> bytes \<Rightarrow> write_ret"
  k_readv :: "sysevent list \<Rightarrow> int \<Rightarrow> nat \<Rightarrow> read_ret"

subsection \<open>What a trace says\<close>

text \<open>The interest list of the epoll instance after the successful calls of a trace.\<close>

type_synonym interest_map = "int \<Rightarrow> (events \<times> nat) option"

fun interest_step :: "interest_map \<Rightarrow> sysevent \<Rightarrow> interest_map" where
  "interest_step m (EpollCtl op fd ev c ok) =
     (if ok then (case op of CTL_DEL \<Rightarrow> m(fd := None) | _ \<Rightarrow> m(fd := Some (ev, c))) else m)"
| "interest_step m _ = m"

definition interest :: "sysevent list \<Rightarrow> interest_map" where
  "interest tr = foldl interest_step (\<lambda>_. None) tr"

lemma interest_Nil [simp]: "interest [] = (\<lambda>_. None)"
  by (simp add: interest_def)

lemma interest_snoc [simp]: "interest (tr @ [e]) = interest_step (interest tr) e"
  by (simp add: interest_def)

fun is_ctl :: "sysevent \<Rightarrow> bool" where
  "is_ctl (EpollCtl op fd ev c ok) \<longleftrightarrow> True"
| "is_ctl _ \<longleftrightarrow> False"

lemma interest_step_other [simp]: "\<not> is_ctl e \<Longrightarrow> interest_step m e = m"
  by (cases e) simp_all

text \<open>The bytes the kernel has accepted on a descriptor.\<close>

fun accepted :: "int \<Rightarrow> sysevent \<Rightarrow> bytes" where
  "accepted fd (SockWrite fd' d (WriteDone n)) = (if fd' = fd then take n d else [])"
| "accepted fd _ = []"

definition sent :: "int \<Rightarrow> sysevent list \<Rightarrow> bytes" where
  "sent fd tr = concat (map (accepted fd) tr)"

lemma sent_Nil [simp]: "sent fd [] = []"
  by (simp add: sent_def)

lemma sent_append [simp]: "sent fd (tr @ tr') = sent fd tr @ sent fd tr'"
  by (simp add: sent_def)

lemma sent_Cons [simp]: "sent fd (e # tr) = accepted fd e @ sent fd tr"
  by (simp add: sent_def)

text \<open>The bytes the kernel has delivered from a descriptor.\<close>

fun delivered :: "int \<Rightarrow> sysevent \<Rightarrow> bytes" where
  "delivered fd (SockRead fd' (ReadGot got)) = (if fd' = fd then got else [])"
| "delivered fd _ = []"

definition received :: "int \<Rightarrow> sysevent list \<Rightarrow> bytes" where
  "received fd tr = concat (map (delivered fd) tr)"

lemma received_simps [simp]:
  "received fd [] = []" "received fd (tr @ tr') = received fd tr @ received fd tr'"
  "received fd (e # tr) = delivered fd e @ received fd tr"
  by (simp_all add: received_def)

text \<open>Nothing is written to a descriptor after its sending side was shut down.\<close>

fun writes_to :: "int \<Rightarrow> sysevent \<Rightarrow> bool" where
  "writes_to fd (SockWrite fd' d r) \<longleftrightarrow> fd' = fd"
| "writes_to fd _ \<longleftrightarrow> False"

fun no_write_after_shutdown :: "int \<Rightarrow> sysevent list \<Rightarrow> bool" where
  "no_write_after_shutdown fd [] \<longleftrightarrow> True"
| "no_write_after_shutdown fd (e # tr) \<longleftrightarrow>
     (e = SockShutdownWr fd \<longrightarrow> (\<forall>e' \<in> set tr. \<not> writes_to fd e')) \<and> no_write_after_shutdown fd tr"

lemma no_write_after_shutdown_append [simp]:
  "no_write_after_shutdown fd (tr @ tr') \<longleftrightarrow>
     no_write_after_shutdown fd tr \<and> no_write_after_shutdown fd tr' \<and>
     (SockShutdownWr fd \<in> set tr \<longrightarrow> (\<forall>e' \<in> set tr'. \<not> writes_to fd e'))"
  by (induction tr) auto

subsection \<open>What is relied on\<close>

text \<open>
  \<^verbatim>\<open>epoll_ctl(2)\<close>: adding a descriptor fails with EEXIST only when it is registered,
  changing or deleting fails with ENOENT only when it is not. (The resource errors ENOMEM
  and ENOSPC are excluded.)
\<close>

definition ctl_valid :: "sysevent list \<Rightarrow> ctl_op \<Rightarrow> int \<Rightarrow> bool" where
  "ctl_valid tr op fd \<longleftrightarrow>
     (case op of CTL_ADD \<Rightarrow> interest tr fd = None | _ \<Rightarrow> interest tr fd \<noteq> None)"

definition ctl_sound :: "kernel \<Rightarrow> bool" where
  "ctl_sound K \<longleftrightarrow> (\<forall>tr op fd ev. ctl_valid tr op fd \<longrightarrow> k_epoll_ctl K tr op fd ev)"

text \<open>\<^verbatim>\<open>write(2)\<close> accepts at most the bytes offered, \<^verbatim>\<open>readv(2)\<close> delivers at most the capacity.\<close>

definition write_sound :: "kernel \<Rightarrow> bool" where
  "write_sound K \<longleftrightarrow> (\<forall>tr fd d n. k_write K tr fd d = WriteDone n \<longrightarrow> n \<le> length d)"

definition read_sound :: "kernel \<Rightarrow> bool" where
  "read_sound K \<longleftrightarrow> (\<forall>tr fd c got. k_readv K tr fd c = ReadGot got \<longrightarrow> length got \<le> c)"

text \<open>A kernel that meets all three, used to show that the assumptions can hold.\<close>

definition ideal_kernel :: kernel where
  "ideal_kernel =
     \<lparr>k_epoll_ctl = (\<lambda>tr op fd ev. ctl_valid tr op fd),
      k_write = (\<lambda>tr fd d. WriteDone (length d)),
      k_readv = (\<lambda>tr fd c. ReadGot [])\<rparr>"

lemma ideal_kernel_sound [simp]:
  "ctl_sound ideal_kernel" "write_sound ideal_kernel" "read_sound ideal_kernel"
  by (simp_all add: ideal_kernel_def ctl_sound_def write_sound_def read_sound_def)

end
