(* ===== verification/Poller.thy ===== *)
theory Poller
  imports Kernel
begin

text \<open>
  The poller (\<^verbatim>\<open>src/Poller.h\<close>, \<^verbatim>\<open>Poller.cpp\<close>, \<^verbatim>\<open>DefaultPoller.cpp\<close>, \<^verbatim>\<open>EpollPoller.cpp\<close>) and
  the channel operations that go through it. Channels are shared between their owner,
  the poller's map and the kernel (\<^verbatim>\<open>event.data.ptr\<close>), so they live in a heap of addresses;
  a pointer whose cell is empty is dangling. The state is an extensible record: the event
  loop extends it with its own fields.

  What is shown: the registration state of every channel, the map and the kernel's
  interest list stay consistent under every operation, so that \<open>epoll_ctl\<close> is only
  called where it cannot fail, and every pointer a poll returns is alive.
\<close>

record 'f reactor =
  channels :: "int \<Rightarrow> nat option"
  eventListSize :: nat
  heap :: "nat \<Rightarrow> 'f channel option"
  trace :: "sysevent list"

definition kNew :: int where "kNew = - 1"
definition kAdded :: int where "kAdded = 1"
definition kDeleted :: int where "kDeleted = 2"

lemmas index_defs = kNew_def kAdded_def kDeleted_def

definition kInitEventListSize :: nat where
  "kInitEventListSize = 16"

text \<open>
  The constructor: \<^verbatim>\<open>epoll_create1\<close> failing is fatal. \<open>newDefaultPoller\<close> returns a null
  pointer when \<^verbatim>\<open>MUDUO_USE_POLL\<close> is set.
\<close>

definition EpollPoller_ctor :: "int \<Rightarrow> sysevent list \<Rightarrow> 'f reactor res" where
  "EpollPoller_ctor epollfd tr =
     (if epollfd < 0 then Inl ExitProcess
      else Inr \<lparr>channels = (\<lambda>_. None), eventListSize = kInitEventListSize, heap = (\<lambda>_. None),
                trace = tr\<rparr>)"

definition newDefaultPoller :: "bool \<Rightarrow> int \<Rightarrow> 'f reactor option res" where
  "newDefaultPoller use_poll epollfd =
     (if use_poll then Inr None
      else rbind (EpollPoller_ctor epollfd []) (\<lambda>p. Inr (Some p)))"

definition hasChannel :: "nat \<Rightarrow> ('f, 'z) reactor_scheme \<Rightarrow> bool res" where
  "hasChannel c s =
     (case heap s c of
        None \<Rightarrow> Inl UseAfterFree
      | Some ch \<Rightarrow> Inr (channels s (ch_fd ch) = Some c))"

definition set_index :: "nat \<Rightarrow> int \<Rightarrow> ('f, 'z) reactor_scheme \<Rightarrow> ('f, 'z) reactor_scheme res" where
  "set_index c i s =
     (case heap s c of
        None \<Rightarrow> Inl UseAfterFree
      | Some ch \<Rightarrow> Inr (s\<lparr>heap := (heap s)(c \<mapsto> ch\<lparr>ch_index := i\<rparr>)\<rparr>))"

text \<open>\<^verbatim>\<open>EpollPoller::update\<close>: one \<^verbatim>\<open>epoll_ctl\<close>; a failed add or change is fatal.\<close>

definition epoll_update :: "kernel \<Rightarrow> ctl_op \<Rightarrow> nat \<Rightarrow> ('f, 'z) reactor_scheme \<Rightarrow> ('f, 'z) reactor_scheme res" where
  "epoll_update K operation c s =
     (case heap s c of
        None \<Rightarrow> Inl UseAfterFree
      | Some ch \<Rightarrow>
          let fd = ch_fd ch;
              ok = k_epoll_ctl K (trace s) operation fd (ch_events ch);
              s' = s\<lparr>trace := trace s @ [EpollCtl operation fd (ch_events ch) c ok]\<rparr>
          in if \<not> ok \<and> operation \<noteq> CTL_DEL then Inl ExitProcess else Inr s')"

definition updateChannel :: "kernel \<Rightarrow> nat \<Rightarrow> ('f, 'z) reactor_scheme \<Rightarrow> ('f, 'z) reactor_scheme res" where
  "updateChannel K c s =
     (case heap s c of
        None \<Rightarrow> Inl UseAfterFree
      | Some ch \<Rightarrow>
          let index = ch_index ch
          in if index = kNew \<or> index = kDeleted then
               let s1 = (if index = kNew then s\<lparr>channels := (channels s)(ch_fd ch \<mapsto> c)\<rparr> else s)
               in rbind (set_index c kAdded s1) (epoll_update K CTL_ADD c)
             else if isNoneEvent ch then
               rbind (epoll_update K CTL_DEL c s) (set_index c kDeleted)
             else epoll_update K CTL_MOD c s)"

definition removeChannel :: "kernel \<Rightarrow> nat \<Rightarrow> ('f, 'z) reactor_scheme \<Rightarrow> ('f, 'z) reactor_scheme res" where
  "removeChannel K c s =
     (case heap s c of
        None \<Rightarrow> Inl UseAfterFree
      | Some ch \<Rightarrow>
          let s1 = s\<lparr>channels := (channels s)(ch_fd ch := None)\<rparr>
          in rbind (if ch_index ch = kAdded then epoll_update K CTL_DEL c s1 else Inr s1)
               (set_index c kNew))"

text \<open>
  \<open>poll\<close>. The answer of \<^verbatim>\<open>epoll_wait\<close> is an error number or the list of pointers with
  their events. The vector of events doubles when it was filled.
\<close>

datatype wait_ret = WaitErr nat | WaitEvents "(nat \<times> events) list"

fun fillActivateChannels ::
  "(nat \<times> events) list \<Rightarrow> nat list \<Rightarrow> ('f, 'z) reactor_scheme \<Rightarrow> (nat list \<times> ('f, 'z) reactor_scheme) res" where
  "fillActivateChannels [] active s = Inr (active, s)"
| "fillActivateChannels ((c, ev) # evs) active s =
     (case heap s c of
        None \<Rightarrow> Inl UseAfterFree
      | Some ch \<Rightarrow>
          fillActivateChannels evs (active @ [c])
            (s\<lparr>heap := (heap s)(c \<mapsto> ch\<lparr>ch_revents := ev\<rparr>)\<rparr>))"

definition poll ::
  "wait_ret \<Rightarrow> nat list \<Rightarrow> ('f, 'z) reactor_scheme \<Rightarrow> (nat list \<times> ('f, 'z) reactor_scheme) res" where
  "poll wr active s =
     (case wr of
        WaitErr e \<Rightarrow> Inr (active, s)
      | WaitEvents evs \<Rightarrow>
          if length evs > 0 then
            rbind (fillActivateChannels evs active s) (\<lambda>(a, s').
              Inr (a, if length evs = eventListSize s'
                      then s'\<lparr>eventListSize := eventListSize s' * 2\<rparr> else s'))
          else Inr (active, s))"

text \<open>
  \<^verbatim>\<open>EventLoop::updateChannel\<close>, \<open>removeChannel\<close>, \<open>hasChannel\<close> pass through to the poller;
  \<^verbatim>\<open>Channel::update\<close> and \<^verbatim>\<open>Channel::remove\<close> call them with \<^verbatim>\<open>this\<close>.
\<close>

definition EventLoop_updateChannel :: "kernel \<Rightarrow> nat \<Rightarrow> ('f, 'z) reactor_scheme \<Rightarrow> ('f, 'z) reactor_scheme res" where
  [simp]: "EventLoop_updateChannel K c s = updateChannel K c s"

definition Channel_update :: "kernel \<Rightarrow> nat \<Rightarrow> ('f, 'z) reactor_scheme \<Rightarrow> ('f, 'z) reactor_scheme res" where
  "Channel_update K c s = EventLoop_updateChannel K c s"

definition EventLoop_removeChannel :: "kernel \<Rightarrow> nat \<Rightarrow> ('f, 'z) reactor_scheme \<Rightarrow> ('f, 'z) reactor_scheme res" where
  [simp]: "EventLoop_removeChannel K c s = removeChannel K c s"

definition EventLoop_hasChannel :: "nat \<Rightarrow> ('f, 'z) reactor_scheme \<Rightarrow> bool res" where
  [simp]: "EventLoop_hasChannel c s = hasChannel c s"

definition Channel_remove :: "kernel \<Rightarrow> nat \<Rightarrow> ('f, 'z) reactor_scheme \<Rightarrow> ('f, 'z) reactor_scheme res" where
  "Channel_remove K c s = EventLoop_removeChannel K c s"

definition Channel_set ::
  "('f channel \<Rightarrow> 'f channel) \<Rightarrow> kernel \<Rightarrow> nat \<Rightarrow> ('f, 'z) reactor_scheme \<Rightarrow> ('f, 'z) reactor_scheme res" where
  "Channel_set g K c s =
     (case heap s c of
        None \<Rightarrow> Inl UseAfterFree
      | Some ch \<Rightarrow> Channel_update K c (s\<lparr>heap := (heap s)(c \<mapsto> g ch)\<rparr>))"

definition enableReading :: "kernel \<Rightarrow> nat \<Rightarrow> ('f, 'z) reactor_scheme \<Rightarrow> ('f, 'z) reactor_scheme res" where
  "enableReading = Channel_set add_reading"

definition disableReading :: "kernel \<Rightarrow> nat \<Rightarrow> ('f, 'z) reactor_scheme \<Rightarrow> ('f, 'z) reactor_scheme res" where
  "disableReading = Channel_set del_reading"

definition enableWriting :: "kernel \<Rightarrow> nat \<Rightarrow> ('f, 'z) reactor_scheme \<Rightarrow> ('f, 'z) reactor_scheme res" where
  "enableWriting = Channel_set add_writing"

definition disableWriting :: "kernel \<Rightarrow> nat \<Rightarrow> ('f, 'z) reactor_scheme \<Rightarrow> ('f, 'z) reactor_scheme res" where
  "disableWriting = Channel_set del_writing"

definition disableAll :: "kernel \<Rightarrow> nat \<Rightarrow> ('f, 'z) reactor_scheme \<Rightarrow> ('f, 'z) reactor_scheme res" where
  "disableAll = Channel_set del_all"

text \<open>The owner creating and destroying its channel object.\<close>

definition new_channel :: "nat \<Rightarrow> 'f channel \<Rightarrow> ('f, 'z) reactor_scheme \<Rightarrow> ('f, 'z) reactor_scheme" where
  "new_channel c ch s = s\<lparr>heap := (heap s)(c \<mapsto> ch)\<rparr>"

definition delete_channel :: "nat \<Rightarrow> ('f, 'z) reactor_scheme \<Rightarrow> ('f, 'z) reactor_scheme" where
  "delete_channel c s = s\<lparr>heap := (heap s)(c := None)\<rparr>"

text \<open>Recording a system call, and following a channel pointer.\<close>

definition log_sys :: "sysevent \<Rightarrow> ('f, 'z) reactor_scheme \<Rightarrow> ('f, 'z) reactor_scheme" where
  "log_sys e s = s\<lparr>trace := trace s @ [e]\<rparr>"

definition with_channel ::
  "nat \<Rightarrow> ('f, 'z) reactor_scheme \<Rightarrow> ('f channel \<Rightarrow> 'b res) \<Rightarrow> 'b res" where
  "with_channel c s k = (case heap s c of None \<Rightarrow> Inl UseAfterFree | Some ch \<Rightarrow> k ch)"

subsection \<open>Consistency of map, channels and interest list\<close>

definition channel_ok :: "('f, 'z) reactor_scheme \<Rightarrow> nat \<Rightarrow> 'f channel \<Rightarrow> bool" where
  "channel_ok s c ch \<longleftrightarrow>
     ch_index ch \<in> {kNew, kAdded, kDeleted} \<and>
     (ch_index ch \<noteq> kNew \<longrightarrow> channels s (ch_fd ch) = Some c) \<and>
     (ch_index ch = kAdded \<longrightarrow> interest (trace s) (ch_fd ch) \<noteq> None) \<and>
     (ch_index ch = kDeleted \<longrightarrow> interest (trace s) (ch_fd ch) = None)"

definition poller_inv :: "('f, 'z) reactor_scheme \<Rightarrow> bool" where
  "poller_inv s \<longleftrightarrow>
     (\<forall>c ch. heap s c = Some ch \<longrightarrow> channel_ok s c ch) \<and>
     (\<forall>fd c. channels s fd = Some c \<longrightarrow>
        (\<exists>ch. heap s c = Some ch \<and> ch_fd ch = fd \<and> ch_index ch \<noteq> kNew)) \<and>
     (\<forall>fd ev c. interest (trace s) fd = Some (ev, c) \<longrightarrow> channels s fd = Some c)"

text \<open>The kernel watches exactly the events the channel asks for.\<close>

definition in_sync :: "('f, 'z) reactor_scheme \<Rightarrow> nat \<Rightarrow> bool" where
  "in_sync s c \<longleftrightarrow>
     (\<forall>ch. heap s c = Some ch \<and> ch_index ch = kAdded \<longrightarrow>
        interest (trace s) (ch_fd ch) = Some (ch_events ch, c))"

text \<open>A channel may be registered: its descriptor is not watched through another channel.\<close>

definition can_register :: "('f, 'z) reactor_scheme \<Rightarrow> nat \<Rightarrow> bool" where
  "can_register s c \<longleftrightarrow>
     (\<exists>ch. heap s c = Some ch \<and> (ch_index ch = kNew \<longrightarrow> channels s (ch_fd ch) = None))"

lemma poller_invD:
  assumes "poller_inv s" "heap s c = Some ch"
  shows "ch_index ch \<in> {kNew, kAdded, kDeleted}"
    and "ch_index ch \<noteq> kNew \<Longrightarrow> channels s (ch_fd ch) = Some c"
    and "ch_index ch = kAdded \<Longrightarrow> interest (trace s) (ch_fd ch) \<noteq> None"
    and "ch_index ch = kDeleted \<Longrightarrow> interest (trace s) (ch_fd ch) = None"
  using assms by (auto simp: poller_inv_def channel_ok_def)

lemma poller_inv_map:
  assumes "poller_inv s" "channels s fd = Some c" "heap s c = Some ch"
  shows "ch_fd ch = fd" "ch_index ch \<noteq> kNew"
proof -
  obtain ch' where "heap s c = Some ch'" "ch_fd ch' = fd" "ch_index ch' \<noteq> kNew"
    using assms(1,2) unfolding poller_inv_def by blast
  with assms(3) show "ch_fd ch = fd" "ch_index ch \<noteq> kNew" by simp_all
qed

lemma poller_inv_free:
  assumes "poller_inv s" "channels s fd = None"
  shows "interest (trace s) fd = None"
  using assms by (cases "interest (trace s) fd") (auto simp: poller_inv_def)

lemma index_neq [simp]: "kNew \<noteq> kAdded" "kAdded \<noteq> kNew" "kNew \<noteq> kDeleted" "kDeleted \<noteq> kNew"
  "kAdded \<noteq> kDeleted" "kDeleted \<noteq> kAdded"
  by (simp_all add: index_defs)

text \<open>The call \<open>updateChannel\<close> makes, and the registration state it leaves.\<close>

definition update_op :: "'f channel \<Rightarrow> ctl_op" where
  "update_op ch =
     (if ch_index ch \<noteq> kAdded then CTL_ADD else if isNoneEvent ch then CTL_DEL else CTL_MOD)"

lemma update_op_valid:
  assumes "poller_inv s" "heap s c = Some ch"
    and "ch_index ch = kNew \<Longrightarrow> channels s (ch_fd ch) = None"
  shows "ctl_valid (trace s) (update_op ch) (ch_fd ch)"
  using poller_invD [OF assms(1,2)] poller_inv_free [OF assms(1), of "ch_fd ch"] assms(3)
  by (auto simp: ctl_valid_def update_op_def)

lemma updateChannel_effect:
  assumes K: "ctl_sound K" and inv: "poller_inv s" and ch: "heap s c = Some ch"
    and new: "ch_index ch = kNew \<Longrightarrow> channels s (ch_fd ch) = None"
  shows "updateChannel K c s = Inr (s\<lparr>channels := (channels s)(ch_fd ch \<mapsto> c),
      heap := (heap s)(c \<mapsto> ch\<lparr>ch_index := if update_op ch = CTL_DEL then kDeleted else kAdded\<rparr>),
      trace := trace s @ [EpollCtl (update_op ch) (ch_fd ch) (ch_events ch) c True]\<rparr>)"
proof -
  have ok: "k_epoll_ctl K (trace s) (update_op ch) (ch_fd ch) (ch_events ch)"
    using K update_op_valid [OF inv ch new] by (simp add: ctl_sound_def)
  note d = poller_invD [OF inv ch]
  consider "ch_index ch = kNew" | "ch_index ch = kDeleted"
    | "ch_index ch = kAdded" "isNoneEvent ch" | "ch_index ch = kAdded" "\<not> isNoneEvent ch"
    using d(1) by blast
  then show ?thesis
    using ok d(2) ch
    by cases (simp_all add: updateChannel_def epoll_update_def set_index_def update_op_def Let_def
        fun_upd_idem)
qed

lemma removeChannel_effect:
  assumes K: "ctl_sound K" and inv: "poller_inv s" and ch: "heap s c = Some ch"
  shows "removeChannel K c s = Inr (s\<lparr>channels := (channels s)(ch_fd ch := None),
      heap := (heap s)(c \<mapsto> ch\<lparr>ch_index := kNew\<rparr>),
      trace := trace s @
        (if ch_index ch = kAdded then [EpollCtl CTL_DEL (ch_fd ch) (ch_events ch) c True] else [])\<rparr>)"
proof -
  have "k_epoll_ctl K (trace s) CTL_DEL (ch_fd ch) (ch_events ch)" if "ch_index ch = kAdded"
    using K poller_invD(3) [OF inv ch that] by (simp add: ctl_sound_def ctl_valid_def)
  then show ?thesis
    using ch by (simp add: removeChannel_def epoll_update_def set_index_def Let_def)
qed

text \<open>The state after an update, after a removal, and after the owner's changes.\<close>

lemma poller_inv_update:
  assumes inv: "poller_inv s" and ch: "heap s c = Some ch"
    and new: "ch_index ch = kNew \<Longrightarrow> channels s (ch_fd ch) = None"
  defines "s' \<equiv> s\<lparr>channels := (channels s)(ch_fd ch \<mapsto> c),
      heap := (heap s)(c \<mapsto> ch\<lparr>ch_index := if update_op ch = CTL_DEL then kDeleted else kAdded\<rparr>),
      trace := trace s @ [EpollCtl (update_op ch) (ch_fd ch) (ch_events ch) c True]\<rparr>"
  shows "poller_inv s'" "in_sync s' c" "c' \<noteq> c \<Longrightarrow> in_sync s c' \<Longrightarrow> in_sync s' c'"
proof -
  have other: "ch_fd ch' \<noteq> ch_fd ch" if "heap s c' = Some ch'" "c' \<noteq> c" "ch_index ch' \<noteq> kNew" for c' ch'
    using poller_invD(2) [OF inv that(1,3)] poller_invD(2) [OF inv ch] new that(2) by fastforce
  have mine: "fd = ch_fd ch" if "channels s fd = Some c" for fd
    using poller_inv_map(1) [OF inv that ch] by simp
  show "poller_inv s'"
    using inv ch other mine unfolding poller_inv_def channel_ok_def
    by (auto simp: s'_def update_op_def split: ctl_op.splits)
  show "in_sync s' c"
    by (auto simp: in_sync_def s'_def update_op_def split: ctl_op.splits)
  show "in_sync s' c'" if "c' \<noteq> c" "in_sync s c'"
    using that other by (auto simp: in_sync_def s'_def split: ctl_op.splits)
qed

lemma poller_inv_remove:
  assumes inv: "poller_inv s" and ch: "heap s c = Some ch"
    and new: "ch_index ch = kNew \<Longrightarrow> channels s (ch_fd ch) = None"
  defines "s' \<equiv> s\<lparr>channels := (channels s)(ch_fd ch := None),
      heap := (heap s)(c \<mapsto> ch\<lparr>ch_index := kNew\<rparr>),
      trace := trace s @
        (if ch_index ch = kAdded then [EpollCtl CTL_DEL (ch_fd ch) (ch_events ch) c True] else [])\<rparr>"
  shows "poller_inv s'" "in_sync s' c" "c' \<noteq> c \<Longrightarrow> in_sync s c' \<Longrightarrow> in_sync s' c'"
    and "channels s' fd \<noteq> Some c" "interest (trace s') fd \<noteq> Some (ev, c)"
proof -
  have other: "ch_fd ch' \<noteq> ch_fd ch" if "heap s c' = Some ch'" "c' \<noteq> c" "ch_index ch' \<noteq> kNew" for c' ch'
    using poller_invD(2) [OF inv that(1,3)] poller_invD(2) [OF inv ch] new that(2) by fastforce
  have mine: "fd = ch_fd ch" if "channels s fd = Some c" for fd
    using poller_inv_map(1) [OF inv that ch] by simp
  have gone: "interest (trace s') (ch_fd ch) = None"
    using poller_invD(1,4) [OF inv ch] poller_inv_free [OF inv new] by (auto simp: s'_def)
  have rest: "fd \<noteq> ch_fd ch \<Longrightarrow> interest (trace s') fd = interest (trace s) fd" for fd
    by (simp add: s'_def)
  show "poller_inv s'"
    using inv ch other mine gone rest unfolding poller_inv_def channel_ok_def
    by (auto simp: s'_def split: if_splits)
  show "in_sync s' c" by (simp add: in_sync_def s'_def)
  show "in_sync s' c'" if "c' \<noteq> c" "in_sync s c'"
    using that other rest by (auto simp: in_sync_def s'_def)
  show no: "channels s' fd \<noteq> Some c" for fd using mine by (auto simp: s'_def)
  show "interest (trace s') fd \<noteq> Some (ev, c)"
    using \<open>poller_inv s'\<close> no [of fd] by (auto simp: poller_inv_def)
qed

lemma poller_inv_modify:
  assumes "poller_inv s" "heap s c = Some ch" "ch_fd ch' = ch_fd ch" "ch_index ch' = ch_index ch"
  shows "poller_inv (s\<lparr>heap := (heap s)(c \<mapsto> ch')\<rparr>)"
proof -
  have "ch_fd ch = fd" "ch_index ch \<noteq> kNew" if "channels s fd = Some c" for fd
    using poller_inv_map [OF assms(1) that assms(2)] by simp_all
  then show ?thesis
    using assms unfolding poller_inv_def channel_ok_def by auto
qed

lemma poller_inv_new:
  assumes "poller_inv s" "heap s c = None" "ch_index ch = kNew"
  shows "poller_inv (new_channel c ch s)"
proof -
  have "channels s fd \<noteq> Some c" for fd
    using assms(1,2) unfolding poller_inv_def by (metis option.distinct(1))
  then show ?thesis
    using assms unfolding poller_inv_def channel_ok_def new_channel_def by auto
qed

lemma poller_inv_delete:
  assumes "poller_inv s" "heap s c = Some ch" "ch_index ch = kNew"
  shows "poller_inv (delete_channel c s)"
proof -
  have "channels s fd \<noteq> Some c" for fd
    using poller_inv_map(2) [OF assms(1) _ assms(2)] assms(3) by blast
  then show ?thesis
    using assms(1) unfolding poller_inv_def channel_ok_def delete_channel_def by auto
qed

subsection \<open>The five event setters\<close>

definition event_setter :: "('f channel \<Rightarrow> 'f channel) \<Rightarrow> bool" where
  "event_setter g \<longleftrightarrow> g \<in> {add_reading, del_reading, add_writing, del_writing, del_all}"

lemma event_setter_frame [simp]:
  assumes "event_setter g"
  shows "ch_fd (g ch) = ch_fd ch" "ch_index (g ch) = ch_index ch" "ch_revents (g ch) = ch_revents ch"
    "ch_tied (g ch) = ch_tied ch"
  using assms by (auto simp: event_setter_def add_reading_def del_reading_def add_writing_def
      del_writing_def del_all_def)

lemma event_setters [simp]:
  "event_setter add_reading" "event_setter del_reading" "event_setter add_writing"
  "event_setter del_writing" "event_setter del_all"
  by (simp_all add: event_setter_def)

lemma Channel_set_effect:
  assumes K: "ctl_sound K" and inv: "poller_inv s" and ch: "heap s c = Some ch" and g: "event_setter g"
    and new: "ch_index ch = kNew \<Longrightarrow> channels s (ch_fd ch) = None"
  shows "Channel_set g K c s = Inr (s\<lparr>channels := (channels s)(ch_fd ch \<mapsto> c),
      heap := (heap s)(c \<mapsto> (g ch)\<lparr>ch_index := if update_op (g ch) = CTL_DEL then kDeleted else kAdded\<rparr>),
      trace := trace s @ [EpollCtl (update_op (g ch)) (ch_fd ch) (ch_events (g ch)) c True]\<rparr>)"
proof -
  let ?s = "s\<lparr>heap := (heap s)(c \<mapsto> g ch)\<rparr>"
  have "poller_inv ?s" using g by (intro poller_inv_modify [OF inv ch]) simp_all
  from updateChannel_effect [OF K this, of c "g ch"] g new show ?thesis
    by (simp add: Channel_set_def Channel_update_def ch)
qed

lemma Channel_set_inv:
  assumes inv: "poller_inv s" and ch: "heap s c = Some ch" and g: "event_setter g"
    and new: "ch_index ch = kNew \<Longrightarrow> channels s (ch_fd ch) = None"
  defines "s' \<equiv> s\<lparr>channels := (channels s)(ch_fd ch \<mapsto> c),
      heap := (heap s)(c \<mapsto> (g ch)\<lparr>ch_index := if update_op (g ch) = CTL_DEL then kDeleted else kAdded\<rparr>),
      trace := trace s @ [EpollCtl (update_op (g ch)) (ch_fd ch) (ch_events (g ch)) c True]\<rparr>"
  shows "poller_inv s'" "in_sync s' c" "c' \<noteq> c \<Longrightarrow> in_sync s c' \<Longrightarrow> in_sync s' c'"
proof -
  let ?s = "s\<lparr>heap := (heap s)(c \<mapsto> g ch)\<rparr>"
  have i: "poller_inv ?s" using g by (intro poller_inv_modify [OF inv ch]) simp_all
  note u = poller_inv_update [OF i, of c "g ch"]
  show "poller_inv s'" "in_sync s' c" using u(1,2) g new by (simp_all add: s'_def)
  show "in_sync s' c'" if "c' \<noteq> c" "in_sync s c'"
    using u(3) [of c'] g new that by (simp add: s'_def in_sync_def)
qed

subsection \<open>The interface the owners of channels use\<close>

text \<open>
  The contract behind \<^verbatim>\<open>Channel::enableWriting\<close> and its kin for the classes that own a
  channel: on a usable channel the setter returns, changes the mask of that channel, makes
  one \<open>epoll_ctl\<close> call and leaves the rest of the loop's state as it is.
\<close>

locale registry =
  fixes kernel_ok :: "kernel \<Rightarrow> bool"
    and inv :: "'s \<Rightarrow> bool"
    and usable :: "'s \<Rightarrow> nat \<Rightarrow> bool"
    and lookup :: "'s \<Rightarrow> nat \<Rightarrow> 'f channel option"
    and log :: "'s \<Rightarrow> sysevent list"
    and rest :: "'s \<Rightarrow> 'r"
    and set_ev :: "('f channel \<Rightarrow> 'f channel) \<Rightarrow> kernel \<Rightarrow> nat \<Rightarrow> 's \<Rightarrow> 's res"
  assumes usable_live: "usable s c \<Longrightarrow> \<exists>ch. lookup s c = Some ch"
    and set_returns: "kernel_ok K \<Longrightarrow> inv s \<Longrightarrow> usable s c \<Longrightarrow> event_setter g \<Longrightarrow>
      \<exists>s'. set_ev g K c s = Inr s' \<and> inv s' \<and> usable s' c"
    and set_mask: "kernel_ok K \<Longrightarrow> inv s \<Longrightarrow> usable s c \<Longrightarrow> event_setter g \<Longrightarrow>
      set_ev g K c s = Inr s' \<Longrightarrow> lookup s c = Some ch \<Longrightarrow>
      \<exists>ch'. lookup s' c = Some ch' \<and> ch_events ch' = ch_events (g ch) \<and> ch_fd ch' = ch_fd ch"
    and set_log: "kernel_ok K \<Longrightarrow> inv s \<Longrightarrow> usable s c \<Longrightarrow> event_setter g \<Longrightarrow>
      set_ev g K c s = Inr s' \<Longrightarrow> \<exists>op fd ev ok. log s' = log s @ [EpollCtl op fd ev c ok]"
    and set_rest: "kernel_ok K \<Longrightarrow> inv s \<Longrightarrow> usable s c \<Longrightarrow> event_setter g \<Longrightarrow>
      set_ev g K c s = Inr s' \<Longrightarrow> rest s' = rest s"
begin

lemma set_writing:
  assumes "kernel_ok K" "inv s" "usable s c" "event_setter g" "lookup s c = Some ch"
  obtains s' ch' op fd ev ok where "set_ev g K c s = Inr s'" "inv s'" "usable s' c" "lookup s' c = Some ch'"
    "isWriting ch' = isWriting (g ch)" "ch_fd ch' = ch_fd ch" "log s' = log s @ [EpollCtl op fd ev c ok]"
    "rest s' = rest s"
proof -
  obtain s' where s': "set_ev g K c s = Inr s'" "inv s'" "usable s' c"
    using set_returns [OF assms(1-4)] by blast
  obtain ch' where "lookup s' c = Some ch'" "ch_events ch' = ch_events (g ch)" "ch_fd ch' = ch_fd ch"
    using set_mask [OF assms(1-4) s'(1) assms(5)] by blast
  with s' set_log [OF assms(1-4) s'(1)] set_rest [OF assms(1-4) s'(1)] that show ?thesis
    by (auto simp: isWriting_def)
qed

end

lemma can_register_update [simp]:
  "can_register (s\<lparr>channels := m, heap := (heap s)(c \<mapsto> ch\<lparr>ch_index := if P then kDeleted else kAdded\<rparr>),
     trace := tr\<rparr>) c"
  by (simp add: can_register_def)

lemma sent_ctl [simp]: "sent fd [EpollCtl op fd' ev c ok] = []"
  by simp

lemma can_registerE:
  assumes "can_register s c"
  obtains ch where "heap s c = Some ch" "ch_index ch = kNew \<Longrightarrow> channels s (ch_fd ch) = None"
  using assms by (auto simp: can_register_def)

lemma Channel_set_returns:
  assumes "ctl_sound K" "poller_inv s" "can_register s c" "event_setter g"
  shows "\<exists>s'. Channel_set g K c s = Inr s' \<and> poller_inv s' \<and> can_register s' c"
proof (rule can_registerE [OF assms(3)])
  fix ch
  assume ch: "heap s c = Some ch" and new: "ch_index ch = kNew \<Longrightarrow> channels s (ch_fd ch) = None"
  show ?thesis
    using Channel_set_effect [OF assms(1,2) ch assms(4) new] Channel_set_inv(1) [OF assms(2) ch assms(4) new]
    by simp
qed

lemma Channel_set_result:
  assumes "ctl_sound K" "poller_inv s" "can_register s c" "event_setter g" "Channel_set g K c s = Inr s'"
  shows "\<exists>op fd ev ok. trace s' = trace s @ [EpollCtl op fd ev c ok]"
    and "reactor.more s' = reactor.more s"
    and "heap s c = Some ch \<Longrightarrow>
      \<exists>ch'. heap s' c = Some ch' \<and> ch_events ch' = ch_events (g ch) \<and> ch_fd ch' = ch_fd ch"
proof -
  obtain ch0 where ch: "heap s c = Some ch0" "ch_index ch0 = kNew \<longrightarrow> channels s (ch_fd ch0) = None"
    using assms(3) by (auto simp: can_register_def)
  then have new: "ch_index ch0 = kNew \<Longrightarrow> channels s (ch_fd ch0) = None" by blast
  note e = Channel_set_effect [OF assms(1,2) ch(1) assms(4) new]
  show "\<exists>op fd ev ok. trace s' = trace s @ [EpollCtl op fd ev c ok]" using e assms(5) by auto
  show "reactor.more s' = reactor.more s" using e assms(5) by auto
  show "\<exists>ch'. heap s' c = Some ch' \<and> ch_events ch' = ch_events (g ch) \<and> ch_fd ch' = ch_fd ch"
    if "heap s c = Some ch" using that ch(1) e assms(4,5) by auto
qed

interpretation reg: registry ctl_sound poller_inv can_register heap trace reactor.more Channel_set
  by unfold_locales
     (auto intro: Channel_set_returns Channel_set_result elim: can_registerE)

subsection \<open>Every run of the reactor\<close>

text \<open>
  The operations the library performs on channels, in any order: creating one, changing
  its events while its descriptor is not watched through another channel, removing it,
  destroying it once it is not registered, and polling, where the kernel returns pointers
  it was given.
\<close>

inductive reactor_run :: "kernel \<Rightarrow> 'f reactor \<Rightarrow> bool" for K where
  init: "EpollPoller_ctor epollfd [] = Inr s \<Longrightarrow> reactor_run K s"
| create: "reactor_run K s \<Longrightarrow> heap s c = None \<Longrightarrow> ch_index ch = kNew \<Longrightarrow>
    reactor_run K (new_channel c ch s)"
| set: "reactor_run K s \<Longrightarrow> can_register s c \<Longrightarrow> event_setter g \<Longrightarrow>
    Channel_set g K c s = Inr s' \<Longrightarrow> reactor_run K s'"
| remove: "reactor_run K s \<Longrightarrow> can_register s c \<Longrightarrow> Channel_remove K c s = Inr s' \<Longrightarrow> reactor_run K s'"
| destroy: "reactor_run K s \<Longrightarrow> heap s c = Some ch \<Longrightarrow> ch_index ch = kNew \<Longrightarrow>
    reactor_run K (delete_channel c s)"
| wait: "reactor_run K s \<Longrightarrow> \<forall>e \<in> set evs. \<exists>fd m. interest (trace s) fd = Some (m, fst e) \<Longrightarrow>
    poll (WaitEvents evs) [] s = Inr (active, s') \<Longrightarrow> reactor_run K s'"

lemma watched_live:
  "poller_inv s \<Longrightarrow> interest (trace s) fd = Some (m, c) \<Longrightarrow> \<exists>ch. heap s c = Some ch \<and> ch_fd ch = fd"
  unfolding poller_inv_def by blast

lemma fill_effect:
  assumes "poller_inv s" "\<forall>e \<in> set evs. \<exists>fd m. interest (trace s) fd = Some (m, fst e)"
  shows "\<exists>h. fillActivateChannels evs active s = Inr (active @ map fst evs, s\<lparr>heap := h\<rparr>) \<and>
    poller_inv (s\<lparr>heap := h\<rparr>) \<and> (\<forall>c. in_sync s c \<longrightarrow> in_sync (s\<lparr>heap := h\<rparr>) c) \<and>
    (\<forall>c. c \<notin> fst ` set evs \<longrightarrow> h c = heap s c)"
  using assms
proof (induction evs arbitrary: active s)
  case Nil
  then show ?case by (intro exI [of _ "heap s"]) simp
next
  case (Cons e evs)
  obtain c ev where e: "e = (c, ev)" by (cases e)
  obtain ch where ch: "heap s c = Some ch"
    using Cons.prems e watched_live by fastforce
  let ?s = "s\<lparr>heap := (heap s)(c \<mapsto> ch\<lparr>ch_revents := ev\<rparr>)\<rparr>"
  have inv: "poller_inv ?s" by (rule poller_inv_modify [OF Cons.prems(1) ch]) simp_all
  have sync: "in_sync s c' \<Longrightarrow> in_sync ?s c'" for c' using ch by (auto simp: in_sync_def)
  obtain h where "fillActivateChannels evs (active @ [c]) ?s = Inr ((active @ [c]) @ map fst evs, ?s\<lparr>heap := h\<rparr>)"
    "poller_inv (?s\<lparr>heap := h\<rparr>)" "\<forall>c. in_sync ?s c \<longrightarrow> in_sync (?s\<lparr>heap := h\<rparr>) c"
    "\<forall>c. c \<notin> fst ` set evs \<longrightarrow> h c = heap ?s c"
    using Cons.IH [OF inv, of "active @ [c]"] Cons.prems(2) by auto
  then show ?case
    using sync e ch by (intro exI [of _ h]) simp
qed

lemma poll_effect:
  assumes "poller_inv s" "\<forall>e \<in> set evs. \<exists>fd m. interest (trace s) fd = Some (m, fst e)"
  shows "\<exists>h n. poll (WaitEvents evs) active s = Inr (active @ map fst evs, s\<lparr>heap := h, eventListSize := n\<rparr>) \<and>
    n = (if evs \<noteq> [] \<and> length evs = eventListSize s then eventListSize s * 2 else eventListSize s) \<and>
    poller_inv (s\<lparr>heap := h, eventListSize := n\<rparr>) \<and>
    (\<forall>c. in_sync s c \<longrightarrow> in_sync (s\<lparr>heap := h, eventListSize := n\<rparr>) c)"
proof (cases "evs = []")
  case True
  with assms(1) show ?thesis
    by (intro exI [of _ "heap s"] exI [of _ "eventListSize s"]) (simp add: poll_def)
next
  case False
  obtain h where h: "fillActivateChannels evs active s = Inr (active @ map fst evs, s\<lparr>heap := h\<rparr>)"
    "poller_inv (s\<lparr>heap := h\<rparr>)" "\<forall>c. in_sync s c \<longrightarrow> in_sync (s\<lparr>heap := h\<rparr>) c"
    using fill_effect [OF assms, of active] by blast
  have "poller_inv (s\<lparr>heap := h, eventListSize := n\<rparr>) = poller_inv (s\<lparr>heap := h\<rparr>)"
    "in_sync (s\<lparr>heap := h, eventListSize := n\<rparr>) c = in_sync (s\<lparr>heap := h\<rparr>) c" for n c
    by (simp_all add: poller_inv_def channel_ok_def in_sync_def)
  with h False show ?thesis
    by (intro exI [of _ h]
        exI [of _ "if length evs = eventListSize s then eventListSize s * 2 else eventListSize s"])
       (simp add: poll_def)
qed

lemma removeChannel_inv:
  assumes "ctl_sound K" "poller_inv s" "can_register s c"
  shows "\<exists>s'. removeChannel K c s = Inr s' \<and> poller_inv s' \<and> in_sync s' c \<and>
    (\<forall>c'. c' \<noteq> c \<longrightarrow> in_sync s c' \<longrightarrow> in_sync s' c') \<and>
    (\<forall>fd ev. channels s' fd \<noteq> Some c \<and> interest (trace s') fd \<noteq> Some (ev, c)) \<and>
    (\<exists>ch. heap s' c = Some ch \<and> ch_index ch = kNew)"
proof (rule can_registerE [OF assms(3)])
  fix ch
  assume ch: "heap s c = Some ch" and new: "ch_index ch = kNew \<Longrightarrow> channels s (ch_fd ch) = None"
  note r = poller_inv_remove [OF assms(2) ch new]
  show ?thesis
    unfolding removeChannel_effect [OF assms(1,2) ch] using r by simp
qed

lemma reactor_run_inv:
  assumes "reactor_run K s" "ctl_sound K"
  shows "poller_inv s \<and> (\<forall>c. in_sync s c)"
  using assms
proof (induction rule: reactor_run.induct)
  case (init epollfd s)
  then show ?case
    by (auto simp: EpollPoller_ctor_def poller_inv_def in_sync_def split: if_splits)
next
  case (create s c ch)
  then have "poller_inv (new_channel c ch s)" by (simp add: poller_inv_new)
  with create show ?case by (auto simp: in_sync_def new_channel_def)
next
  case (set s c g s')
  then obtain ch where ch: "heap s c = Some ch" "ch_index ch = kNew \<longrightarrow> channels s (ch_fd ch) = None"
    by (auto simp: can_register_def)
  then have new: "ch_index ch = kNew \<Longrightarrow> channels s (ch_fd ch) = None" by blast
  have inv: "poller_inv s" "\<forall>c. in_sync s c" using set by simp_all
  note i = Channel_set_inv [OF inv(1) ch(1) set.hyps(3) new]
  have "in_sync s' c'" for c'
    using i(2) i(3) [of c'] inv(2) set.hyps(4) Channel_set_effect [OF set.prems inv(1) ch(1) set.hyps(3) new]
    by (cases "c' = c") simp_all
  with i(1) set.hyps(4) Channel_set_effect [OF set.prems inv(1) ch(1) set.hyps(3) new]
  show ?case by simp
next
  case (remove s c s')
  then show ?case
    using removeChannel_inv [of K s c] unfolding Channel_remove_def EventLoop_removeChannel_def by (metis Inr_inject)
next
  case (destroy s c ch)
  then have "poller_inv (delete_channel c s)" by (simp add: poller_inv_delete)
  with destroy show ?case by (auto simp: in_sync_def delete_channel_def)
next
  case (wait s evs active s')
  then show ?case using poll_effect [of s evs "[]"] by auto
qed

subsection \<open>Properties\<close>

text \<open>
  C6: in every run of the reactor the poller's map, the registration state of each channel
  and the kernel's interest list agree, and for each registered channel the kernel
  watches exactly the events the channel asks for, through a pointer to that channel.
\<close>

theorem reactor_consistent:
  assumes "ctl_sound K" "reactor_run K s" "heap s c = Some ch"
  shows "(ch_index ch = kAdded \<longrightarrow> interest (trace s) (ch_fd ch) = Some (ch_events ch, c)) \<and>
    (ch_index ch = kDeleted \<longrightarrow> interest (trace s) (ch_fd ch) = None) \<and>
    (ch_index ch \<noteq> kNew \<longleftrightarrow> channels s (ch_fd ch) = Some c) \<and>
    (hasChannel c s = Inr (ch_index ch \<noteq> kNew))"
proof -
  have inv: "poller_inv s" "in_sync s c" using reactor_run_inv [OF assms(2,1)] by simp_all
  have "ch_index ch \<noteq> kNew \<longleftrightarrow> channels s (ch_fd ch) = Some c"
    using poller_invD(2) [OF inv(1) assms(3)] poller_inv_map(2) [OF inv(1) _ assms(3)] by blast
  then show ?thesis
    using inv(2) poller_invD(4) [OF inv(1) assms(3)] assms(3)
    by (simp add: in_sync_def hasChannel_def)
qed

text \<open>A run with one registered channel, for the witnesses.\<close>

definition demo_reactor :: "nat reactor" where
  "demo_reactor =
     \<lparr>channels = (\<lambda>_. None)(5 \<mapsto> 0), eventListSize = 16,
      heap = (\<lambda>_. None)(0 \<mapsto> (add_reading (Channel_ctor 5))\<lparr>ch_index := kAdded\<rparr>),
      trace = [EpollCtl CTL_ADD 5 1 0 True]\<rparr>"

lemma demo_reactor_run: "reactor_run ideal_kernel demo_reactor"
proof -
  let ?s0 = "\<lparr>channels = (\<lambda>_. None), eventListSize = kInitEventListSize, heap = (\<lambda>_. None),
      trace = []\<rparr> :: nat reactor"
  let ?s1 = "new_channel 0 (Channel_ctor 5) ?s0"
  have 0: "reactor_run ideal_kernel ?s0"
    by (rule reactor_run.init [of 3]) (simp add: EpollPoller_ctor_def)
  have 1: "reactor_run ideal_kernel ?s1"
    by (rule reactor_run.create [OF 0]) (simp_all add: Channel_ctor_def kNew_def)
  have "Channel_set add_reading ideal_kernel 0 ?s1 = Inr demo_reactor"
    by (simp add: Channel_set_def Channel_update_def updateChannel_def set_index_def epoll_update_def
        new_channel_def Channel_ctor_def add_reading_def index_defs ideal_kernel_def ctl_valid_def
        demo_reactor_def kInitEventListSize_def kReadEvent_eq EPOLLIN_def)
  then show ?thesis
    by (rule reactor_run.set [OF 1, rotated 2])
       (simp_all add: can_register_def new_channel_def)
qed

theorem reactor_consistent_witness:
  "interest (trace demo_reactor) 5 = Some (1, 0) \<and> hasChannel 0 demo_reactor = Inr True"
  using reactor_consistent [OF ideal_kernel_sound(1) demo_reactor_run,
      of 0 "(add_reading (Channel_ctor 5))\<lparr>ch_index := kAdded\<rparr>"]
  by (simp add: demo_reactor_def add_reading_def Channel_ctor_def kReadEvent_eq EPOLLIN_def)

text \<open>
  C16: in every run, changing the events of a channel (or removing it) whose descriptor is
  not watched through another channel never reaches the fatal branch of \<open>epoll_ctl\<close> and
  never touches a dead channel; and after a removal neither the map nor the kernel holds
  a pointer to the channel, so that it may be destroyed.
\<close>

theorem reactor_never_fatal:
  assumes "ctl_sound K" "reactor_run K s" "can_register s c" "event_setter g"
  shows "(\<exists>s'. Channel_set g K c s = Inr s' \<and> reactor_run K s') \<and>
    (\<exists>s'. Channel_remove K c s = Inr s' \<and> reactor_run K s' \<and>
       (\<forall>fd ev. channels s' fd \<noteq> Some c \<and> interest (trace s') fd \<noteq> Some (ev, c)) \<and>
       reactor_run K (delete_channel c s'))"
proof -
  have inv: "poller_inv s" using reactor_run_inv [OF assms(2,1)] by simp
  obtain s1 where s1: "Channel_set g K c s = Inr s1"
    using Channel_set_returns [OF assms(1) inv assms(3,4)] by blast
  obtain s2 ch where s2: "Channel_remove K c s = Inr s2" "heap s2 c = Some ch" "ch_index ch = kNew"
    "\<forall>fd ev. channels s2 fd \<noteq> Some c \<and> interest (trace s2) fd \<noteq> Some (ev, c)"
    using removeChannel_inv [OF assms(1) inv assms(3)] by (auto simp: Channel_remove_def)
  have "reactor_run K s1" by (rule reactor_run.set [OF assms(2-4) s1])
  moreover have r: "reactor_run K s2" by (rule reactor_run.remove [OF assms(2,3) s2(1)])
  moreover have "reactor_run K (delete_channel c s2)" by (rule reactor_run.destroy [OF r s2(2,3)])
  ultimately show ?thesis using s1 s2(1,4) by blast
qed

theorem reactor_never_fatal_witness:
  "\<exists>s'. Channel_set del_all ideal_kernel 0 demo_reactor = Inr s' \<and> reactor_run ideal_kernel s'"
proof -
  have "can_register demo_reactor 0" by (simp add: can_register_def demo_reactor_def)
  then show ?thesis
    using reactor_never_fatal [OF ideal_kernel_sound(1) demo_reactor_run, of 0 del_all] by simp
qed

text \<open>
  When the kernel reports only pointers it was given, \<open>poll\<close> in any reachable state
  finds every reported channel alive, returns them in order with their events recorded,
  and doubles the event array exactly when it was filled.
\<close>

theorem poll_live:
  assumes "ctl_sound K" "reactor_run K s"
    and "\<forall>e \<in> set evs. \<exists>fd m. interest (trace s) fd = Some (m, fst e)"
  shows "\<exists>s'. poll (WaitEvents evs) [] s = Inr (map fst evs, s') \<and> reactor_run K s' \<and>
    eventListSize s' =
      (if evs \<noteq> [] \<and> length evs = eventListSize s then eventListSize s * 2 else eventListSize s)"
proof -
  obtain s' where "poll (WaitEvents evs) [] s = Inr (map fst evs, s')"
    "eventListSize s' =
      (if evs \<noteq> [] \<and> length evs = eventListSize s then eventListSize s * 2 else eventListSize s)"
    using poll_effect [OF _ assms(3), of "[]"] reactor_run_inv [OF assms(2,1)] by auto
  with reactor_run.wait [OF assms(2,3)] show ?thesis by blast
qed

theorem poll_live_witness:
  "\<exists>s'. poll (WaitEvents [(0, EPOLLIN)]) [] demo_reactor = Inr ([0], s') \<and> eventListSize s' = 16"
proof -
  have "\<forall>e \<in> set [(0, EPOLLIN)]. \<exists>fd m. interest (trace demo_reactor) fd = Some (m, fst e)"
    by (auto simp: demo_reactor_def interest_def)
  from poll_live [OF ideal_kernel_sound(1) demo_reactor_run this] show ?thesis
    by (auto simp: demo_reactor_def)
qed

text \<open>
  Subscribing to reading asks for EPOLLIN and nothing else: the mask \<open>kReadEvent\<close>,
  written with the logical or, does not contain EPOLLPRI, so urgent data is never waited
  for although \<open>handleEvent\<close> dispatches it to the read callback.
\<close>

theorem reading_never_asks_for_pri:
  "ch_events (add_reading ch) AND EPOLLPRI = ch_events ch AND EPOLLPRI \<and>
   ch_events (add_reading ch) AND EPOLLIN = EPOLLIN \<and>
   handleEventWithGuard t ((Channel_ctor 0)\<lparr>ch_revents := EPOLLPRI, ch_readCallback := Some f\<rparr>)
     = [InvokeAt f t]"
  by (simp add: add_reading_mask)
     (simp add: epoll_consts handleEventWithGuard_def Channel_ctor_def call_at_opt_def Let_def)

text \<open>The poller's operations do not touch what extends the reactor.\<close>

lemma Channel_set_more: "Channel_set g K c s = Inr s' \<Longrightarrow> reactor.more s' = reactor.more s"
  by (auto simp: Channel_set_def Channel_update_def updateChannel_def set_index_def epoll_update_def Let_def
      rbind_eq_Inr split: option.splits if_splits)

lemma Channel_remove_more: "Channel_remove K c s = Inr s' \<Longrightarrow> reactor.more s' = reactor.more s"
  by (auto simp: Channel_remove_def removeChannel_def set_index_def epoll_update_def Let_def rbind_eq_Inr
      split: option.splits if_splits)

end
