(* ===== verification/Timer.thy ===== *)
theory Timer
  imports Complex_Main "HOL-Library.Product_Lexorder" Prelude
begin

text \<open>
  Time stamps (\<^verbatim>\<open>src/Timestamp.h\<close>, \<^verbatim>\<open>Timestamp.cpp\<close>) and the data of timers (\<^verbatim>\<open>src/Timer.h\<close>,
  \<^verbatim>\<open>Timer.cpp\<close>, \<^verbatim>\<open>TimerId.h\<close>, \<^verbatim>\<open>TimerQueue.h\<close>). A time stamp is its counter of type
  \<^verbatim>\<open>int64_t\<close>, an \<^typ>\<open>int\<close>: the counters that occur (wall clock plus delays) are far from
  its bounds. A \<^verbatim>\<open>double\<close> number of seconds is a rational, its product with 1,000,000 exact;
  the conversion truncates toward zero as the cast does. The operations of the queue, which
  need the event loop, are in theory \<open>TimerQueue\<close>.
\<close>

subsection \<open>Time stamps\<close>

type_synonym timestamp = int

definition kMicroSecondsPerSecond :: int where
  "kMicroSecondsPerSecond = 1000 * 1000"

definition Timestamp_invalid :: timestamp where
  "Timestamp_invalid = 0"

definition Timestamp_valid :: "timestamp \<Rightarrow> bool" where
  "Timestamp_valid t \<longleftrightarrow> t > 0"

definition Timestamp_less :: "timestamp \<Rightarrow> timestamp \<Rightarrow> bool" where
  "Timestamp_less t rhs \<longleftrightarrow> t < rhs"

definition Timestamp_eq :: "timestamp \<Rightarrow> timestamp \<Rightarrow> bool" where
  "Timestamp_eq t rhs \<longleftrightarrow> t = rhs"

text \<open>The new values of the object and of the argument.\<close>

definition Timestamp_swap :: "timestamp \<Rightarrow> timestamp \<Rightarrow> timestamp \<times> timestamp" where
  "Timestamp_swap t that = (that, t)"

text \<open>\<open>now\<close> stores what \<^verbatim>\<open>time(NULL)\<close> returns, a number of seconds, in the counter.\<close>

definition Timestamp_now :: "int \<Rightarrow> timestamp" where
  "Timestamp_now seconds_since_epoch = seconds_since_epoch"

definition trunc_rat :: "rat \<Rightarrow> int" where
  "trunc_rat x = (if x \<ge> 0 then floor x else ceiling x)"

definition addTime :: "timestamp \<Rightarrow> rat \<Rightarrow> timestamp" where
  "addTime t seconds = t + trunc_rat (seconds * of_int kMicroSecondsPerSecond)"

subsection \<open>Timers\<close>

record 'f timer =
  timer_callback :: 'f
  expiration :: timestamp
  interval :: rat
  timer_repeat :: bool
  sequence :: int

text \<open>The constructor takes the value of the static counter and returns its new value.\<close>

definition Timer_ctor :: "'f \<Rightarrow> timestamp \<Rightarrow> rat \<Rightarrow> int \<Rightarrow> 'f timer \<times> int" where
  "Timer_ctor cb when ival numCreated =
     (\<lparr>timer_callback = cb, expiration = when, interval = ival, timer_repeat = ival > 0,
       sequence = numCreated + 1\<rparr>, numCreated + 1)"

definition Timer_restart :: "timestamp \<Rightarrow> 'f timer \<Rightarrow> 'f timer" where
  "Timer_restart now t =
     (if timer_repeat t then t\<lparr>expiration := addTime now (interval t)\<rparr>
      else t\<lparr>expiration := Timestamp_invalid\<rparr>)"

text \<open>A timer pointer is an address of the heap of timers; \<^verbatim>\<open>TimerId\<close> stores an \<^verbatim>\<open>int\<close>.\<close>

record timer_id =
  tid_timer :: nat
  tid_sequence :: int

definition TimerId_ctor :: "nat \<Rightarrow> int \<Rightarrow> timer_id" where
  "TimerId_ctor timer seq = \<lparr>tid_timer = timer, tid_sequence = to_int32 seq\<rparr>"

text \<open>
  The queue. \<^verbatim>\<open>std::set\<close> is a strictly sorted list; the timers themselves, allocated with
  \<^verbatim>\<open>new\<close>, are the cells of \<open>theap\<close>, and a deleted timer is an empty cell.
\<close>

record 'f timer_queue =
  timerfd :: int
  timerfdChannel :: nat
  timers :: "(timestamp \<times> nat) list"
  activeTimers :: "(nat \<times> int) list"
  callingExpiredTimers :: bool
  cancelingTimers :: "(nat \<times> int) list"
  theap :: "nat \<Rightarrow> 'f timer option"
  numCreated :: int

subsection \<open>Sets as strictly sorted lists\<close>

definition set_put :: "'a::linorder \<Rightarrow> 'a list \<Rightarrow> 'a list" where
  "set_put x xs = (if x \<in> set xs then xs else insort x xs)"

definition set_erase :: "'a::linorder \<Rightarrow> 'a list \<Rightarrow> 'a list" where
  "set_erase x xs = remove1 x xs"

definition set_ok :: "'a::linorder list \<Rightarrow> bool" where
  "set_ok xs \<longleftrightarrow> sorted xs \<and> distinct xs"

lemma set_put_set [simp]: "set (set_put x xs) = insert x (set xs)"
  by (auto simp: set_put_def set_insort_key)

lemma set_put_ok [simp]: "set_ok xs \<Longrightarrow> set_ok (set_put x xs)"
  by (simp add: set_ok_def set_put_def sorted_insort distinct_insort)

lemma set_erase_set [simp]: "set_ok xs \<Longrightarrow> set (set_erase x xs) = set xs - {x}"
  by (simp add: set_ok_def set_erase_def set_remove1_eq)

lemma set_erase_ok [simp]: "set_ok xs \<Longrightarrow> set_ok (set_erase x xs)"
  by (simp add: set_ok_def set_erase_def sorted_remove1)

lemma set_ok_Nil [simp]: "set_ok []"
  by (simp add: set_ok_def)

end
