(* ===== verification/Delivery.thy ===== *)
theory Delivery
  imports Prelude "HOL-Library.Sublist"
begin

text \<open>
  What a queue between threads promises, as an abstract machine of two lists: the items that are
  yet to be delivered, and those that have been. Producers add at the end, the consumer takes
  from the front, several at a time if it likes. The queue of functors of an event loop, the
  queue of tasks of a thread pool and the buffers of the asynchronous log are such queues; the
  locale \<open>delivery\<close> is what each of them has to show of one step, and what then holds of all runs.
\<close>

inductive delivers :: "'a list \<times> 'a list \<Rightarrow> 'a list \<times> 'a list \<Rightarrow> bool" where
  put: "delivers (q, d) (q @ xs, d)"
| get: "delivers (xs @ q, d) (q, d @ xs)"

lemma delivers_none [simp, intro]: "delivers s s"
  using delivers.put [of "fst s" "snd s" "[]"] by simp

lemma delivers_one: "delivers (x # q, d) (q, d @ [x])"
  using delivers.get [of "[x]" q d] by simp

text \<open>Whatever has been accepted stays in its place, and what is delivered stays delivered.\<close>

lemma delivers_prefix:
  assumes "delivers\<^sup>*\<^sup>* (q, d) (q', d')"
  shows "prefix d d' \<and> prefix (d @ q) (d' @ q')"
  using assms
proof (induction "(q', d')" arbitrary: q' d' rule: rtranclp_induct)
  case (step s)
  from step.hyps(2) step.hyps(3) [of "fst s" "snd s"] show ?case
    by (cases rule: delivers.cases) (auto simp: prefix_def, metis append.assoc)
qed simp

locale delivery =
  fixes init :: "'c \<Rightarrow> bool"
    and step :: "'c \<Rightarrow> 'c \<Rightarrow> bool"
    and invar :: "'c \<Rightarrow> bool"
    and todo :: "'c \<Rightarrow> 'a list"
    and delivered :: "'c \<Rightarrow> 'a list"
  assumes init_invar: "init c \<Longrightarrow> invar c"
    and init_empty: "init c \<Longrightarrow> todo c = [] \<and> delivered c = []"
    and step_invar: "invar c \<Longrightarrow> step c c' \<Longrightarrow> invar c'"
    and step_delivers: "invar c \<Longrightarrow> step c c' \<Longrightarrow> delivers (todo c, delivered c) (todo c', delivered c')"
begin

lemma run_invar: "step\<^sup>*\<^sup>* c c' \<Longrightarrow> invar c \<Longrightarrow> invar c'"
  by (induction rule: rtranclp_induct) (auto intro: step_invar)

lemma run_delivers:
  assumes "step\<^sup>*\<^sup>* c c'" "invar c"
  shows "delivers\<^sup>*\<^sup>* (todo c, delivered c) (todo c', delivered c')"
  using assms
proof (induction rule: rtranclp_induct)
  case (step c1 c2)
  from step_delivers [OF run_invar [OF step.hyps(1) step.prems] step.hyps(2)] step.IH [OF step.prems] show ?case
    by (rule rtranclp.rtrancl_into_rtrancl [rotated])
qed simp

text \<open>The run refines the abstract queue, and from any point of it on nothing accepted is lost or overtaken.\<close>

lemma refines:
  assumes "init c" "step\<^sup>*\<^sup>* c c1" "step\<^sup>*\<^sup>* c1 c2"
  shows "delivers\<^sup>*\<^sup>* ([], []) (todo c1, delivered c1) \<and>
    prefix (delivered c1) (delivered c2) \<and> prefix (delivered c1 @ todo c1) (delivered c2 @ todo c2)"
proof -
  have "invar c1" using run_invar [OF assms(2)] init_invar [OF assms(1)] by simp
  with delivers_prefix [OF run_delivers [OF assms(3)]] run_delivers [OF assms(2)] init_empty [OF assms(1)]
    init_invar [OF assms(1)]
  show ?thesis by simp
qed

end

end
