(* ===== verification/EventLoop.thy ===== *)
theory EventLoop
  imports Poller Timer Delivery
begin

text \<open>
  The event loop (\<^verbatim>\<open>src/EventLoop.h\<close>, \<^verbatim>\<open>EventLoop.cpp\<close>): it extends the reactor by the flags
  of the loop, the eventfd with its channel, and the queue of functors other threads fill.
  A functor or callback is a value of \<open>'f\<close>; running one is the parameter \<open>exec\<close>, which the
  components that own the callbacks supply. A thread id is an argument of the operations that
  compare it with the thread of the loop.

  What is shown: under every interleaving of other threads with the loop, functors are run
  exactly once, in the order they were queued, and a queued functor never waits behind a
  sleeping loop: when the loop is about to sleep with functors pending, a wakeup is
  pending too. The flags of \<open>quit\<close> and the missing timer queue are shown as the code has them.
\<close>

record 'f event_loop = "'f reactor" +
  looping :: bool
  quit_flag :: bool
  threadId :: int
  pollReturnTime :: timestamp
  wakeupFd :: int
  wakeupChannel :: nat
  activateChannels :: "nat list"
  callingPendingFunctors :: bool
  pendingFunctors :: "'f list"
  timerQueue :: "'f timer_queue option"

subsection \<open>Construction\<close>

definition createEventfd :: "int \<Rightarrow> int res" where
  "createEventfd evtfd = (if evtfd < 0 then Inl ExitProcess else Inr evtfd)"

text \<open>
  The constructor. \<open>use_poll\<close>, \<open>epollfd\<close>, \<open>evtfd\<close> are the environment variable and the
  descriptors the kernel returns; \<open>other\<close> tells whether the thread has a loop already;
  \<open>c\<close> is the address of the new channel and \<open>read_cb\<close> the bound \<^verbatim>\<open>EventLoop::handleRead\<close>.
  A null poller is dereferenced by the first \<open>enableReading\<close>. \<open>timerQueue_\<close> is not
  initialised, so it is null.
\<close>

definition EventLoop_ctor ::
  "kernel \<Rightarrow> bool \<Rightarrow> int \<Rightarrow> int \<Rightarrow> bool \<Rightarrow> int \<Rightarrow> nat \<Rightarrow> 'f \<Rightarrow> 'f event_loop res" where
  "EventLoop_ctor K use_poll epollfd evtfd other tid c read_cb =
     rbind (newDefaultPoller use_poll epollfd) (\<lambda>poller.
     rbind (createEventfd evtfd) (\<lambda>wfd.
       if other then Inl ExitProcess
       else case poller of
           None \<Rightarrow> Inl NullDeref
         | Some p \<Rightarrow>
             let s = reactor.extend p
                 \<lparr>looping = False, quit_flag = False, threadId = tid, pollReturnTime = Timestamp_invalid,
                  wakeupFd = wfd, wakeupChannel = c, activateChannels = [],
                  callingPendingFunctors = False, pendingFunctors = [], timerQueue = None\<rparr>
             in enableReading K c
                  (new_channel c ((Channel_ctor wfd)\<lparr>ch_readCallback := Some read_cb\<rparr>) s)))"

definition isInLoopThread :: "int \<Rightarrow> ('f, 'z) event_loop_scheme \<Rightarrow> bool" where
  "isInLoopThread tid s \<longleftrightarrow> threadId s = tid"

subsection \<open>Waking up and queueing\<close>

definition wakeup :: "('f, 'z) event_loop_scheme \<Rightarrow> ('f, 'z) event_loop_scheme" where
  "wakeup s = s\<lparr>trace := trace s @ [EventfdWrite (wakeupFd s)]\<rparr>"

definition loop_handleRead :: "('f, 'z) event_loop_scheme \<Rightarrow> ('f, 'z) event_loop_scheme" where
  "loop_handleRead s = s\<lparr>trace := trace s @ [EventfdRead (wakeupFd s)]\<rparr>"

definition quit :: "int \<Rightarrow> ('f, 'z) event_loop_scheme \<Rightarrow> ('f, 'z) event_loop_scheme" where
  "quit tid s =
     (let s1 = s\<lparr>quit_flag := True\<rparr> in if \<not> isInLoopThread tid s1 then wakeup s1 else s1)"

text \<open>\<open>queueInLoop\<close> in its two parts: the push under the mutex, and the check after it.\<close>

definition queue_push :: "'f \<Rightarrow> ('f, 'z) event_loop_scheme \<Rightarrow> ('f, 'z) event_loop_scheme" where
  "queue_push cb s = s\<lparr>pendingFunctors := pendingFunctors s @ [cb]\<rparr>"

definition queue_notify :: "int \<Rightarrow> ('f, 'z) event_loop_scheme \<Rightarrow> ('f, 'z) event_loop_scheme" where
  "queue_notify tid s =
     (if \<not> isInLoopThread tid s \<or> callingPendingFunctors s then wakeup s else s)"

definition queueInLoop :: "int \<Rightarrow> 'f \<Rightarrow> ('f, 'z) event_loop_scheme \<Rightarrow> ('f, 'z) event_loop_scheme" where
  "queueInLoop tid cb s = queue_notify tid (queue_push cb s)"

definition runInLoop ::
  "('f invocation \<Rightarrow> ('f, 'z) event_loop_scheme \<Rightarrow> ('f, 'z) event_loop_scheme res) \<Rightarrow>
   int \<Rightarrow> 'f \<Rightarrow> ('f, 'z) event_loop_scheme \<Rightarrow> ('f, 'z) event_loop_scheme res" where
  "runInLoop exec tid cb s =
     (if isInLoopThread tid s then exec (Invoke cb) s else Inr (queueInLoop tid cb s))"

subsection \<open>The loop\<close>

fun run_all ::
  "('f invocation \<Rightarrow> 's \<Rightarrow> 's res) \<Rightarrow> 'f invocation list \<Rightarrow> 's \<Rightarrow> 's res" where
  "run_all exec [] s = Inr s"
| "run_all exec (i # is) s = rbind (exec i s) (run_all exec is)"

text \<open>\<open>doPendingFunctors\<close> in its parts: the flag, the swap under the mutex, the run, the flag.\<close>

definition pending_begin :: "('f, 'z) event_loop_scheme \<Rightarrow> ('f, 'z) event_loop_scheme" where
  "pending_begin s = s\<lparr>callingPendingFunctors := True\<rparr>"

definition pending_swap :: "('f, 'z) event_loop_scheme \<Rightarrow> 'f list \<times> ('f, 'z) event_loop_scheme" where
  "pending_swap s = (pendingFunctors s, s\<lparr>pendingFunctors := []\<rparr>)"

definition pending_end :: "('f, 'z) event_loop_scheme \<Rightarrow> ('f, 'z) event_loop_scheme" where
  "pending_end s = s\<lparr>callingPendingFunctors := False\<rparr>"

definition doPendingFunctors ::
  "('f invocation \<Rightarrow> ('f, 'z) event_loop_scheme \<Rightarrow> ('f, 'z) event_loop_scheme res) \<Rightarrow>
   ('f, 'z) event_loop_scheme \<Rightarrow> ('f, 'z) event_loop_scheme res" where
  "doPendingFunctors exec s =
     (case pending_swap (pending_begin s) of
        (functors, s1) \<Rightarrow>
          rbind (run_all exec (map Invoke functors) s1) (\<lambda>s2. Inr (pending_end s2)))"

text \<open>
  The \<^verbatim>\<open>for\<close> over the active channels: each is read from the heap when its turn comes, so
  a channel destroyed by an earlier callback is a dangling pointer. \<open>alive\<close> answers the
  \<^verbatim>\<open>lock()\<close> of a tied channel.
\<close>

fun dispatch ::
  "('f invocation \<Rightarrow> ('f, 'z) event_loop_scheme \<Rightarrow> ('f, 'z) event_loop_scheme res) \<Rightarrow>
   (nat \<Rightarrow> ('f, 'z) event_loop_scheme \<Rightarrow> bool) \<Rightarrow>
   nat list \<Rightarrow> ('f, 'z) event_loop_scheme \<Rightarrow> ('f, 'z) event_loop_scheme res" where
  "dispatch exec alive [] s = Inr s"
| "dispatch exec alive (c # cs) s =
     (case heap s c of
        None \<Rightarrow> Inl UseAfterFree
      | Some ch \<Rightarrow>
          rbind (run_all exec (handleEvent (alive c s) (pollReturnTime s) ch) s)
            (dispatch exec alive cs))"

text \<open>One turn of the \<^verbatim>\<open>while\<close>, given what \<^verbatim>\<open>epoll_wait\<close> returns and the clock after it.\<close>

definition loop_iteration ::
  "('f invocation \<Rightarrow> ('f, 'z) event_loop_scheme \<Rightarrow> ('f, 'z) event_loop_scheme res) \<Rightarrow>
   (nat \<Rightarrow> ('f, 'z) event_loop_scheme \<Rightarrow> bool) \<Rightarrow>
   wait_ret \<times> int \<Rightarrow> ('f, 'z) event_loop_scheme \<Rightarrow> ('f, 'z) event_loop_scheme res" where
  "loop_iteration exec alive w s =
     rbind (poll (fst w) [] (s\<lparr>activateChannels := []\<rparr>)) (\<lambda>(active, s1).
     rbind (dispatch exec alive active
              (s1\<lparr>activateChannels := active, pollReturnTime := Timestamp_now (snd w)\<rparr>))
       (doPendingFunctors exec))"

text \<open>
  The loop over a list of results of \<^verbatim>\<open>epoll_wait\<close>: it stops when the flag is found set,
  and is still running (blocked in the next poll) when the list is used up.
\<close>

datatype 's loop_result = Stopped 's | Blocked 's

fun loop_while ::
  "('f invocation \<Rightarrow> ('f, 'z) event_loop_scheme \<Rightarrow> ('f, 'z) event_loop_scheme res) \<Rightarrow>
   (nat \<Rightarrow> ('f, 'z) event_loop_scheme \<Rightarrow> bool) \<Rightarrow>
   (wait_ret \<times> int) list \<Rightarrow> ('f, 'z) event_loop_scheme \<Rightarrow>
   ('f, 'z) event_loop_scheme loop_result res" where
  "loop_while exec alive ws s =
     (if quit_flag s then Inr (Stopped (s\<lparr>looping := False\<rparr>))
      else case ws of
          [] \<Rightarrow> Inr (Blocked s)
        | w # ws' \<Rightarrow> rbind (loop_iteration exec alive w s) (loop_while exec alive ws'))"

declare loop_while.simps [simp del]

definition loop ::
  "('f invocation \<Rightarrow> ('f, 'z) event_loop_scheme \<Rightarrow> ('f, 'z) event_loop_scheme res) \<Rightarrow>
   (nat \<Rightarrow> ('f, 'z) event_loop_scheme \<Rightarrow> bool) \<Rightarrow>
   (wait_ret \<times> int) list \<Rightarrow> ('f, 'z) event_loop_scheme \<Rightarrow>
   ('f, 'z) event_loop_scheme loop_result res" where
  "loop exec alive ws s = loop_while exec alive ws (s\<lparr>looping := True, quit_flag := False\<rparr>)"

text \<open>The destructor: the channel is disabled, removed and destroyed, the descriptor closed.\<close>

definition EventLoop_dtor ::
  "kernel \<Rightarrow> ('f, 'z) event_loop_scheme \<Rightarrow> ('f, 'z) event_loop_scheme res" where
  "EventLoop_dtor K s =
     rbind (disableAll K (wakeupChannel s) s) (\<lambda>s1.
     rbind (Channel_remove K (wakeupChannel s) s1) (\<lambda>s2.
       Inr (delete_channel (wakeupChannel s)
         (s2\<lparr>trace := trace s2 @ [SockClose (wakeupFd s)]\<rparr>))))"

subsection \<open>Wakeups in the trace\<close>

text \<open>The counter of an eventfd: a write adds one, a read clears it (\<^verbatim>\<open>eventfd(2)\<close>).\<close>

fun eventfd_step :: "int \<Rightarrow> nat \<Rightarrow> sysevent \<Rightarrow> nat" where
  "eventfd_step fd n (EventfdWrite fd') = (if fd' = fd then n + 1 else n)"
| "eventfd_step fd n (EventfdRead fd') = (if fd' = fd then 0 else n)"
| "eventfd_step fd n _ = n"

definition eventfd_count :: "int \<Rightarrow> sysevent list \<Rightarrow> nat" where
  "eventfd_count fd tr = foldl (eventfd_step fd) 0 tr"

lemma eventfd_count_snoc [simp]:
  "eventfd_count fd (tr @ [e]) = eventfd_step fd (eventfd_count fd tr) e"
  by (simp add: eventfd_count_def)

lemma eventfd_count_Nil [simp]: "eventfd_count fd [] = 0"
  by (simp add: eventfd_count_def)

lemma eventfd_count_ctl [simp]: "eventfd_count fd [EpollCtl op fd' ev c ok] = 0"
  by (simp add: eventfd_count_def)

lemmas loop_frame_defs =
  wakeup_def loop_handleRead_def queue_push_def queue_notify_def pending_begin_def pending_swap_def
  pending_end_def isInLoopThread_def

subsection \<open>The loop and the other threads\<close>

text \<open>
  Where the loop's thread is: in \<^verbatim>\<open>epoll_wait\<close>, handling the active channels, in
  \<open>doPendingFunctors\<close> between setting the flag and the swap, or running the functors it
  took (those still to run are listed). \<open>owing\<close> lists the threads that have pushed a functor
  and not yet made the check that follows; \<open>pushed\<close> and \<open>ran\<close> are the history.
\<close>

datatype 'f phase = AtPoll | Handling | Swapping | Running "'f list"

record 'f machine =
  lp :: "'f event_loop"
  phase :: "'f phase"
  owing :: "int list"
  pushed :: "'f list"
  ran :: "'f list"

text \<open>
  The thread of the loop may queue functors while it handles events and while it runs
  functors; every other thread at any time. The loop's thread goes on only when it has
  finished its own \<open>queueInLoop\<close>. A poll returns at any moment (by an event or by its time
  limit), and whether the eventfd is among the events is left open.
\<close>

definition loop_idle :: "'f machine \<Rightarrow> bool" where
  "loop_idle m \<longleftrightarrow> threadId (lp m) \<notin> set (owing m)"

definition may_queue :: "'f machine \<Rightarrow> int \<Rightarrow> bool" where
  "may_queue m tid \<longleftrightarrow>
     (tid = threadId (lp m) \<longrightarrow>
        loop_idle m \<and> (phase m = Handling \<or> (\<exists>fs. phase m = Running fs)))"

inductive loop_step :: "'f machine \<Rightarrow> 'f machine \<Rightarrow> bool" where
  push: "may_queue m tid \<Longrightarrow>
    loop_step m (m\<lparr>lp := queue_push f (lp m), owing := tid # owing m, pushed := pushed m @ [f]\<rparr>)"
| notify: "tid \<in> set (owing m) \<Longrightarrow>
    loop_step m (m\<lparr>lp := queue_notify tid (lp m), owing := remove1 tid (owing m)\<rparr>)"
| set_quit: "loop_step m (m\<lparr>lp := quit tid (lp m)\<rparr>)"
| polled: "phase m = AtPoll \<Longrightarrow> loop_step m (m\<lparr>phase := Handling\<rparr>)"
| drain: "phase m = Handling \<Longrightarrow> loop_idle m \<Longrightarrow> loop_step m (m\<lparr>lp := loop_handleRead (lp m)\<rparr>)"
| flag: "phase m = Handling \<Longrightarrow> loop_idle m \<Longrightarrow>
    loop_step m (m\<lparr>lp := pending_begin (lp m), phase := Swapping\<rparr>)"
| swap: "phase m = Swapping \<Longrightarrow> pending_swap (lp m) = (fs, l) \<Longrightarrow>
    loop_step m (m\<lparr>lp := l, phase := Running fs\<rparr>)"
| run: "phase m = Running (f # fs) \<Longrightarrow> loop_idle m \<Longrightarrow>
    loop_step m (m\<lparr>phase := Running fs, ran := ran m @ [f]\<rparr>)"
| unflag: "phase m = Running [] \<Longrightarrow> loop_idle m \<Longrightarrow>
    loop_step m (m\<lparr>lp := pending_end (lp m), phase := AtPoll\<rparr>)"

definition machine_init :: "'f event_loop \<Rightarrow> 'f machine" where
  "machine_init l = \<lparr>lp = l, phase = AtPoll, owing = [], pushed = [], ran = []\<rparr>"

inductive loop_reach :: "'f event_loop \<Rightarrow> 'f machine \<Rightarrow> bool" for l where
  start: "loop_reach l (machine_init l)"
| step: "loop_reach l m \<Longrightarrow> loop_step m m' \<Longrightarrow> loop_reach l m'"

definition taken :: "'f machine \<Rightarrow> 'f list" where
  "taken m = (case phase m of Running fs \<Rightarrow> fs | _ \<Rightarrow> [])"

definition wake_count :: "'f machine \<Rightarrow> nat" where
  "wake_count m = eventfd_count (wakeupFd (lp m)) (trace (lp m))"

definition in_pending_phase :: "'f phase \<Rightarrow> bool" where
  "in_pending_phase p \<longleftrightarrow> (case p of Swapping \<Rightarrow> True | Running _ \<Rightarrow> True | _ \<Rightarrow> False)"

definition machine_inv :: "'f machine \<Rightarrow> bool" where
  "machine_inv m \<longleftrightarrow>
     pushed m = ran m @ taken m @ pendingFunctors (lp m) \<and>
     callingPendingFunctors (lp m) = in_pending_phase (phase m) \<and>
     (phase m = Swapping \<longrightarrow> loop_idle m) \<and> (phase m = AtPoll \<longrightarrow> loop_idle m) \<and>
     (pendingFunctors (lp m) \<noteq> [] \<longrightarrow>
        phase m = Handling \<or> phase m = Swapping \<or> wake_count m > 0 \<or> owing m \<noteq> [])"

lemmas machine_defs = machine_inv_def taken_def wake_count_def in_pending_phase_def loop_idle_def
  may_queue_def

lemma machine_inv_push:
  assumes "machine_inv m" "may_queue m tid"
  shows "machine_inv (m\<lparr>lp := queue_push f (lp m), owing := tid # owing m, pushed := pushed m @ [f]\<rparr>)"
  using assms by (cases "phase m") (auto simp: machine_defs queue_push_def)

lemma wakeup_counts: "eventfd_count (wakeupFd s) (trace (wakeup s)) > 0"
  by (simp add: wakeup_def)

lemma machine_inv_notify:
  assumes inv: "machine_inv m" and tid: "tid \<in> set (owing m)"
  shows "machine_inv (m\<lparr>lp := queue_notify tid (lp m), owing := remove1 tid (owing m)\<rparr>)"
proof (cases "\<not> isInLoopThread tid (lp m) \<or> callingPendingFunctors (lp m)")
  case True
  have "x \<in> set (remove1 tid (owing m)) \<Longrightarrow> x \<in> set (owing m)" for x
    using set_remove1_subset [of tid "owing m"] by blast
  with inv True show ?thesis
    by (auto simp: machine_defs queue_notify_def wakeup_def)
next
  case False
  then have h: "threadId (lp m) \<in> set (owing m)" "\<not> callingPendingFunctors (lp m)"
    using tid by (simp_all add: isInLoopThread_def)
  have "phase m = Handling"
    using inv h by (cases "phase m") (simp_all add: machine_defs)
  with inv False show ?thesis
    by (simp add: machine_defs queue_notify_def)
qed

lemma machine_inv_step:
  assumes "loop_step m m'" "machine_inv m"
  shows "machine_inv m'"
  using assms
proof (cases rule: loop_step.cases)
  case (push tid f)
  with assms(2) show ?thesis by (simp add: machine_inv_push)
next
  case (notify tid)
  with assms(2) show ?thesis by (simp add: machine_inv_notify)
next
  case (set_quit tid)
  with assms show ?thesis
    by (auto simp: machine_defs quit_def Let_def wakeup_def split: if_splits)
qed (use assms in \<open>auto simp: machine_defs loop_frame_defs split: phase.splits\<close>)

definition fresh_loop :: "'f event_loop \<Rightarrow> bool" where
  "fresh_loop l \<longleftrightarrow> pendingFunctors l = [] \<and> \<not> callingPendingFunctors l"

lemma machine_inv_reach: "loop_reach l m \<Longrightarrow> fresh_loop l \<Longrightarrow> machine_inv m"
proof (induction rule: loop_reach.induct)
  case start
  then show ?case by (simp add: machine_defs machine_init_def fresh_loop_def)
next
  case (step m m')
  then show ?case using machine_inv_step by blast
qed

subsection \<open>Draining the queue\<close>

lemma run_taken:
  assumes "phase m = Running fs" "loop_idle m"
  obtains m' where "loop_step\<^sup>*\<^sup>* m m'" "phase m' = Running []" "loop_idle m'" "ran m' = ran m @ fs"
    "pushed m' = pushed m" "lp m' = lp m"
  using assms
proof (induction fs arbitrary: m thesis)
  case Nil
  show ?case using Nil.prems(2,3) by (intro Nil.prems(1) [of m]) simp_all
next
  case (Cons f fs)
  let ?m = "m\<lparr>phase := Running fs, ran := ran m @ [f]\<rparr>"
  have 1: "loop_step m ?m" by (rule loop_step.run [OF Cons.prems(2,3)])
  have 2: "loop_idle ?m" using Cons.prems(3) by (simp add: loop_idle_def)
  show ?case
  proof (rule Cons.IH [OF _ _ 2])
    fix m'
    assume "loop_step\<^sup>*\<^sup>* ?m m'" "phase m' = Running []" "loop_idle m'" "ran m' = ran ?m @ fs"
      "pushed m' = pushed ?m" "lp m' = lp ?m"
    with converse_rtranclp_into_rtranclp [of loop_step, OF 1] show ?case
      by (intro Cons.prems(1) [of m']) simp_all
  qed simp
qed

lemma full_round:
  assumes "phase m = AtPoll" "loop_idle m"
  obtains m' where "loop_step\<^sup>*\<^sup>* m m'" "phase m' = AtPoll" "ran m' = ran m @ pendingFunctors (lp m)"
    "pushed m' = pushed m" "pendingFunctors (lp m') = []"
proof -
  let ?m1 = "m\<lparr>phase := Handling\<rparr>"
  let ?m2 = "?m1\<lparr>lp := pending_begin (lp ?m1), phase := Swapping\<rparr>"
  let ?fs = "pendingFunctors (lp m)" and ?l = "(pending_begin (lp m))\<lparr>pendingFunctors := []\<rparr>"
  let ?m3 = "?m2\<lparr>lp := ?l, phase := Running ?fs\<rparr>"
  have 1: "loop_step m ?m1" by (rule loop_step.polled [OF assms(1)])
  have 2: "loop_step ?m1 ?m2"
    using assms(2) by (intro loop_step.flag) (simp_all add: loop_idle_def)
  have 3: "loop_step ?m2 ?m3"
    by (rule loop_step.swap) (simp_all add: pending_swap_def pending_begin_def)
  have "loop_idle ?m3" using assms(2) by (simp add: loop_idle_def pending_begin_def)
  then obtain m4 where m4: "loop_step\<^sup>*\<^sup>* ?m3 m4" "phase m4 = Running []" "loop_idle m4"
    "ran m4 = ran ?m3 @ ?fs" "pushed m4 = pushed ?m3" "lp m4 = lp ?m3"
    using run_taken [of ?m3 ?fs] by auto
  note 4 = loop_step.unflag [OF m4(2,3)]
  have "loop_step\<^sup>*\<^sup>* m (m4\<lparr>lp := pending_end (lp m4), phase := AtPoll\<rparr>)"
    using 1 2 3 m4(1) 4 by (meson converse_rtranclp_into_rtranclp rtranclp.rtrancl_into_rtrancl)
  with m4 that show thesis by (simp add: pending_end_def)
qed

subsection \<open>One round of functors\<close>

text \<open>Functors that do nothing to the loop but queue further functors from its thread.\<close>

definition queueing_exec ::
  "('f \<Rightarrow> 'f list) \<Rightarrow> 'f invocation \<Rightarrow> ('f, 'z) event_loop_scheme \<Rightarrow> ('f, 'z) event_loop_scheme res" where
  "queueing_exec q i s =
     (case i of Invoke f \<Rightarrow> Inr (foldl (\<lambda>s g. queueInLoop (threadId s) g s) s (q f))
      | InvokeAt f t \<Rightarrow> Inr s)"

lemma queueInLoop_fields [simp]:
  "pendingFunctors (queueInLoop tid g s) = pendingFunctors s @ [g]"
  "callingPendingFunctors (queueInLoop tid g s) = callingPendingFunctors s"
  "wakeupFd (queueInLoop tid g s) = wakeupFd s" "threadId (queueInLoop tid g s) = threadId s"
  "eventfd_count (wakeupFd s) (trace (queueInLoop tid g s)) =
     (if tid \<noteq> threadId s \<or> callingPendingFunctors s then 1 else 0) + eventfd_count (wakeupFd s) (trace s)"
  by (auto simp: queueInLoop_def loop_frame_defs)

lemma queue_many_fields:
  assumes "callingPendingFunctors s"
  shows "pendingFunctors (foldl (\<lambda>s g. queueInLoop (threadId s) g s) s gs) = pendingFunctors s @ gs"
    "callingPendingFunctors (foldl (\<lambda>s g. queueInLoop (threadId s) g s) s gs)"
    "wakeupFd (foldl (\<lambda>s g. queueInLoop (threadId s) g s) s gs) = wakeupFd s"
    "eventfd_count (wakeupFd s) (trace (foldl (\<lambda>s g. queueInLoop (threadId s) g s) s gs)) =
       length gs + eventfd_count (wakeupFd s) (trace s)"
proof -
  have "pendingFunctors (foldl (\<lambda>s g. queueInLoop (threadId s) g s) s gs) = pendingFunctors s @ gs \<and>
    callingPendingFunctors (foldl (\<lambda>s g. queueInLoop (threadId s) g s) s gs) \<and>
    wakeupFd (foldl (\<lambda>s g. queueInLoop (threadId s) g s) s gs) = wakeupFd s \<and>
    eventfd_count (wakeupFd s) (trace (foldl (\<lambda>s g. queueInLoop (threadId s) g s) s gs)) =
       length gs + eventfd_count (wakeupFd s) (trace s)"
    using assms
  proof (induction gs arbitrary: s)
    case (Cons g gs)
    then show ?case using Cons.IH [of "queueInLoop (threadId s) g s"] by simp
  qed simp
  then show "pendingFunctors (foldl (\<lambda>s g. queueInLoop (threadId s) g s) s gs) = pendingFunctors s @ gs"
    "callingPendingFunctors (foldl (\<lambda>s g. queueInLoop (threadId s) g s) s gs)"
    "wakeupFd (foldl (\<lambda>s g. queueInLoop (threadId s) g s) s gs) = wakeupFd s"
    "eventfd_count (wakeupFd s) (trace (foldl (\<lambda>s g. queueInLoop (threadId s) g s) s gs)) =
       length gs + eventfd_count (wakeupFd s) (trace s)"
    by simp_all
qed

lemma run_all_queueing:
  assumes "callingPendingFunctors s"
  shows "\<exists>s'. run_all (queueing_exec q) (map Invoke fs) s = Inr s' \<and>
    pendingFunctors s' = pendingFunctors s @ concat (map q fs) \<and> callingPendingFunctors s' \<and>
    wakeupFd s' = wakeupFd s \<and>
    eventfd_count (wakeupFd s) (trace s') = length (concat (map q fs)) + eventfd_count (wakeupFd s) (trace s)"
  using assms
proof (induction fs arbitrary: s)
  case (Cons f fs)
  let ?s = "foldl (\<lambda>s g. queueInLoop (threadId s) g s) s (q f)"
  note m = queue_many_fields [OF Cons.prems, of "q f"]
  then show ?case
    using Cons.IH [OF m(2)] by (auto simp: queueing_exec_def)
qed simp

subsection \<open>A new loop\<close>

definition new_loop :: "int \<Rightarrow> int \<Rightarrow> nat \<Rightarrow> 'f \<Rightarrow> 'f event_loop" where
  "new_loop evtfd tid c read_cb =
     \<lparr>channels = (\<lambda>_. None)(evtfd \<mapsto> c), eventListSize = kInitEventListSize,
      heap = (\<lambda>_. None)(c \<mapsto> (add_reading (Channel_ctor evtfd))
        \<lparr>ch_index := kAdded, ch_readCallback := Some read_cb\<rparr>),
      trace = [EpollCtl CTL_ADD evtfd EPOLLIN c True],
      looping = False, quit_flag = False, threadId = tid, pollReturnTime = Timestamp_invalid,
      wakeupFd = evtfd, wakeupChannel = c, activateChannels = [], callingPendingFunctors = False,
      pendingFunctors = [], timerQueue = None\<rparr>"

lemma EventLoop_ctor_new:
  assumes "ctl_sound K" "epollfd \<ge> 0" "evtfd \<ge> 0"
  shows "EventLoop_ctor K False epollfd evtfd False tid c read_cb = Inr (new_loop evtfd tid c read_cb)"
proof -
  have "k_epoll_ctl K [] CTL_ADD evtfd ev" for ev
    using assms(1) by (simp add: ctl_sound_def ctl_valid_def)
  with assms show ?thesis
    by (simp add: EventLoop_ctor_def newDefaultPoller_def EpollPoller_ctor_def createEventfd_def
        enableReading_def Channel_set_def Channel_update_def updateChannel_def set_index_def
        epoll_update_def new_channel_def new_loop_def reactor.extend_def index_defs Channel_ctor_def
        add_reading_def kReadEvent_eq)
qed

lemma fresh_new_loop [simp]: "fresh_loop (new_loop evtfd tid c read_cb)"
  by (simp add: fresh_loop_def new_loop_def)

lemma new_loop_inv: "poller_inv (new_loop evtfd tid c read_cb)" "in_sync (new_loop evtfd tid c read_cb) c'"
  by (auto simp: poller_inv_def channel_ok_def in_sync_def new_loop_def add_reading_def Channel_ctor_def
      kReadEvent_eq interest_def split: if_splits)

subsection \<open>Properties\<close>

text \<open>
  With a sound kernel the constructor returns a loop whose eventfd is watched for
  input, through a channel that runs \<open>handleRead\<close> when it fires; a failed \<^verbatim>\<open>epoll_create1\<close>
  or \<^verbatim>\<open>eventfd\<close>, or a second loop in the thread, ends the process, and with
  \<^verbatim>\<open>MUDUO_USE_POLL\<close> set the null poller is dereferenced.
\<close>

theorem EventLoop_ctor_outcome:
  assumes "ctl_sound K"
  shows "EventLoop_ctor K use_poll epollfd evtfd other tid c read_cb =
     (if \<not> use_poll \<and> epollfd < 0 \<or> evtfd < 0 \<or> other then Inl ExitProcess
      else if use_poll then Inl NullDeref else Inr (new_loop evtfd tid c read_cb)) \<and>
    poller_inv (new_loop evtfd tid c read_cb) \<and> in_sync (new_loop evtfd tid c read_cb) c \<and>
    interest (trace (new_loop evtfd tid c read_cb)) evtfd = Some (EPOLLIN, c) \<and>
    (\<forall>t alive. \<exists>ch. heap (new_loop evtfd tid c read_cb) c = Some ch \<and>
       handleEvent alive t (ch\<lparr>ch_revents := EPOLLIN\<rparr>) = [InvokeAt read_cb t])"
proof -
  have "EventLoop_ctor K use_poll epollfd evtfd other tid c read_cb = Inl ExitProcess"
    if "\<not> use_poll \<and> epollfd < 0 \<or> evtfd < 0 \<or> other"
    using that by (auto simp: EventLoop_ctor_def newDefaultPoller_def EpollPoller_ctor_def createEventfd_def)
  moreover have "EventLoop_ctor K True epollfd evtfd False tid c read_cb = Inl NullDeref" if "evtfd \<ge> 0"
    using that by (simp add: EventLoop_ctor_def newDefaultPoller_def createEventfd_def)
  moreover have "handleEvent alive t ((add_reading (Channel_ctor evtfd))
      \<lparr>ch_index := kAdded, ch_readCallback := Some read_cb, ch_revents := EPOLLIN\<rparr>) = [InvokeAt read_cb t]" for t alive
    by (simp add: handleEvent_def handleEventWithGuard_def epoll_consts call_at_opt_def add_reading_def
        Channel_ctor_def Let_def)
  ultimately show ?thesis
    using EventLoop_ctor_new [OF assms, of epollfd evtfd tid c read_cb] new_loop_inv
    by (auto simp: new_loop_def not_less interest_def)
qed

theorem EventLoop_ctor_outcome_witness:
  "EventLoop_ctor ideal_kernel False 3 4 False 100 0 (7 :: nat) = Inr (new_loop 4 100 0 7) \<and>
   EventLoop_ctor ideal_kernel True 3 4 False 100 0 (7 :: nat) = Inl NullDeref"
  using EventLoop_ctor_outcome [OF ideal_kernel_sound(1), of False 3 4 False 100 0 "7 :: nat"]
    EventLoop_ctor_outcome [OF ideal_kernel_sound(1), of True 3 4 False 100 0 "7 :: nat"]
  by simp

text \<open>The queue of functors is a delivery queue.\<close>

definition functors_todo :: "'f machine \<Rightarrow> 'f list" where
  "functors_todo m = taken m @ pendingFunctors (lp m)"

interpretation functor_queue: delivery "\<lambda>m. \<exists>l. fresh_loop l \<and> m = machine_init l" loop_step machine_inv functors_todo ran
proof unfold_locales
  fix m m' :: "'f machine"
  assume inv: "machine_inv m" and "loop_step m m'"
  from this(2) show "delivers (functors_todo m, ran m) (functors_todo m', ran m')"
  proof (cases rule: loop_step.cases)
    case (push tid f)
    then show ?thesis using delivers.put [of "functors_todo m" "ran m" "[f]"]
      by (simp add: functors_todo_def taken_def queue_push_def)
  next
    case (run f fs)
    then show ?thesis by (simp add: functors_todo_def taken_def delivers_one)
  next
    case (swap fs l)
    from swap(3) have "pendingFunctors (lp m) = fs" "pendingFunctors l = []" by (auto simp: pending_swap_def)
    with swap(1,2) show ?thesis by (simp add: functors_todo_def taken_def)
  qed (simp_all add: functors_todo_def taken_def queue_notify_def wakeup_def quit_def loop_handleRead_def pending_begin_def
      pending_end_def Let_def)
next
  fix m m' :: "'f machine"
  assume "machine_inv m" "loop_step m m'"
  then show "machine_inv m'" by (blast intro: machine_inv_step)
next
  fix m :: "'f machine"
  assume "\<exists>l. fresh_loop l \<and> m = machine_init l"
  then obtain l where "fresh_loop l" "m = machine_init l" by blast
  then show "machine_inv m" "functors_todo m = [] \<and> ran m = []"
    using machine_inv_reach [OF loop_reach.start] by (simp_all add: functors_todo_def taken_def machine_init_def fresh_loop_def)
qed

lemma loop_reach_run: "loop_reach l m \<Longrightarrow> loop_step\<^sup>*\<^sup>* (machine_init l) m"
  by (induction rule: loop_reach.induct) (auto intro: rtranclp.rtrancl_into_rtrancl)

text \<open>
  Under every interleaving of the loop with other threads that queue functors, every
  functor queued has been run, is about to be run in this round, or is pending, each once
  and in the order of queueing.
\<close>

theorem functors_once_in_order:
  assumes "fresh_loop l" "loop_reach l m"
  shows "pushed m = ran m @ taken m @ pendingFunctors (lp m)"
  using machine_inv_reach [OF assms(2,1)] by (simp add: machine_inv_def)

text \<open>A run in which another thread queues a functor.\<close>

definition demo_machine :: "nat machine" where
  "demo_machine =
     (machine_init (new_loop 4 100 0 7))
       \<lparr>lp := queue_notify 101 (queue_push 9 (new_loop 4 100 0 7)), pushed := [9]\<rparr>"

lemma demo_machine_reach: "loop_reach (new_loop 4 100 0 7) demo_machine"
proof -
  let ?l = "new_loop 4 100 0 (7 :: nat)"
  let ?m0 = "machine_init ?l"
  let ?m1 = "?m0\<lparr>lp := queue_push 9 (lp ?m0), owing := 101 # owing ?m0, pushed := pushed ?m0 @ [9]\<rparr>"
  have "loop_step ?m0 ?m1"
    by (rule loop_step.push) (simp add: may_queue_def machine_init_def new_loop_def)
  then have 1: "loop_reach ?l ?m1" by (rule loop_reach.step [OF loop_reach.start])
  have "loop_step ?m1 (?m1\<lparr>lp := queue_notify 101 (lp ?m1), owing := remove1 101 (owing ?m1)\<rparr>)"
    by (rule loop_step.notify) simp
  from loop_reach.step [OF 1 this] show ?thesis
    by (simp add: demo_machine_def machine_init_def)
qed

theorem functors_once_in_order_witness:
  "pushed demo_machine = ran demo_machine @ taken demo_machine @ pendingFunctors (lp demo_machine) \<and>
   pendingFunctors (lp demo_machine) = [9]"
  using functors_once_in_order [OF fresh_new_loop demo_machine_reach]
  by (simp add: demo_machine_def machine_init_def taken_def queue_notify_def queue_push_def wakeup_def
      new_loop_def isInLoopThread_def)



text \<open>
  C5: no wakeup is lost. Whenever the loop's thread is at \<^verbatim>\<open>epoll_wait\<close> with functors
  pending and no \<open>queueInLoop\<close> is half way, the eventfd is readable, so the poll returns at
  once; and from there the loop alone runs every functor queued so far.
\<close>

theorem no_lost_wakeup:
  assumes "fresh_loop l" "loop_reach l m" "phase m = AtPoll" "owing m = []"
  shows "(pendingFunctors (lp m) \<noteq> [] \<longrightarrow> eventfd_count (wakeupFd (lp m)) (trace (lp m)) > 0) \<and>
    (\<exists>m'. loop_step\<^sup>*\<^sup>* m m' \<and> phase m' = AtPoll \<and> ran m' = pushed m \<and> pushed m' = pushed m)"
proof -
  have inv: "machine_inv m" by (rule machine_inv_reach [OF assms(2,1)])
  then have "pendingFunctors (lp m) \<noteq> [] \<longrightarrow> eventfd_count (wakeupFd (lp m)) (trace (lp m)) > 0"
    using assms(3,4) by (simp add: machine_inv_def wake_count_def)
  moreover have idle: "loop_idle m" using assms(4) by (simp add: loop_idle_def)
  obtain m' where "loop_step\<^sup>*\<^sup>* m m'" "phase m' = AtPoll" "ran m' = ran m @ pendingFunctors (lp m)"
    "pushed m' = pushed m"
    by (rule full_round [OF assms(3) idle])
  moreover have "pushed m = ran m @ pendingFunctors (lp m)"
    using inv assms(3) by (simp add: machine_inv_def taken_def)
  ultimately show ?thesis by metis
qed

theorem no_lost_wakeup_witness:
  "eventfd_count 4 (trace (lp demo_machine)) > 0 \<and>
   (\<exists>m'. loop_step\<^sup>*\<^sup>* demo_machine m' \<and> ran m' = [9])"
proof -
  have "phase demo_machine = AtPoll" "owing demo_machine = []" "pushed demo_machine = [9]"
    "wakeupFd (lp demo_machine) = 4" "pendingFunctors (lp demo_machine) \<noteq> []"
    by (simp_all add: demo_machine_def machine_init_def queue_notify_def queue_push_def wakeup_def new_loop_def)
  with no_lost_wakeup [OF fresh_new_loop demo_machine_reach] show ?thesis by auto
qed

text \<open>
  One call of \<open>doPendingFunctors\<close> runs the functors that were pending when it began and
  no others: those that they queue stay for the next turn, in order, and the eventfd has
  been written for each of them, so that the next poll does not block on them.
\<close>

theorem doPendingFunctors_round:
  "\<exists>s'. doPendingFunctors (queueing_exec q) s = Inr s' \<and>
     pendingFunctors s' = concat (map q (pendingFunctors s)) \<and> \<not> callingPendingFunctors s' \<and>
     eventfd_count (wakeupFd s) (trace s') =
       length (concat (map q (pendingFunctors s))) + eventfd_count (wakeupFd s) (trace s)"
proof -
  let ?s = "s\<lparr>callingPendingFunctors := True, pendingFunctors := []\<rparr>"
  show ?thesis
    using run_all_queueing [of ?s q "pendingFunctors s"]
    by (auto simp: doPendingFunctors_def pending_swap_def pending_begin_def pending_end_def)
qed

text \<open>
  \<open>loop\<close> clears the quit flag when it starts: a \<open>quit\<close> made before it has no effect, and
  from the loop's own thread it leaves no trace at all. A flag set during a turn ends the
  loop after that turn, with \<open>looping_\<close> cleared and no further poll.
\<close>

theorem quit_before_loop_is_lost:
  "loop exec alive ws (quit (threadId s) s) = loop exec alive ws s \<and>
   (loop_iteration exec alive w s0 = Inr s1 \<longrightarrow> \<not> quit_flag s0 \<longrightarrow> quit_flag s1 \<longrightarrow>
     loop_while exec alive (w # ws) s0 = Inr (Stopped (s1\<lparr>looping := False\<rparr>)))"
  by (simp add: loop_def quit_def isInLoopThread_def loop_while.simps Let_def)

theorem quit_before_loop_is_lost_witness:
  "loop (\<lambda>i s. Inr (quit 100 s)) (\<lambda>c s. True) [] (quit 100 (new_loop 4 100 0 (7 :: nat))) =
     Inr (Blocked ((new_loop 4 100 0 7)\<lparr>looping := True\<rparr>)) \<and>
   loop_while (\<lambda>i s. Inr (quit 100 s)) (\<lambda>c s. True) [(WaitEvents [], 5), (WaitEvents [], 6)]
     ((new_loop 4 100 0 (7 :: nat))\<lparr>looping := True, pendingFunctors := [9]\<rparr>) =
     Inr (Stopped ((new_loop 4 100 0 7)\<lparr>looping := False, quit_flag := True, pollReturnTime := 5\<rparr>))"
proof -
  let ?l = "new_loop 4 100 0 (7 :: nat)" and ?exec = "\<lambda>i s. Inr (quit 100 s)"
  let ?s0 = "?l\<lparr>looping := True, pendingFunctors := [9]\<rparr>"
  let ?s1 = "?l\<lparr>looping := True, quit_flag := True, pollReturnTime := 5\<rparr>"
  have "quit 100 ?l = quit (threadId ?l) ?l" by (simp add: new_loop_def)
  then have "loop ?exec (\<lambda>c s. True) [] (quit 100 ?l) = loop ?exec (\<lambda>c s. True) [] ?l"
    using conjunct1 [OF quit_before_loop_is_lost] by metis
  moreover have "loop ?exec (\<lambda>c s. True) [] ?l = Inr (Blocked (?l\<lparr>looping := True\<rparr>))"
    by (simp add: loop_def loop_while.simps new_loop_def)
  moreover have "loop_iteration ?exec (\<lambda>c s. True) (WaitEvents [], 5) ?s0 = Inr ?s1"
    by (simp add: loop_iteration_def poll_def doPendingFunctors_def loop_frame_defs new_loop_def
        Timestamp_now_def quit_def)
  then have "loop_while ?exec (\<lambda>c s. True) [(WaitEvents [], 5), (WaitEvents [], 6)] ?s0 =
      Inr (Stopped (?s1\<lparr>looping := False\<rparr>))"
    using conjunct2 [OF quit_before_loop_is_lost, of ?exec "\<lambda>c s. True" "(WaitEvents [], 5)" ?s0 ?s1]
    by (simp add: new_loop_def)
  ultimately show ?thesis by (simp add: new_loop_def)
qed

end
