(* ===== verification/InetAddress.thy ===== *)
theory InetAddress
  imports Prelude
begin

unbundle bit_operations_syntax

text \<open>
  Byte order and socket addresses (\<^verbatim>\<open>src/Endian.h\<close>, \<^verbatim>\<open>InetAddress.h\<close>, \<^verbatim>\<open>InetAddress.cpp\<close>), on a
  little-endian host. The fields of \<^verbatim>\<open>sockaddr_in\<close> are kept in network order, as the
  structure has them. \<^verbatim>\<open>inet_addr\<close>, a library function that reads several notations, is
  a parameter; what is relied on is its value on dotted decimal addresses.

  What is shown: the conversions between host and network order are inverse, and the
  address and port given to the constructor are the ones printed back.
\<close>

subsection \<open>Byte order\<close>

definition byte_swap :: "nat \<Rightarrow> 'a::len word \<Rightarrow> 'a word" where
  "byte_swap n w =
     foldr (\<lambda>i acc. push_bit (8 * (n - 1 - i)) (take_bit 8 (drop_bit (8 * i) w)) OR acc) [0..<n] 0"

definition hostToNetwork64 :: "64 word \<Rightarrow> 64 word" where
  "hostToNetwork64 host64 = byte_swap 8 host64"

definition hostToNetwork32 :: "32 word \<Rightarrow> 32 word" where
  "hostToNetwork32 host32 = byte_swap 4 host32"

definition hostToNetwork16 :: "16 word \<Rightarrow> 16 word" where
  "hostToNetwork16 host16 = byte_swap 2 host16"

definition networkToHost64 :: "64 word \<Rightarrow> 64 word" where
  "networkToHost64 net64 = byte_swap 8 net64"

definition networkToHost32 :: "32 word \<Rightarrow> 32 word" where
  "networkToHost32 net32 = byte_swap 4 net32"

definition networkToHost16 :: "16 word \<Rightarrow> 16 word" where
  "networkToHost16 net16 = byte_swap 2 net16"

lemma bit_or_foldr:
  "bit (foldr (\<lambda>i acc. f i OR acc) is (0 :: 'a::len word)) k \<longleftrightarrow> (\<exists>i \<in> set is. bit (f i) k)"
  by (induction "is") (auto simp: bit_or_iff)

lemma bit_byte_swap:
  assumes "LENGTH('a::len) = 8 * n"
  shows "bit (byte_swap n (w :: 'a word)) k \<longleftrightarrow> k < 8 * n \<and> bit w (8 * (n - 1 - k div 8) + k mod 8)"
proof
  assume "bit (byte_swap n w) k"
  then obtain i where i: "i < n" "8 * (n - 1 - i) \<le> k" "k < 8 * n" "k - 8 * (n - 1 - i) < 8"
    "bit w (8 * i + (k - 8 * (n - 1 - i)))"
    using assms by (auto simp: byte_swap_def bit_or_foldr bit_simps)
  then have "k div 8 = n - 1 - i" by (intro div_nat_eqI) simp_all
  with i show "k < 8 * n \<and> bit w (8 * (n - 1 - k div 8) + k mod 8)"
    by (simp add: modulo_nat_def mult.commute)
next
  assume k: "k < 8 * n \<and> bit w (8 * (n - 1 - k div 8) + k mod 8)"
  then have "k div 8 < n" by (simp add: less_mult_imp_div_less mult.commute)
  moreover have "k - 8 * (k div 8) = k mod 8" by (simp add: modulo_nat_def)
  moreover have "8 * (k div 8) \<le> k" by simp
  ultimately show "bit (byte_swap n w) k"
    using k assms
    by (auto simp: byte_swap_def bit_or_foldr bit_simps intro!: bexI [of _ "n - 1 - k div 8"])
qed

lemma byte_swap_twice:
  assumes "LENGTH('a::len) = 8 * n"
  shows "byte_swap n (byte_swap n (w :: 'a word)) = w"
proof (rule bit_word_eqI)
  fix k
  assume "k < LENGTH('a)"
  with assms have k: "k < 8 * n" by simp
  then have d: "k div 8 < n" by (simp add: less_mult_imp_div_less mult.commute)
  let ?k = "8 * (n - 1 - k div 8) + k mod 8"
  have q: "?k div 8 = n - 1 - k div 8" "?k mod 8 = k mod 8" by simp_all
  have "?k < 8 * n" using d by (simp add: less_mult_imp_div_less)
  moreover have "8 * (n - 1 - (n - 1 - k div 8)) + k mod 8 = k" using d by simp
  ultimately show "bit (byte_swap n (byte_swap n w)) k = bit w k"
    using k unfolding bit_byte_swap [OF assms] q by simp
qed

lemma network_order_roundtrip [simp]:
  "networkToHost64 (hostToNetwork64 a) = a" "networkToHost32 (hostToNetwork32 b) = b"
  "networkToHost16 (hostToNetwork16 c) = c"
  by (simp_all add: networkToHost64_def hostToNetwork64_def networkToHost32_def hostToNetwork32_def
      networkToHost16_def hostToNetwork16_def byte_swap_twice)

subsection \<open>Socket addresses\<close>

text \<open>
  The address of \<^verbatim>\<open>sockaddr_in\<close>, \<^verbatim>\<open>s_addr\<close>, is a 32-bit word whose bytes in memory, the lowest
  first, are the four numbers of the dotted notation. \<^verbatim>\<open>htons\<close> and \<^verbatim>\<open>ntohs\<close> are the
  16-bit conversions of the C library.
\<close>

record sockaddr_in =
  sin_family :: nat
  sin_port :: "16 word"
  s_addr :: "32 word"

definition AF_INET :: nat where "AF_INET = 2"
definition AF_INET6 :: nat where "AF_INET6 = 10"

definition addr_byte :: "nat \<Rightarrow> 32 word \<Rightarrow> nat" where
  "addr_byte i a = unat (take_bit 8 (drop_bit (8 * i) a))"

definition dotted :: "nat \<Rightarrow> nat \<Rightarrow> nat \<Rightarrow> nat \<Rightarrow> string" where
  "dotted a b c d = dec a @ ''.'' @ dec b @ ''.'' @ dec c @ ''.'' @ dec d"

definition inet_ntop4 :: "32 word \<Rightarrow> string" where
  "inet_ntop4 a = dotted (addr_byte 0 a) (addr_byte 1 a) (addr_byte 2 a) (addr_byte 3 a)"

definition InetAddress_ctor :: "(string \<Rightarrow> 32 word) \<Rightarrow> 16 word \<Rightarrow> string \<Rightarrow> sockaddr_in" where
  "InetAddress_ctor inet_addr port ip =
     \<lparr>sin_family = AF_INET, sin_port = hostToNetwork16 port, s_addr = inet_addr ip\<rparr>"

text \<open>The printers write into an array of 64 bytes; \<open>sprintf\<close> past its end is out of range.\<close>

definition toIp :: "sockaddr_in \<Rightarrow> string" where
  "toIp addr = inet_ntop4 (s_addr addr)"

definition toIpPort :: "sockaddr_in \<Rightarrow> string res" where
  "toIpPort addr =
     (let buf = inet_ntop4 (s_addr addr) @ '':'' @ dec (unat (networkToHost16 (sin_port addr)))
      in if length buf + 1 \<le> 64 then Inr buf else Inl OutOfRange)"

definition toPort :: "sockaddr_in \<Rightarrow> 16 word" where
  "toPort addr = networkToHost16 (sin_port addr)"

text \<open>What is relied on: \<^verbatim>\<open>inet_addr\<close> reads a dotted decimal address.\<close>

definition quad_addr :: "nat \<Rightarrow> nat \<Rightarrow> nat \<Rightarrow> nat \<Rightarrow> 32 word" where
  "quad_addr a b c d = of_nat (a + 256 * (b + 256 * (c + 256 * d)))"

definition reads_dotted :: "(string \<Rightarrow> 32 word) \<Rightarrow> bool" where
  "reads_dotted inet_addr \<longleftrightarrow>
     (\<forall>a < 256. \<forall>b < 256. \<forall>c < 256. \<forall>d < 256. inet_addr (dotted a b c d) = quad_addr a b c d)"

lemma addr_byte_eq: "addr_byte i a = unat a div 2 ^ (8 * i) mod 256"
  unfolding addr_byte_def unsigned_take_bit_eq unat_drop_bit_eq
  by (simp add: take_bit_eq_mod drop_bit_eq_div)

lemma addr_byte_quad:
  assumes "a < 256" "b < 256" "c < 256" "d < 256"
  shows "addr_byte 0 (quad_addr a b c d) = a" "addr_byte 1 (quad_addr a b c d) = b"
    "addr_byte 2 (quad_addr a b c d) = c" "addr_byte 3 (quad_addr a b c d) = d"
proof -
  let ?n = "a + 256 * (b + 256 * (c + 256 * d))"
  have n: "unat (quad_addr a b c d) = ?n"
    unfolding quad_addr_def unat_of_nat using assms by simp
  have byte: "addr_byte i (quad_addr a b c d) = ?n div 2 ^ (8 * i) mod 256" for i
    by (simp add: addr_byte_eq n)
  have digit: "(x + 256 * y) div 256 = y" "(x + 256 * y) mod 256 = x" if "x < 256" for x y :: nat
    using that by simp_all
  show "addr_byte 0 (quad_addr a b c d) = a" "addr_byte 1 (quad_addr a b c d) = b"
    "addr_byte 2 (quad_addr a b c d) = c" "addr_byte 3 (quad_addr a b c d) = d"
    unfolding byte using assms digit by (simp_all add: div_mult2_eq [of _ 256 256, simplified]
        div_mult2_eq [of _ 65536 256, simplified] del: distrib_left_numeral)
qed

lemma toIpPort_bounds:
  "length (toIp addr @ '':'' @ dec (unat (toPort addr))) \<le> 21"
proof -
  have b: "length (dec (addr_byte i a)) \<le> 3" for i a
  proof (rule length_dec_le)
    have "addr_byte i a < 256" by (simp add: addr_byte_eq)
    then show "addr_byte i a < 10 ^ 3" by simp
  qed simp
  have "unat (toPort addr) < 10 ^ 5"
    using unsigned_less [of "toPort addr", where ?'a = nat] by simp
  then have p: "length (dec (unat (toPort addr))) \<le> 5" by (rule length_dec_le) simp
  have "length (inet_ntop4 a) \<le> 15" for a
    using b [of 0 a] b [of 1 a] b [of 2 a] b [of 3 a] by (simp add: inet_ntop4_def dotted_def)
  from this [of "s_addr addr"] p show ?thesis by (simp add: toIp_def)
qed

lemma toIpPort_fits: "toIpPort addr = Inr (toIp addr @ '':'' @ dec (unat (toPort addr)))"
  using toIpPort_bounds [of addr] by (simp add: toIpPort_def toIp_def toPort_def Let_def)

lemma toIpPort_length: "toIpPort addr = Inr s \<Longrightarrow> length s \<le> 21"
  using toIpPort_bounds [of addr] toIpPort_fits [of addr] by auto

text \<open>
  The port and the dotted address given to the constructor are the ones that \<open>toPort\<close>,
  \<open>toIp\<close> and \<open>toIpPort\<close> give back, and the text always fits the array it is written to.
\<close>

theorem InetAddress_roundtrip:
  assumes "reads_dotted inet_addr" "a < 256" "b < 256" "c < 256" "d < 256"
  shows "toPort (InetAddress_ctor inet_addr port (dotted a b c d)) = port \<and>
    toIp (InetAddress_ctor inet_addr port (dotted a b c d)) = dotted a b c d \<and>
    toIpPort (InetAddress_ctor inet_addr port (dotted a b c d)) =
      Inr (dotted a b c d @ '':'' @ dec (unat port))"
proof -
  have "inet_addr (dotted a b c d) = quad_addr a b c d"
    using assms by (simp add: reads_dotted_def)
  then have "toIp (InetAddress_ctor inet_addr port (dotted a b c d)) = dotted a b c d"
    using addr_byte_quad [OF assms(2-5)] by (simp add: toIp_def InetAddress_ctor_def inet_ntop4_def)
  moreover have "toPort (InetAddress_ctor inet_addr port (dotted a b c d)) = port"
    by (simp add: toPort_def InetAddress_ctor_def)
  ultimately show ?thesis by (simp add: toIpPort_fits)
qed

text \<open>A reader of dotted decimal addresses, to show that the assumption can hold.\<close>

definition dot_field :: "string \<Rightarrow> string \<times> string" where
  "dot_field s = (takeWhile (\<lambda>c. c \<noteq> CHR ''.'') s, drop 1 (dropWhile (\<lambda>c. c \<noteq> CHR ''.'') s))"

definition dotted_reader :: "string \<Rightarrow> 32 word" where
  "dotted_reader s =
     (let (a, s1) = dot_field s; (b, s2) = dot_field s1; (c, s3) = dot_field s2
      in quad_addr (nat (atoi a)) (nat (atoi b)) (nat (atoi c)) (nat (atoi s3)))"

lemma dot_field_dec: "dot_field (dec n @ ''.'' @ r) = (dec n, r)"
proof -
  have "\<forall>c \<in> set (dec n). c \<noteq> CHR ''.''" using dec_digits [of "CHR ''.''" n] by (auto simp: isdigit_def)
  then show ?thesis by (simp add: dot_field_def)
qed

lemma dotted_reader_reads: "reads_dotted dotted_reader"
  unfolding reads_dotted_def dotted_def dotted_reader_def dot_field_dec prod.case Let_def
  by (simp add: atoi_dec)

theorem InetAddress_roundtrip_witness:
  "toIpPort (InetAddress_ctor dotted_reader 8080 (dotted 127 0 0 1)) = Inr (dotted 127 0 0 1 @ '':'' @ dec 8080)"
  using InetAddress_roundtrip [OF dotted_reader_reads, of 127 0 0 1 8080] by simp

end
