(* ===== verification/Socket.thy ===== *)
theory Socket
  imports Poller
begin

text \<open>
  The class that owns a socket (\<^verbatim>\<open>src/Socket.h\<close>, \<^verbatim>\<open>Socket.cpp\<close>). An object is its descriptor; each
  operation is a system call recorded in the trace of the loop's state. The results of
  \<^verbatim>\<open>bind\<close>, \<^verbatim>\<open>listen\<close> and \<^verbatim>\<open>accept4\<close> are arguments; those of \<^verbatim>\<open>shutdown\<close> and \<^verbatim>\<open>setsockopt\<close> are not
  looked at, but for a message in the log.
\<close>

definition Socket_dtor :: "int \<Rightarrow> ('f, 'z) reactor_scheme \<Rightarrow> ('f, 'z) reactor_scheme" where
  [simp]: "Socket_dtor sockfd s = log_sys (SockClose sockfd) s"

definition bindAddress :: "bool \<Rightarrow> int \<Rightarrow> ('f, 'z) reactor_scheme \<Rightarrow> ('f, 'z) reactor_scheme res" where
  "bindAddress ok sockfd s = (if ok then Inr (log_sys (SockBind sockfd) s) else Inl ExitProcess)"

definition Socket_listen :: "bool \<Rightarrow> int \<Rightarrow> ('f, 'z) reactor_scheme \<Rightarrow> ('f, 'z) reactor_scheme res" where
  "Socket_listen ok sockfd s = (if ok then Inr (log_sys (SockListen sockfd) s) else Inl ExitProcess)"

definition Socket_accept ::
  "int \<Rightarrow> int \<Rightarrow> ('f, 'z) reactor_scheme \<Rightarrow> int \<times> ('f, 'z) reactor_scheme" where
  "Socket_accept connfd sockfd s = (connfd, log_sys (SockAccept sockfd connfd) s)"

definition Socket_shutdownWrite :: "int \<Rightarrow> ('f, 'z) reactor_scheme \<Rightarrow> ('f, 'z) reactor_scheme" where
  [simp]: "Socket_shutdownWrite sockfd s = log_sys (SockShutdownWr sockfd) s"

text \<open>The options; switching one off is an event of its own.\<close>

definition setTcpNoDelay :: "bool \<Rightarrow> int \<Rightarrow> ('f, 'z) reactor_scheme \<Rightarrow> ('f, 'z) reactor_scheme" where
  "setTcpNoDelay on sockfd s = log_sys (SockNoDelay sockfd on) s"

definition setReuseAddr :: "bool \<Rightarrow> int \<Rightarrow> ('f, 'z) reactor_scheme \<Rightarrow> ('f, 'z) reactor_scheme" where
  "setReuseAddr on sockfd s =
     log_sys (if on then SockReuseAddr sockfd else SockOptOff sockfd ''SO_REUSEADDR'') s"

definition setReusePort :: "bool \<Rightarrow> int \<Rightarrow> ('f, 'z) reactor_scheme \<Rightarrow> ('f, 'z) reactor_scheme" where
  "setReusePort on sockfd s =
     log_sys (if on then SockReusePort sockfd else SockOptOff sockfd ''SO_REUSEPORT'') s"

definition setKeepAlive :: "bool \<Rightarrow> int \<Rightarrow> ('f, 'z) reactor_scheme \<Rightarrow> ('f, 'z) reactor_scheme" where
  [simp]: "setKeepAlive on sockfd s =
     log_sys (if on then SockKeepAlive sockfd else SockOptOff sockfd ''SO_KEEPALIVE'') s"

text \<open>No call on a socket touches the channels, the poller's map or the interest list.\<close>

lemma Socket_calls_keep_poller:
  "poller_inv (Socket_dtor fd s) = poller_inv s" "poller_inv (Socket_shutdownWrite fd s) = poller_inv s"
  "poller_inv (setTcpNoDelay on fd s) = poller_inv s" "poller_inv (setReuseAddr on fd s) = poller_inv s"
  "poller_inv (setReusePort on fd s) = poller_inv s" "poller_inv (setKeepAlive on fd s) = poller_inv s"
  by (simp_all add: setTcpNoDelay_def setReuseAddr_def setReusePort_def log_sys_def poller_inv_def channel_ok_def)

end
