(* ===== verification/TcpConnection.thy ===== *)
theory TcpConnection
  imports EventLoop InetAddress Socket
begin

text \<open>
  A TCP connection (\<^verbatim>\<open>src/TcpConnection.h\<close>, \<^verbatim>\<open>TcpConnection.cpp\<close>, with theory \<open>Socket\<close> for the
  calls on its socket): its state machine, its two buffers and the channel it shares with
  the poller. The object is a record, its channel a heap address; every handler maps the
  connection and the state of its loop to new ones, or to a fault. The callbacks of the
  owner that run at once (connection, message, close) are functions on the same state, in
  \<open>conn_callbacks\<close>; those that are queued (write complete, high-water mark) are functors.
  An empty \<^verbatim>\<open>std::function\<close> is absent, and calling it is \<^verbatim>\<open>bad_function_call\<close>.

  What is shown: whatever the owner's callbacks do through the connection's interface, the
  bytes accepted by \<open>send\<close> reach the socket in order, without loss or duplication, what is
  not yet written waits in the output buffer, and the poller watches for writability
  exactly while the buffer holds something; the sending side is shut down only after
  everything accepted has been written, and nothing is written after it.
\<close>

datatype conn_state = kDisconnected | kConnecting | kConnected | kDisconnecting

record ('f, 'c) tcp_connection =
  conn_name :: string
  conn_state :: conn_state
  conn_reading :: bool
  conn_fd :: int
  conn_channel :: nat
  localAddr :: sockaddr_in
  peerAddr :: sockaddr_in
  writeCompleteCallback :: "'f option"
  highWaterMarkCallback :: "(nat \<Rightarrow> 'f) option"
  highWaterMark :: nat
  inputBuffer :: buffer
  outputBuffer :: buffer
  conn_context :: 'c

type_synonym ('f, 'c, 'z) conn_st = "('f, 'c) tcp_connection \<times> ('f, 'z) event_loop_scheme"

record 'st conn_callbacks =
  connectionCallback :: "('st \<Rightarrow> 'st res) option"
  messageCallback :: "(timestamp \<Rightarrow> 'st \<Rightarrow> 'st res) option"
  closeCallback :: "('st \<Rightarrow> 'st res) option"

text \<open>A new object has no callback; its owner sets them.\<close>

definition no_callbacks :: "'st conn_callbacks" where
  [simp]: "no_callbacks = \<lparr>connectionCallback = None, messageCallback = None, closeCallback = None\<rparr>"

definition setConnectionCallback :: "('st \<Rightarrow> 'st res) option \<Rightarrow> 'st conn_callbacks \<Rightarrow> 'st conn_callbacks" where
  [simp]: "setConnectionCallback cb c = c\<lparr>connectionCallback := cb\<rparr>"

definition setMessageCallback ::
  "(timestamp \<Rightarrow> 'st \<Rightarrow> 'st res) option \<Rightarrow> 'st conn_callbacks \<Rightarrow> 'st conn_callbacks" where
  [simp]: "setMessageCallback cb c = c\<lparr>messageCallback := cb\<rparr>"

definition setCloseCallback :: "('st \<Rightarrow> 'st res) option \<Rightarrow> 'st conn_callbacks \<Rightarrow> 'st conn_callbacks" where
  [simp]: "setCloseCallback cb c = c\<lparr>closeCallback := cb\<rparr>"

definition call_cb :: "('st \<Rightarrow> 'st res) option \<Rightarrow> 'st \<Rightarrow> 'st res" where
  "call_cb cb st = (case cb of None \<Rightarrow> Inl BadFunctionCall | Some f \<Rightarrow> f st)"

text \<open>Error numbers of \<^verbatim>\<open><errno.h>\<close>.\<close>

definition EWOULDBLOCK :: nat where "EWOULDBLOCK = 11"
definition EPIPE :: nat where "EPIPE = 32"
definition ECONNRESET :: nat where "ECONNRESET = 104"

definition setState :: "conn_state \<Rightarrow> ('f, 'c) tcp_connection \<Rightarrow> ('f, 'c) tcp_connection" where
  "setState st cn = cn\<lparr>conn_state := st\<rparr>"

definition connected :: "('f, 'c) tcp_connection \<Rightarrow> bool" where
  "connected cn \<longleftrightarrow> conn_state cn = kConnected"

definition setHighWaterMarkCallback ::
  "(nat \<Rightarrow> 'f) option \<Rightarrow> nat \<Rightarrow> ('f, 'c) tcp_connection \<Rightarrow> ('f, 'c) tcp_connection" where
  "setHighWaterMarkCallback cb mark cn = cn\<lparr>highWaterMarkCallback := cb, highWaterMark := mark\<rparr>"

definition setWriteCompleteCallback ::
  "'f option \<Rightarrow> ('f, 'c) tcp_connection \<Rightarrow> ('f, 'c) tcp_connection" where
  "setWriteCompleteCallback cb cn = cn\<lparr>writeCompleteCallback := cb\<rparr>"

definition setContext :: "'c \<Rightarrow> ('f, 'c) tcp_connection \<Rightarrow> ('f, 'c) tcp_connection" where
  "setContext ctx cn = cn\<lparr>conn_context := ctx\<rparr>"

subsection \<open>Construction and destruction\<close>

text \<open>
  \<open>c\<close> is the address of the new channel; \<open>rd\<close>, \<open>wr\<close>, \<open>cl\<close>, \<open>er\<close> are the four handlers bound
  to the connection. A null loop ends the process.
\<close>

definition TcpConnection_ctor ::
  "('f, 'z) event_loop_scheme option \<Rightarrow> string \<Rightarrow> int \<Rightarrow> sockaddr_in \<Rightarrow> sockaddr_in \<Rightarrow> nat \<Rightarrow>
   'f \<Rightarrow> 'f \<Rightarrow> 'f \<Rightarrow> 'f \<Rightarrow> 'c \<Rightarrow> ('f, 'c, 'z) conn_st res" where
  "TcpConnection_ctor loop_ptr nameArg sockfd local peer c rd wr cl er ctx =
     (case loop_ptr of
        None \<Rightarrow> Inl ExitProcess
      | Some s \<Rightarrow>
          let cn = \<lparr>conn_name = nameArg, conn_state = kConnecting, conn_reading = True, conn_fd = sockfd,
                    conn_channel = c, localAddr = local, peerAddr = peer,
                    writeCompleteCallback = None, highWaterMarkCallback = None,
                    highWaterMark = 64 * 1024 * 1024, inputBuffer = Buffer_ctor kInitialSize,
                    outputBuffer = Buffer_ctor kInitialSize, conn_context = ctx\<rparr>;
              ch = (Channel_ctor sockfd)\<lparr>ch_readCallback := Some rd, ch_writeCallback := Some wr,
                    ch_closeCallback := Some cl, ch_errorCallback := Some er\<rparr>
          in Inr (cn, setKeepAlive True sockfd (new_channel c ch s)))"

text \<open>The members are destroyed in reverse order: the channel, then the socket, which closes.\<close>

definition TcpConnection_dtor ::
  "('f, 'c) tcp_connection \<Rightarrow> ('f, 'z) event_loop_scheme \<Rightarrow> ('f, 'z) event_loop_scheme" where
  "TcpConnection_dtor cn s = Socket_dtor (conn_fd cn) (delete_channel (conn_channel cn) s)"

subsection \<open>The handlers of the channel's events\<close>

definition handleClose ::
  "kernel \<Rightarrow> ('f, 'c, 'z) conn_st conn_callbacks \<Rightarrow> ('f, 'c, 'z) conn_st \<Rightarrow> ('f, 'c, 'z) conn_st res" where
  "handleClose K CB st =
     (case st of (cn, s) \<Rightarrow>
        let cn1 = setState kDisconnected cn
        in rbind (disableAll K (conn_channel cn) s) (\<lambda>s1.
           rbind (call_cb (connectionCallback CB) (cn1, s1))
             (call_cb (closeCallback CB))))"

text \<open>\<open>handleError\<close> asks for the socket's error and logs.\<close>

definition handleError :: "('f, 'c, 'z) conn_st \<Rightarrow> ('f, 'c, 'z) conn_st res" where
  "handleError st =
     (case st of (cn, s) \<Rightarrow>
        with_channel (conn_channel cn) s (\<lambda>ch. Inr (cn, log_sys (SockGetError (ch_fd ch)) s)))"

text \<open>The room \<open>readFd\<close> offers to \<^verbatim>\<open>readv\<close>, for the record of the call.\<close>

definition readv_room :: "buffer \<Rightarrow> nat" where
  "readv_room b =
     (if writeableBytes b < extrabuf_size then writeableBytes b + extrabuf_size else writeableBytes b)"

definition handleRead ::
  "kernel \<Rightarrow> ('f, 'c, 'z) conn_st conn_callbacks \<Rightarrow> timestamp \<Rightarrow>
   ('f, 'c, 'z) conn_st \<Rightarrow> ('f, 'c, 'z) conn_st res" where
  "handleRead K CB receiveTime st =
     (case st of (cn, s) \<Rightarrow>
        with_channel (conn_channel cn) s (\<lambda>ch.
          let rd = k_readv K (trace s) (ch_fd ch);
              (inb, n, e) = readFd rd (inputBuffer cn);
              cn1 = cn\<lparr>inputBuffer := inb\<rparr>;
              s1 = log_sys (SockRead (ch_fd ch) (rd (readv_room (inputBuffer cn)))) s
          in if n > 0 then
               (case messageCallback CB of
                  None \<Rightarrow> Inl BadFunctionCall
                | Some cb \<Rightarrow> cb receiveTime (cn1, s1))
             else if n = 0 then handleClose K CB (cn1, s1)
             else handleError (cn1, s1)))"

definition shutdownInLoop :: "('f, 'c, 'z) conn_st \<Rightarrow> ('f, 'c, 'z) conn_st res" where
  "shutdownInLoop st =
     (case st of (cn, s) \<Rightarrow>
        with_channel (conn_channel cn) s (\<lambda>ch.
          if \<not> isWriting ch then Inr (cn, Socket_shutdownWrite (conn_fd cn) s)
          else Inr (cn, s)))"

definition queue_opt :: "int \<Rightarrow> 'f option \<Rightarrow> ('f, 'z) event_loop_scheme \<Rightarrow> ('f, 'z) event_loop_scheme" where
  "queue_opt tid cb s = (case cb of None \<Rightarrow> s | Some f \<Rightarrow> queueInLoop tid f s)"

definition handleWrite ::
  "kernel \<Rightarrow> int \<Rightarrow> ('f, 'c, 'z) conn_st \<Rightarrow> ('f, 'c, 'z) conn_st res" where
  "handleWrite K tid st =
     (case st of (cn, s) \<Rightarrow>
        with_channel (conn_channel cn) s (\<lambda>ch.
          if isWriting ch then
            let out = outputBuffer cn;
                wr = k_write K (trace s) (ch_fd ch);
                (n, e) = writeFd wr out;
                d = mem out (peek out) (peek out + readableBytes out);
                s1 = log_sys (SockWrite (ch_fd ch) d (wr d)) s
            in if n > 0 then
                 let cn1 = cn\<lparr>outputBuffer := retrieve out (nat n)\<rparr>
                 in if readableBytes (outputBuffer cn1) = 0 then
                      rbind (disableWriting K (conn_channel cn) s1) (\<lambda>s2.
                        let s3 = queue_opt tid (writeCompleteCallback cn) s2
                        in if conn_state cn = kDisconnecting then shutdownInLoop (cn1, s3)
                           else Inr (cn1, s3))
                    else Inr (cn1, s1)
               else Inr (cn, s1)
          else Inr (cn, s)))"

subsection \<open>Sending\<close>

text \<open>\<open>sendInLoop\<close>: first the direct write, then what remains goes to the output buffer.\<close>

definition send_direct ::
  "kernel \<Rightarrow> int \<Rightarrow> bytes \<Rightarrow> 'f channel \<Rightarrow> ('f, 'c, 'z) conn_st \<Rightarrow>
   nat \<times> nat \<times> bool \<times> ('f, 'z) event_loop_scheme" where
  "send_direct K tid data ch st =
     (case st of (cn, s) \<Rightarrow>
        if \<not> isWriting ch \<and> readableBytes (outputBuffer cn) = 0 then
          let r = k_write K (trace s) (ch_fd ch) data;
              s1 = log_sys (SockWrite (ch_fd ch) data r) s
          in case r of
               WriteDone nwrote \<Rightarrow>
                 let remaining = length data - nwrote
                 in (nwrote, remaining, False,
                     if remaining = 0 then queue_opt tid (writeCompleteCallback cn) s1 else s1)
             | WriteErr e \<Rightarrow>
                 (0, length data, e \<noteq> EWOULDBLOCK \<and> (e = EPIPE \<or> e = ECONNRESET), s1)
        else (0, length data, False, s))"

definition sendInLoop ::
  "kernel \<Rightarrow> int \<Rightarrow> bytes \<Rightarrow> ('f, 'c, 'z) conn_st \<Rightarrow> ('f, 'c, 'z) conn_st res" where
  "sendInLoop K tid data st =
     (case st of (cn, s) \<Rightarrow>
        if conn_state cn = kDisconnected then Inr (cn, s)
        else with_channel (conn_channel cn) s (\<lambda>ch.
          let (nwrote, remaining, faultError, s1) = send_direct K tid data ch (cn, s)
          in if \<not> faultError \<and> remaining > 0 then
               let oldLen = readableBytes (outputBuffer cn);
                   s2 = (if oldLen + remaining > highWaterMark cn \<and> oldLen < highWaterMark cn
                         then queue_opt tid (map_option (\<lambda>f. f (oldLen + remaining)) (highWaterMarkCallback cn)) s1
                         else s1);
                   cn1 = cn\<lparr>outputBuffer := append_buf (outputBuffer cn) (take remaining (drop nwrote data))\<rparr>
               in if \<not> isWriting ch then
                    rbind (enableWriting K (conn_channel cn) s2) (\<lambda>s3. Inr (cn1, s3))
                  else Inr (cn1, s2)
             else Inr (cn, s1)))"

text \<open>
  \<open>send\<close> from another thread queues \<open>sendInLoop\<close> bound to the address and length of the
  caller's bytes, not to the bytes: \<open>bind_send\<close> makes that functor. In the loop's thread
  the buffer version empties the caller's buffer, from another thread it does not.
\<close>

definition send ::
  "kernel \<Rightarrow> int \<Rightarrow> (nat \<Rightarrow> nat \<Rightarrow> 'f) \<Rightarrow> nat \<Rightarrow> bytes \<Rightarrow>
   ('f, 'c, 'z) conn_st \<Rightarrow> ('f, 'c, 'z) conn_st res" where
  "send K tid bind_send addr buf st =
     (case st of (cn, s) \<Rightarrow>
        if conn_state cn = kConnected then
          if isInLoopThread tid s then sendInLoop K tid buf (cn, s)
          else Inr (cn, queueInLoop tid (bind_send addr (length buf)) s)
        else Inr (cn, s))"

definition send_Buffer ::
  "kernel \<Rightarrow> int \<Rightarrow> (nat \<Rightarrow> nat \<Rightarrow> 'f) \<Rightarrow> nat \<Rightarrow> buffer \<Rightarrow>
   ('f, 'c, 'z) conn_st \<Rightarrow> (buffer \<times> ('f, 'c, 'z) conn_st) res" where
  "send_Buffer K tid bind_send addr buf st =
     (case st of (cn, s) \<Rightarrow>
        if conn_state cn = kConnected then
          if isInLoopThread tid s then
            rbind (sendInLoop K tid (mem buf (peek buf) (peek buf + readableBytes buf)) (cn, s)) (\<lambda>st'.
              Inr (retrieveAll buf, st'))
          else Inr (buf, cn, queueInLoop tid (bind_send (addr + peek buf) (readableBytes buf)) s)
        else Inr (buf, cn, s))"

definition shutdown ::
  "int \<Rightarrow> 'f \<Rightarrow> ('f, 'c, 'z) conn_st \<Rightarrow> ('f, 'c, 'z) conn_st res" where
  "shutdown tid shut_functor st =
     (case st of (cn, s) \<Rightarrow>
        if conn_state cn = kConnected then
          let cn1 = setState kDisconnecting cn
          in if isInLoopThread tid s then shutdownInLoop (cn1, s)
             else Inr (cn1, queueInLoop tid shut_functor s)
        else Inr (cn, s))"

subsection \<open>Establishing and destroying\<close>

definition connectEstablished ::
  "kernel \<Rightarrow> ('f, 'c, 'z) conn_st conn_callbacks \<Rightarrow> ('f, 'c, 'z) conn_st \<Rightarrow> ('f, 'c, 'z) conn_st res" where
  "connectEstablished K CB st =
     (case st of (cn, s) \<Rightarrow>
        let cn1 = setState kConnected cn
        in with_channel (conn_channel cn) s (\<lambda>ch.
             rbind (enableReading K (conn_channel cn) (s\<lparr>heap := (heap s)(conn_channel cn \<mapsto> tie ch)\<rparr>)) (\<lambda>s1.
               call_cb (connectionCallback CB) (cn1, s1))))"

definition connectDestroyed ::
  "kernel \<Rightarrow> ('f, 'c, 'z) conn_st conn_callbacks \<Rightarrow> ('f, 'c, 'z) conn_st \<Rightarrow> ('f, 'c, 'z) conn_st res" where
  "connectDestroyed K CB st =
     (case st of (cn, s) \<Rightarrow>
        rbind (if conn_state cn = kConnected then
                 rbind (disableAll K (conn_channel cn) s) (\<lambda>s1.
                   call_cb (connectionCallback CB) (setState kDisconnected cn, s1))
               else Inr (cn, s))
          (\<lambda>(cn2, s2). rbind (Channel_remove K (conn_channel cn2) s2) (\<lambda>s3. Inr (cn2, s3))))"

subsection \<open>The life of a connection, as its owner sees it\<close>

text \<open>
  History that the program does not store, as extra fields of the loop's state: the bytes
  the connection has accepted for sending, those its owner has taken from the input
  buffer, and the length of the trace when the connection was made (the number of its
  descriptor may have been used before).
\<close>

record 'f client_loop = "'f event_loop" +
  accepted_bytes :: bytes
  consumed_bytes :: bytes
  born :: nat

type_synonym ('f, 'c, 'z) client_st = "('f, 'c) tcp_connection \<times> ('f, 'z) client_loop_scheme"

definition life :: "('f, 'z) client_loop_scheme \<Rightarrow> sysevent list" where
  "life s = drop (born s) (trace s)"

definition conn_inv :: "('f, 'c, 'z) conn_st \<Rightarrow> bool" where
  "conn_inv st \<longleftrightarrow>
     (case st of (cn, s) \<Rightarrow>
        poller_inv s \<and> can_register s (conn_channel cn) \<and>
        buffer_inv (inputBuffer cn) \<and> buffer_inv (outputBuffer cn) \<and>
        (\<exists>ch. heap s (conn_channel cn) = Some ch \<and> ch_fd ch = conn_fd cn \<and>
           (isWriting ch \<longleftrightarrow> conn_state cn \<noteq> kDisconnected \<and> readable (outputBuffer cn) \<noteq> [])))"

definition io_inv ::
  "int \<Rightarrow> conn_state \<Rightarrow> bytes \<Rightarrow> bytes \<Rightarrow> bytes \<Rightarrow> bytes \<Rightarrow> sysevent list \<Rightarrow> bool" where
  "io_inv fd st inp out acc con tr \<longleftrightarrow>
     acc = sent fd tr @ out \<and> received fd tr = con @ inp \<and> no_write_after_shutdown fd tr \<and>
     (SockShutdownWr fd \<in> set tr \<longrightarrow> out = [] \<and> st \<in> {kDisconnecting, kDisconnected})"

definition stream_inv :: "('f, 'c, 'z) client_st \<Rightarrow> bool" where
  "stream_inv st \<longleftrightarrow>
     (case st of (cn, s) \<Rightarrow>
        conn_inv (cn, s) \<and> born s \<le> length (trace s) \<and>
        io_inv (conn_fd cn) (conn_state cn) (readable (inputBuffer cn)) (readable (outputBuffer cn))
          (accepted_bytes s) (consumed_bytes s) (life s))"

text \<open>Events that do not concern a descriptor's stream.\<close>

fun quiet_event :: "int \<Rightarrow> sysevent \<Rightarrow> bool" where
  "quiet_event fd (SockWrite fd' d r) \<longleftrightarrow> fd' \<noteq> fd"
| "quiet_event fd (SockRead fd' r) \<longleftrightarrow> fd' \<noteq> fd"
| "quiet_event fd (SockShutdownWr fd') \<longleftrightarrow> fd' \<noteq> fd"
| "quiet_event fd _ \<longleftrightarrow> True"

lemma quiet_event_effect:
  assumes "quiet_event fd e"
  shows "accepted fd e = []" "delivered fd e = []" "\<not> writes_to fd e" "e \<noteq> SockShutdownWr fd"
proof -
  show "accepted fd e = []"
    using assms by (cases "(fd, e)" rule: accepted.cases) auto
  show "delivered fd e = []"
    using assms by (cases "(fd, e)" rule: delivered.cases) auto
  show "\<not> writes_to fd e" "e \<noteq> SockShutdownWr fd"
    using assms by (cases e; simp)+
qed

lemma quiet_events_effect:
  assumes "\<forall>e \<in> set es. quiet_event fd e"
  shows "sent fd es = []" "received fd es = []" "no_write_after_shutdown fd es"
    "SockShutdownWr fd \<notin> set es" "\<forall>e \<in> set es. \<not> writes_to fd e"
  using assms by (induction es) (auto simp: quiet_event_effect)

lemma io_inv_quiet:
  "io_inv fd st inp out acc con tr \<Longrightarrow> \<forall>e \<in> set es. quiet_event fd e \<Longrightarrow>
   io_inv fd st inp out acc con (tr @ es)"
  using quiet_events_effect [of es fd] by (auto simp: io_inv_def)

lemma io_inv_quiet1:
  "io_inv fd st inp out acc con tr \<Longrightarrow> quiet_event fd e \<Longrightarrow> io_inv fd st inp out acc con (tr @ [e])"
  by (rule io_inv_quiet) simp_all

lemma io_inv_write:
  assumes "io_inv fd st inp out acc con tr" "st \<notin> {kDisconnecting, kDisconnected} \<or> out \<noteq> []" "n \<le> length d"
    "d = out \<or> out = []"
  shows "io_inv fd st inp (drop n d) (if out = [] then acc @ d else acc) con
    (tr @ [SockWrite fd d (WriteDone n)])"
  using assms by (auto simp: io_inv_def)

lemma io_inv_write_err:
  assumes "io_inv fd st inp out acc con tr" "st \<notin> {kDisconnecting, kDisconnected} \<or> out \<noteq> []"
  shows "io_inv fd st inp out acc con (tr @ [SockWrite fd d (WriteErr e)])"
  using assms by (auto simp: io_inv_def)

lemma io_inv_more:
  assumes "io_inv fd st inp out acc con tr" "SockShutdownWr fd \<notin> set tr"
  shows "io_inv fd st inp (out @ d) (acc @ d) con tr"
  using assms by (simp add: io_inv_def)

text \<open>Steps of the rest of the program that leave a connection alone.\<close>

definition quiet_step ::
  "('f, 'c) tcp_connection \<Rightarrow> ('f, 'z) client_loop_scheme \<Rightarrow> ('f, 'z) client_loop_scheme \<Rightarrow> bool" where
  "quiet_step cn s s' \<longleftrightarrow>
     poller_inv s' \<and> can_register s' (conn_channel cn) \<and>
     heap s' (conn_channel cn) = heap s (conn_channel cn) \<and>
     accepted_bytes s' = accepted_bytes s \<and> consumed_bytes s' = consumed_bytes s \<and> born s' = born s \<and>
     (\<exists>es. trace s' = trace s @ es \<and> (\<forall>e \<in> set es. quiet_event (conn_fd cn) e))"

lemma quiet_step_inv:
  assumes "stream_inv (cn, s)" "quiet_step cn s s'"
  shows "stream_inv (cn, s')"
proof -
  obtain es where es: "trace s' = trace s @ es" "\<forall>e \<in> set es. quiet_event (conn_fd cn) e"
    using assms(2) by (auto simp: quiet_step_def)
  with assms have "life s' = life s @ es" by (simp add: stream_inv_def life_def quiet_step_def)
  with assms es io_inv_quiet [OF _ es(2)] show ?thesis
    by (simp add: stream_inv_def conn_inv_def quiet_step_def)
qed

subsection \<open>What the parts of a handler keep\<close>

lemma poller_inv_trace:
  assumes "\<not> is_ctl e"
  shows "poller_inv (s\<lparr>trace := trace s @ [e]\<rparr>) = poller_inv s"
    and "can_register (s\<lparr>trace := trace s @ [e]\<rparr>) c = can_register s c"
  using assms by (simp_all add: poller_inv_def channel_ok_def can_register_def)

lemma queueInLoop_trace:
  "\<exists>es. queueInLoop tid f s = s\<lparr>pendingFunctors := pendingFunctors s @ [f], trace := trace s @ es\<rparr> \<and>
     es \<in> {[], [EventfdWrite (wakeupFd s)]}"
  by (auto simp: queueInLoop_def queue_notify_def queue_push_def wakeup_def intro: exI [of _ "[]"])

lemma queue_opt_frame:
  shows "heap (queue_opt tid cb s) = heap s"
    and "poller_inv (queue_opt tid cb s) = poller_inv s"
    and "can_register (queue_opt tid cb s) c = can_register s c"
    and "\<exists>es. trace (queue_opt tid cb s) = trace s @ es \<and> (\<forall>e \<in> set es. quiet_event fd e)"
proof -
  have frame: "poller_inv (s\<lparr>pendingFunctors := p\<rparr>) = poller_inv s"
    "can_register (s\<lparr>pendingFunctors := p\<rparr>) c = can_register s c" for p
    by (simp_all add: poller_inv_def channel_ok_def can_register_def)
  have "heap (queue_opt tid cb s) = heap s \<and> poller_inv (queue_opt tid cb s) = poller_inv s \<and>
    can_register (queue_opt tid cb s) c = can_register s c \<and>
    (\<exists>es. trace (queue_opt tid cb s) = trace s @ es \<and> (\<forall>e \<in> set es. quiet_event fd e))"
  proof (cases cb)
    case None
    then show ?thesis by (simp add: queue_opt_def)
  next
    case (Some f)
    let ?s = "s\<lparr>pendingFunctors := pendingFunctors s @ [f]\<rparr>"
    have "queue_opt tid cb s = ?s \<or> queue_opt tid cb s = ?s\<lparr>trace := trace ?s @ [EventfdWrite (wakeupFd s)]\<rparr>"
      using Some by (simp add: queue_opt_def queueInLoop_def queue_notify_def queue_push_def wakeup_def)
    then show ?thesis
      using poller_inv_trace [of "EventfdWrite (wakeupFd s)" ?s] frame by auto
  qed
  then show "heap (queue_opt tid cb s) = heap s" "poller_inv (queue_opt tid cb s) = poller_inv s"
    "can_register (queue_opt tid cb s) c = can_register s c"
    "\<exists>es. trace (queue_opt tid cb s) = trace s @ es \<and> (\<forall>e \<in> set es. quiet_event fd e)"
    by simp_all
qed

lemma queue_opt_ghost [simp]:
  "accepted_bytes (queue_opt tid cb s) = accepted_bytes s"
  "consumed_bytes (queue_opt tid cb s) = consumed_bytes s"
  "born (queue_opt tid cb s) = born s"
  by (simp_all add: queue_opt_def queueInLoop_def queue_notify_def queue_push_def wakeup_def
      split: option.split)

lemma queue_opt_thread [simp]: "threadId (queue_opt tid cb s) = threadId s"
  by (simp add: queue_opt_def split: option.split)

lemma queue_opt_quiet:
  assumes "poller_inv s" "can_register s (conn_channel cn)"
  shows "quiet_step cn s (queue_opt tid cb s)"
  unfolding quiet_step_def
  using assms queue_opt_frame(4) [of tid cb s "conn_fd cn"] by (simp add: queue_opt_frame(1-3))

lemma more_ghost:
  assumes "reactor.more (s' :: ('f, 'z) client_loop_scheme) = reactor.more s"
  shows "accepted_bytes s' = accepted_bytes s" "consumed_bytes s' = consumed_bytes s"
    "born s' = born s" "threadId s' = threadId s"
  using assms by (cases s; cases s'; simp)+

text \<open>What extends the loop's state is not seen by these parts.\<close>

lemma reactor_more_loop: "reactor.more (s' :: ('f, 'z) event_loop_scheme) = reactor.more s \<Longrightarrow>
    event_loop.more s' = event_loop.more s"
  by (cases s; cases s'; simp)

named_theorems more_keeps

lemma queueInLoop_more [simp]: "event_loop.more (queueInLoop tid f s) = event_loop.more s"
  by (simp add: queueInLoop_def queue_notify_def queue_push_def wakeup_def)

lemmas Channel_set_keeps [more_keeps] = reactor_more_loop [OF Channel_set_more]

lemmas Channel_remove_keeps [more_keeps] = reactor_more_loop [OF Channel_remove_more]

lemma log_sys_more [simp]: "event_loop.more (log_sys e s) = event_loop.more s"
  by (simp add: log_sys_def)

lemma new_channel_more [simp]: "event_loop.more (new_channel c ch s) = event_loop.more s"
  by (simp add: new_channel_def)

lemma delete_channel_more [simp]: "event_loop.more (delete_channel c s) = event_loop.more s"
  by (simp add: delete_channel_def)

lemma sendInLoop_more:
  assumes "sendInLoop K tid d (cn, s) = Inr (cn', s')"
  shows "event_loop.more s' = event_loop.more s"
proof -
  have direct: "event_loop.more (snd (snd (snd (send_direct K tid d ch (cn, s))))) = event_loop.more s" for ch
    by (simp add: send_direct_def Let_def queue_opt_def log_sys_def split: write_ret.split option.split)
  have opt: "event_loop.more (queue_opt tid f t) = event_loop.more t" for f and t :: "('a, 'c) event_loop_scheme"
    by (simp add: queue_opt_def split: option.split)
  show ?thesis
  proof (cases "conn_state cn = kDisconnected")
    case True
    with assms show ?thesis by (simp add: sendInLoop_def)
  next
    case False
    then obtain ch where "heap s (conn_channel cn) = Some ch"
      using assms by (auto simp: sendInLoop_def with_channel_def split: option.splits)
    moreover obtain nw rem fe s1 where "send_direct K tid d ch (cn, s) = (nw, rem, fe, s1)"
      by (cases "send_direct K tid d ch (cn, s)") blast
    ultimately have s1: "heap s (conn_channel cn) = Some ch" "send_direct K tid d ch (cn, s) = (nw, rem, fe, s1)" by simp_all
    have m: "event_loop.more s1 = event_loop.more s" using direct [of ch] s1(2) by simp
    show ?thesis
      using assms False s1 m by (auto simp: sendInLoop_def with_channel_def Let_def rbind_eq_Inr opt enableWriting_def
          dest!: Channel_set_keeps split: if_splits)
  qed
qed

text \<open>Changing the mask of the connection's channel.\<close>

lemma conn_set:
  fixes s :: "('f, 'z) client_loop_scheme"
  assumes "ctl_sound K" "poller_inv s" "can_register s c" "heap s c = Some ch" "event_setter g"
  obtains s' ch' where "Channel_set g K c s = Inr s'" "poller_inv s'" "can_register s' c"
    "heap s' c = Some ch'" "isWriting ch' = isWriting (g ch)" "ch_fd ch' = ch_fd ch"
    "accepted_bytes s' = accepted_bytes s" "consumed_bytes s' = consumed_bytes s" "born s' = born s"
    "threadId s' = threadId s" "\<And>fd. \<exists>e. trace s' = trace s @ [e] \<and> quiet_event fd e"
proof -
  obtain s' ch' op fd ev ok where s': "Channel_set g K c s = Inr s'" "poller_inv s'" "can_register s' c"
    "heap s' c = Some ch'" "isWriting ch' = isWriting (g ch)" "ch_fd ch' = ch_fd ch"
    "trace s' = trace s @ [EpollCtl op fd ev c ok]" "reactor.more s' = reactor.more s"
    by (rule reg.set_writing [OF assms(1,2,3,5,4)])
  show thesis
    by (rule that [OF s'(1-6) more_ghost [OF s'(8)]]) (simp add: s'(7))
qed

lemma readable_mem: "buffer_inv b \<Longrightarrow> mem b (peek b) (peek b + readableBytes b) = readable b"
  by (simp add: peek_plus_readable mem_readable [unfolded beginWrite_def])

subsection \<open>Sending keeps the stream\<close>

text \<open>Whether \<open>sendInLoop\<close> takes the data: not on a connection the peer has reset.\<close>

definition takes :: "kernel \<Rightarrow> int \<Rightarrow> bytes \<Rightarrow> ('f, 'c, 'z) conn_st \<Rightarrow> bool" where
  "takes K tid data st \<longleftrightarrow>
     (case st of (cn, s) \<Rightarrow>
        conn_state cn \<noteq> kDisconnected \<and>
        (case heap s (conn_channel cn) of
           None \<Rightarrow> False
         | Some ch \<Rightarrow> \<not> fst (snd (snd (send_direct K tid data ch (cn, s))))))"

lemma stream_invD:
  assumes "stream_inv (cn, s)"
  obtains ch where "poller_inv s" "can_register s (conn_channel cn)" "buffer_inv (inputBuffer cn)"
    "buffer_inv (outputBuffer cn)" "heap s (conn_channel cn) = Some ch" "ch_fd ch = conn_fd cn"
    "isWriting ch \<longleftrightarrow> conn_state cn \<noteq> kDisconnected \<and> readable (outputBuffer cn) \<noteq> []"
    "born s \<le> length (trace s)"
    "io_inv (conn_fd cn) (conn_state cn) (readable (inputBuffer cn)) (readable (outputBuffer cn))
       (accepted_bytes s) (consumed_bytes s) (life s)"
  using assms by (auto simp: stream_inv_def conn_inv_def)

lemma life_extend: "born s \<le> length (trace s) \<Longrightarrow> born s' = born s \<Longrightarrow> trace s' = trace s @ es \<Longrightarrow>
  life s' = life s @ es"
  by (simp add: life_def)

text \<open>The state between the parts of a handler: the same connection, some events later.\<close>

definition later ::
  "nat \<Rightarrow> ('f, 'z) client_loop_scheme \<Rightarrow> sysevent list \<Rightarrow> ('f, 'z) client_loop_scheme \<Rightarrow> bool" where
  "later c s es s' \<longleftrightarrow>
     poller_inv s' \<and> can_register s' c \<and> accepted_bytes s' = accepted_bytes s \<and>
     consumed_bytes s' = consumed_bytes s \<and> born s' = born s \<and> threadId s' = threadId s \<and>
     trace s' = trace s @ es"

lemma later_trans: "later c s es s' \<Longrightarrow> later c s' es' s'' \<Longrightarrow> later c s (es @ es') s''"
  by (simp add: later_def)

lemma later_log:
  assumes "poller_inv s" "can_register s c" "\<not> is_ctl e"
  shows "later c s [e] (log_sys e s)" "heap (log_sys e s) = heap s"
  using assms poller_inv_trace [OF assms(3), of s] by (simp_all add: later_def log_sys_def)

lemma later_queue:
  assumes "poller_inv s" "can_register s c"
  obtains es where "later c s es (queue_opt tid cb s)" "heap (queue_opt tid cb s) = heap s"
    "\<forall>e \<in> set es. quiet_event fd e"
proof -
  obtain es where "trace (queue_opt tid cb s) = trace s @ es" "\<forall>e \<in> set es. quiet_event fd e"
    using queue_opt_frame(4) by blast
  with assms show thesis
    by (intro that [of es]) (simp_all add: later_def queue_opt_frame(1-3))
qed

lemma later_set:
  assumes "ctl_sound K" "poller_inv s" "can_register s c" "heap s c = Some ch" "event_setter g"
  obtains s' ch' e where "Channel_set g K c s = Inr s'" "later c s [e] s'" "quiet_event fd e"
    "heap s' c = Some ch'" "isWriting ch' = isWriting (g ch)" "ch_fd ch' = ch_fd ch"
proof (rule conn_set [OF assms])
  fix s' ch'
  assume a: "Channel_set g K c s = Inr s'" "poller_inv s'" "can_register s' c"
    "heap s' c = Some ch'" "isWriting ch' = isWriting (g ch)" "ch_fd ch' = ch_fd ch"
    "accepted_bytes s' = accepted_bytes s" "consumed_bytes s' = consumed_bytes s" "born s' = born s"
    "threadId s' = threadId s" "\<And>fd. \<exists>e. trace s' = trace s @ [e] \<and> quiet_event fd e"
  obtain e where "trace s' = trace s @ [e]" "quiet_event fd e" using a(11) by blast
  with a show thesis by (intro that [of s' e ch']) (simp_all add: later_def)
qed

lemma later_stream:
  assumes "stream_inv (cn, s)" "later (conn_channel cn) s es s'" "conn_fd cn' = conn_fd cn"
    "conn_channel cn' = conn_channel cn" "buffer_inv (inputBuffer cn')" "buffer_inv (outputBuffer cn')"
    "heap s' (conn_channel cn) = Some ch" "ch_fd ch = conn_fd cn"
    "isWriting ch \<longleftrightarrow> conn_state cn' \<noteq> kDisconnected \<and> readable (outputBuffer cn') \<noteq> []"
    "io_inv (conn_fd cn) (conn_state cn') (readable (inputBuffer cn')) (readable (outputBuffer cn')) acc con
       (life s @ es)"
  shows "stream_inv (cn', s'\<lparr>accepted_bytes := acc, consumed_bytes := con\<rparr>)"
proof -
  have "born s \<le> length (trace s)" using assms(1) by (simp add: stream_inv_def)
  moreover have "poller_inv (s'\<lparr>accepted_bytes := acc, consumed_bytes := con\<rparr>) = poller_inv s'"
    "can_register (s'\<lparr>accepted_bytes := acc, consumed_bytes := con\<rparr>) c = can_register s' c" for c
    by (simp_all add: poller_inv_def channel_ok_def can_register_def)
  ultimately show ?thesis
    using assms by (simp add: stream_inv_def conn_inv_def later_def life_def)
qed

lemma later_sent:
  assumes "stream_inv (cn, s)" "later (conn_channel cn) s es s'" "conn_fd cn' = conn_fd cn"
    "conn_channel cn' = conn_channel cn" "buffer_inv (inputBuffer cn')" "buffer_inv (outputBuffer cn')"
    "heap s' (conn_channel cn) = Some ch" "ch_fd ch = conn_fd cn"
    "isWriting ch \<longleftrightarrow> conn_state cn' \<noteq> kDisconnected \<and> readable (outputBuffer cn') \<noteq> []"
    "io_inv (conn_fd cn) (conn_state cn') (readable (inputBuffer cn')) (readable (outputBuffer cn')) acc
       (consumed_bytes s) (life s @ es)"
  shows "stream_inv (cn', s'\<lparr>accepted_bytes := acc\<rparr>)"
proof -
  have "consumed_bytes s' = consumed_bytes s" using assms(2) by (simp add: later_def)
  then have "s'\<lparr>accepted_bytes := acc, consumed_bytes := consumed_bytes s\<rparr> = s'\<lparr>accepted_bytes := acc\<rparr>"
    by (cases s') simp
  with later_stream [OF assms] show ?thesis by simp
qed

lemma later_kept:
  assumes "stream_inv (cn, s)" "later (conn_channel cn) s es s'" "conn_fd cn' = conn_fd cn"
    "conn_channel cn' = conn_channel cn" "buffer_inv (inputBuffer cn')" "buffer_inv (outputBuffer cn')"
    "heap s' (conn_channel cn) = Some ch" "ch_fd ch = conn_fd cn"
    "isWriting ch \<longleftrightarrow> conn_state cn' \<noteq> kDisconnected \<and> readable (outputBuffer cn') \<noteq> []"
    "io_inv (conn_fd cn) (conn_state cn') (readable (inputBuffer cn')) (readable (outputBuffer cn'))
       (accepted_bytes s) (consumed_bytes s) (life s @ es)"
  shows "stream_inv (cn', s')"
proof -
  have "accepted_bytes s' = accepted_bytes s" using assms(2) by (simp add: later_def)
  then have "s'\<lparr>accepted_bytes := accepted_bytes s\<rparr> = s'" by (cases s') simp
  with later_sent [OF assms] show ?thesis by simp
qed

lemma send_direct_effect:
  assumes K: "write_sound K" and inv: "stream_inv (cn, s)" and st: "conn_state cn = kConnected"
    and ch: "heap s (conn_channel cn) = Some ch"
  obtains nw rem fault s1 es where "send_direct K tid d ch (cn, s) = (nw, rem, fault, s1)"
    "later (conn_channel cn) s es s1" "heap s1 = heap s" "nw + rem = length d" "fault \<longrightarrow> nw = 0"
    "SockShutdownWr (conn_fd cn) \<notin> set (life s @ es)"
    "io_inv (conn_fd cn) kConnected (readable (inputBuffer cn)) (readable (outputBuffer cn))
       (accepted_bytes s @ take nw d) (consumed_bytes s) (life s @ es)"
proof -
  obtain ch' where "heap s (conn_channel cn) = Some ch'" and
    i: "poller_inv s" "can_register s (conn_channel cn)" "buffer_inv (outputBuffer cn)" "ch_fd ch = conn_fd cn"
      "isWriting ch \<longleftrightarrow> readable (outputBuffer cn) \<noteq> []"
      "io_inv (conn_fd cn) kConnected (readable (inputBuffer cn)) (readable (outputBuffer cn))
         (accepted_bytes s) (consumed_bytes s) (life s)"
    using stream_invD [OF inv] ch st by (metis conn_state.distinct(3) option.inject)
  have open_end: "SockShutdownWr (conn_fd cn) \<notin> set (life s)"
    using i(6) by (auto simp: io_inv_def)
  show thesis
  proof (cases "readable (outputBuffer cn) = []")
    case False
    with i show thesis
      by (intro that [of 0 "length d" False s "[]"])
         (simp_all add: send_direct_def later_def open_end)
  next
    case True
    let ?r = "k_write K (trace s) (conn_fd cn) d"
    let ?e = "SockWrite (conn_fd cn) d ?r"
    note w = later_log [OF i(1,2), of ?e, simplified]
    show thesis
    proof (cases ?r)
      case (WriteErr e)
      have "io_inv (conn_fd cn) kConnected (readable (inputBuffer cn)) [] (accepted_bytes s)
          (consumed_bytes s) (life s @ [?e])"
        using io_inv_write_err i(6) True WriteErr by simp
      with True i w WriteErr show thesis
        by (intro that [of 0 "length d" "e \<noteq> EWOULDBLOCK \<and> (e = EPIPE \<or> e = ECONNRESET)" "log_sys ?e s" "[?e]"])
           (simp_all add: send_direct_def open_end Let_def)
    next
      case (WriteDone n)
      have n: "n \<le> length d" using K WriteDone by (auto simp: write_sound_def)
      let ?s1 = "log_sys ?e s"
      let ?cb = "if length d - n = 0 then writeCompleteCallback cn else None"
      have s1: "poller_inv ?s1" "can_register ?s1 (conn_channel cn)" using w(1) by (simp_all add: later_def)
      obtain es where q: "later (conn_channel cn) ?s1 es (queue_opt tid ?cb ?s1)"
        "heap (queue_opt tid ?cb ?s1) = heap ?s1" "\<forall>e \<in> set es. quiet_event (conn_fd cn) e"
        by (rule later_queue [OF s1])
      have "io_inv (conn_fd cn) kConnected (readable (inputBuffer cn)) []
          (accepted_bytes s @ take n d) (consumed_bytes s) (life s @ [?e])"
        using i(6) True WriteDone by (simp add: io_inv_def)
      then have "io_inv (conn_fd cn) kConnected (readable (inputBuffer cn)) []
          (accepted_bytes s @ take n d) (consumed_bytes s) ((life s @ [?e]) @ es)"
        by (rule io_inv_quiet [OF _ q(3)])
      moreover have "send_direct K tid d ch (cn, s) = (n, length d - n, False, queue_opt tid ?cb ?s1)"
        using True i WriteDone by (simp add: send_direct_def queue_opt_def Let_def)
      ultimately show thesis
        using later_trans [OF w(1) q(1)] q(2,3) w(2) n True open_end quiet_events_effect(4) [OF q(3)]
        by (intro that [of n "length d - n" False "queue_opt tid ?cb ?s1" "[?e] @ es"]) simp_all
    qed
  qed
qed

text \<open>Writability is watched afterwards, whether it was before or not.\<close>

lemma later_watch_writing:
  assumes "ctl_sound K" "poller_inv s" "can_register s c" "heap s c = Some ch"
  obtains s' ch' es where
    "(if \<not> isWriting ch then rbind (enableWriting K c s) (\<lambda>s1. Inr (f s1)) else Inr (f s)) = Inr (f s')"
    "later c s es s'" "\<forall>e \<in> set es. quiet_event (ch_fd ch) e" "heap s' c = Some ch'" "isWriting ch'" "ch_fd ch' = ch_fd ch"
proof (cases "isWriting ch")
  case True
  with assms show thesis by (intro that [of s "[]" ch]) (simp_all add: later_def)
next
  case False
  obtain s' ch' e where e: "Channel_set add_writing K c s = Inr s'" "later c s [e] s'"
    "quiet_event (ch_fd ch) e" "heap s' c = Some ch'" "isWriting ch' = isWriting (add_writing ch)" "ch_fd ch' = ch_fd ch"
    by (rule later_set [OF assms event_setters(3)])
  with False show thesis by (intro that [of s' "[e]" ch']) (simp_all add: enableWriting_def)
qed

text \<open>What is not written at once is appended to the output buffer, and the socket is watched.\<close>

lemma sendInLoop_queued:
  assumes "conn_state cn \<noteq> kDisconnected" "heap s (conn_channel cn) = Some ch"
    and "send_direct K tid d ch (cn, s) = (nw, rem, False, s1)" "rem > 0"
  shows "sendInLoop K tid d (cn, s) =
    (let n = readableBytes (outputBuffer cn) + rem;
         s2 = queue_opt tid (if n > highWaterMark cn \<and> readableBytes (outputBuffer cn) < highWaterMark cn
           then map_option (\<lambda>f. f n) (highWaterMarkCallback cn) else None) s1;
         cn1 = cn\<lparr>outputBuffer := append_buf (outputBuffer cn) (take rem (drop nw d))\<rparr>
     in if \<not> isWriting ch then rbind (enableWriting K (conn_channel cn) s2) (\<lambda>s3. Inr (cn1, s3)) else Inr (cn1, s2))"
proof -
  have "queue_opt tid None s1 = s1" by (simp add: queue_opt_def)
  with assms show ?thesis by (simp add: sendInLoop_def with_channel_def Let_def)
qed

lemma sendInLoop_inv:
  assumes K: "ctl_sound K" "write_sound K" and inv: "stream_inv (cn, s)" and st: "conn_state cn = kConnected"
  shows "\<exists>out s'. sendInLoop K tid d (cn, s) = Inr (cn\<lparr>outputBuffer := out\<rparr>, s') \<and>
    stream_inv (cn\<lparr>outputBuffer := out\<rparr>,
      s'\<lparr>accepted_bytes := accepted_bytes s @ (if takes K tid d (cn, s) then d else [])\<rparr>) \<and>
    accepted_bytes s' = accepted_bytes s \<and> threadId s' = threadId s"
proof -
  let ?c = "conn_channel cn" and ?fd = "conn_fd cn"
  let ?inp = "readable (inputBuffer cn)" and ?out = "readable (outputBuffer cn)"
  obtain ch where i: "poller_inv s" "can_register s ?c" "buffer_inv (inputBuffer cn)"
    "buffer_inv (outputBuffer cn)" "heap s ?c = Some ch" "ch_fd ch = ?fd" "isWriting ch \<longleftrightarrow> ?out \<noteq> []"
    using stream_invD [OF inv] st by (metis conn_state.distinct(3))
  obtain nw rem fault s1 es where d: "send_direct K tid d ch (cn, s) = (nw, rem, fault, s1)"
    "later ?c s es s1" "heap s1 = heap s" "nw + rem = length d" "fault \<longrightarrow> nw = 0"
    "SockShutdownWr ?fd \<notin> set (life s @ es)"
    "io_inv ?fd kConnected ?inp ?out (accepted_bytes s @ take nw d) (consumed_bytes s) (life s @ es)"
    by (rule send_direct_effect [OF K(2) inv st i(5)])
  have takes: "takes K tid d (cn, s) \<longleftrightarrow> \<not> fault" using d(1) i(5) st by (simp add: takes_def)
  have s1: "poller_inv s1" "can_register s1 ?c" "consumed_bytes s1 = consumed_bytes s"
    "accepted_bytes s1 = accepted_bytes s" "threadId s1 = threadId s" using d(2) by (simp_all add: later_def)
  show ?thesis
  proof (cases "\<not> fault \<and> rem > 0")
    case False
    have acc: "take nw d = (if takes K tid d (cn, s) then d else [])"
      using False d(4,5) takes by auto
    have "stream_inv (cn, s1\<lparr>accepted_bytes := accepted_bytes s @ take nw d\<rparr>)"
      by (rule later_sent [OF inv d(2) refl refl i(3,4) _ i(6)]) (use i d st in simp_all)
    moreover have "sendInLoop K tid d (cn, s) = Inr (cn, s1)"
      using False st i(5) d(1) by (auto simp: sendInLoop_def with_channel_def)
    ultimately show ?thesis
      using s1 acc by (intro exI [of _ "outputBuffer cn"] exI [of _ s1]) simp
  next
    case True
    define r where "r = take rem (drop nw d)"
    have r: "take nw d @ r = d" "r \<noteq> []"
      using True d(4) by (simp_all add: r_def)
    let ?out' = "append_buf (outputBuffer cn) r" and ?n = "readableBytes (outputBuffer cn) + rem"
    let ?cb = "if ?n > highWaterMark cn \<and> readableBytes (outputBuffer cn) < highWaterMark cn
       then map_option (\<lambda>f. f ?n) (highWaterMarkCallback cn) else None"
    obtain es2 where q: "later ?c s1 es2 (queue_opt tid ?cb s1)" "heap (queue_opt tid ?cb s1) = heap s1"
      "\<forall>e \<in> set es2. quiet_event ?fd e"
      by (rule later_queue [OF s1(1,2)])
    let ?s2 = "queue_opt tid ?cb s1"
    note l2 = later_trans [OF d(2) q(1)]
    have io2: "io_inv ?fd kConnected ?inp (?out @ r) (accepted_bytes s @ d) (consumed_bytes s) (life s @ es @ es2)"
      using io_inv_more [OF d(7,6), of r] r io_inv_quiet [OF _ q(3)] by (metis append.assoc)
    have result: "sendInLoop K tid d (cn, s) =
       (if \<not> isWriting ch then rbind (enableWriting K ?c ?s2) (\<lambda>s3. Inr (cn\<lparr>outputBuffer := ?out'\<rparr>, s3))
        else Inr (cn\<lparr>outputBuffer := ?out'\<rparr>, ?s2))"
      unfolding r_def by (rule sendInLoop_queued [OF _ i(5), unfolded Let_def]) (use True st d(1) in simp_all)
    have s2: "poller_inv ?s2" "can_register ?s2 ?c" "heap ?s2 ?c = Some ch"
      using q d(3) i(5) by (simp_all add: later_def)
    obtain s3 ch3 es3 where w: "sendInLoop K tid d (cn, s) = Inr (cn\<lparr>outputBuffer := ?out'\<rparr>, s3)"
      "later ?c ?s2 es3 s3" "\<forall>e \<in> set es3. quiet_event ?fd e" "heap s3 ?c = Some ch3" "isWriting ch3" "ch_fd ch3 = ?fd"
      unfolding result by (rule later_watch_writing [OF K(1) s2, unfolded i(6)])
    have "stream_inv (cn\<lparr>outputBuffer := ?out'\<rparr>, s3\<lparr>accepted_bytes := accepted_bytes s @ d\<rparr>)"
      by (rule later_sent [OF inv later_trans [OF l2 w(2)], where ch = ch3])
         (use i w r st io_inv_quiet [OF io2 w(3)] in simp_all)
    then show ?thesis
      using takes True s1 w(1,2) by (intro exI [of _ ?out'] exI [of _ s3]) (simp add: later_def)
  qed
qed

subsection \<open>The handlers keep the stream\<close>

text \<open>A callback of the owner: present, and it keeps what the connection relies on.\<close>

definition cb_ok :: "(('f, 'c, 'z) client_st \<Rightarrow> ('f, 'c, 'z) client_st res) \<Rightarrow> bool" where
  "cb_ok f \<longleftrightarrow> (\<forall>st. stream_inv st \<longrightarrow> (\<exists>st'. f st = Inr st' \<and> stream_inv st'))"

definition callbacks_ok :: "('f, 'c, 'z) client_st conn_callbacks \<Rightarrow> bool" where
  "callbacks_ok CB \<longleftrightarrow>
     (\<exists>f. connectionCallback CB = Some f \<and> cb_ok f) \<and>
     (\<exists>f. closeCallback CB = Some f \<and> cb_ok f) \<and>
     (\<exists>f. messageCallback CB = Some f \<and> (\<forall>t. cb_ok (f t)))"

lemma call_cb_ok:
  "callbacks_ok CB \<Longrightarrow> stream_inv st \<Longrightarrow> \<exists>st'. call_cb (connectionCallback CB) st = Inr st' \<and> stream_inv st'"
  "callbacks_ok CB \<Longrightarrow> stream_inv st \<Longrightarrow> \<exists>st'. call_cb (closeCallback CB) st = Inr st' \<and> stream_inv st'"
  by (cases st; auto simp: callbacks_ok_def cb_ok_def call_cb_def)+

lemma message_cb_ok:
  "callbacks_ok CB \<Longrightarrow> \<exists>f. messageCallback CB = Some f \<and> (\<forall>t st. stream_inv st \<longrightarrow> (\<exists>st'. f t st = Inr st' \<and> stream_inv st'))"
  by (auto simp: callbacks_ok_def cb_ok_def)

lemma io_inv_read:
  "io_inv fd st inp out acc con tr \<Longrightarrow>
   io_inv fd st (inp @ got) out acc con (tr @ [SockRead fd (ReadGot got)])"
  by (simp add: io_inv_def)

lemma io_inv_read_err:
  "io_inv fd st inp out acc con tr \<Longrightarrow> io_inv fd st inp out acc con (tr @ [SockRead fd (ReadErr e)])"
  by (simp add: io_inv_def)

lemma io_inv_down:
  "io_inv fd st inp out acc con tr \<Longrightarrow> io_inv fd kDisconnected inp out acc con tr"
  by (simp add: io_inv_def)

lemma io_inv_up:
  "io_inv fd kConnecting inp out acc con tr \<Longrightarrow> io_inv fd kConnected inp out acc con tr"
  by (auto simp: io_inv_def)

lemma io_inv_disconnecting:
  "io_inv fd kConnected inp out acc con tr \<Longrightarrow> io_inv fd kDisconnecting inp out acc con tr"
  by (auto simp: io_inv_def)

lemma io_inv_shutdown:
  "io_inv fd kDisconnecting inp [] acc con tr \<Longrightarrow>
   io_inv fd kDisconnecting inp [] acc con (tr @ [SockShutdownWr fd])"
  by (simp add: io_inv_def)

lemma handleClose_inv:
  assumes K: "ctl_sound K" and CB: "callbacks_ok CB" and inv: "stream_inv (cn, s)"
  shows "\<exists>st'. handleClose K CB (cn, s) = Inr st' \<and> stream_inv st'"
proof -
  obtain ch where i: "poller_inv s" "can_register s (conn_channel cn)" "buffer_inv (inputBuffer cn)"
    "buffer_inv (outputBuffer cn)" "heap s (conn_channel cn) = Some ch" "ch_fd ch = conn_fd cn"
    "io_inv (conn_fd cn) (conn_state cn) (readable (inputBuffer cn)) (readable (outputBuffer cn))
       (accepted_bytes s) (consumed_bytes s) (life s)"
    using stream_invD [OF inv] by metis
  obtain s1 ch1 e where e: "Channel_set del_all K (conn_channel cn) s = Inr s1"
    "later (conn_channel cn) s [e] s1" "quiet_event (conn_fd cn) e" "heap s1 (conn_channel cn) = Some ch1"
    "isWriting ch1 = isWriting (del_all ch)" "ch_fd ch1 = ch_fd ch"
    by (rule later_set [OF K i(1,2,5) event_setters(5)])
  have "stream_inv (setState kDisconnected cn, s1)"
    by (rule later_kept [OF inv e(2) _ _ _ _ e(4)])
       (use i e io_inv_quiet1 [OF io_inv_down [OF i(7)] e(3)] in \<open>simp_all add: setState_def\<close>)
  then obtain st2 where st2: "call_cb (connectionCallback CB) (setState kDisconnected cn, s1) = Inr st2" "stream_inv st2"
    using call_cb_ok(1) [OF CB] by blast
  with call_cb_ok(2) [OF CB st2(2)] e(1) show ?thesis
    by (auto simp: handleClose_def disableAll_def)
qed

lemma handleError_inv:
  assumes "stream_inv (cn, s)"
  shows "\<exists>s'. handleError (cn, s) = Inr (cn, s') \<and> stream_inv (cn, s')"
proof -
  obtain ch where i: "poller_inv s" "can_register s (conn_channel cn)" "heap s (conn_channel cn) = Some ch"
    using stream_invD [OF assms] by metis
  have "quiet_step cn s (log_sys (SockGetError (ch_fd ch)) s)"
    using later_log [OF i(1,2), of "SockGetError (ch_fd ch)"]
    by (simp add: quiet_step_def later_def)
  with assms i(3) show ?thesis
    by (auto simp: handleError_def with_channel_def intro: quiet_step_inv)
qed

lemma handleRead_got:
  assumes K: "read_sound K" and inv: "conn_inv (cn, s)"
    and got: "k_readv K (trace s) (conn_fd cn) (readv_room (inputBuffer cn)) = ReadGot got"
  obtains b where "buffer_inv b" "readable b = readable (inputBuffer cn) @ got"
    "\<And>CB. handleRead K CB t (cn, s) =
       (if got \<noteq> [] then
          (case messageCallback CB of None \<Rightarrow> Inl BadFunctionCall
           | Some cb \<Rightarrow> cb t (cn\<lparr>inputBuffer := b\<rparr>, log_sys (SockRead (conn_fd cn) (ReadGot got)) s))
        else handleClose K CB (cn\<lparr>inputBuffer := b\<rparr>, log_sys (SockRead (conn_fd cn) (ReadGot got)) s))"
proof -
  let ?rd = "k_readv K (trace s) (conn_fd cn)" and ?inb = "inputBuffer cn"
  obtain ch where i: "buffer_inv ?inb" "heap s (conn_channel cn) = Some ch" "ch_fd ch = conn_fd cn"
    using inv by (auto simp: conn_inv_def)
  have "\<forall>c got. ?rd c = ReadGot got \<longrightarrow> length got \<le> c" using K by (simp add: read_sound_def)
  from readFd_got [where readv = ?rd, OF i(1) got [unfolded readv_room_def] this]
  obtain b where b: "readFd ?rd ?inb = (b, int (length got), None)" "buffer_inv b" "readable b = readable ?inb @ got"
    by blast
  with i(2,3) got show thesis by (intro that [of b]) (simp_all add: handleRead_def with_channel_def)
qed

text \<open>The outcomes of a read: a message for the owner, the end of the stream, or an error.\<close>

lemma handleRead_cases:
  assumes K: "read_sound K" and inv: "stream_inv (cn, s)"
  obtains
    (message) got b s1 where "got \<noteq> []" "readable b = readable (inputBuffer cn) @ got" "buffer_inv b"
      "stream_inv (cn\<lparr>inputBuffer := b\<rparr>, s1)"
      "later (conn_channel cn) s [SockRead (conn_fd cn) (ReadGot got)] s1" "heap s1 = heap s"
      "k_readv K (trace s) (conn_fd cn) (readv_room (inputBuffer cn)) = ReadGot got"
      "\<And>CB. handleRead K CB t (cn, s) =
         (case messageCallback CB of None \<Rightarrow> Inl BadFunctionCall | Some cb \<Rightarrow> cb t (cn\<lparr>inputBuffer := b\<rparr>, s1))"
  | (eof) b s1 where "readable b = readable (inputBuffer cn)" "stream_inv (cn\<lparr>inputBuffer := b\<rparr>, s1)"
      "later (conn_channel cn) s [SockRead (conn_fd cn) (ReadGot [])] s1"
      "k_readv K (trace s) (conn_fd cn) (readv_room (inputBuffer cn)) = ReadGot []"
      "\<And>CB. handleRead K CB t (cn, s) = handleClose K CB (cn\<lparr>inputBuffer := b\<rparr>, s1)"
  | (err) e s1 where "stream_inv (cn, s1)" "later (conn_channel cn) s [SockRead (conn_fd cn) (ReadErr e)] s1"
      "k_readv K (trace s) (conn_fd cn) (readv_room (inputBuffer cn)) = ReadErr e"
      "\<And>CB. handleRead K CB t (cn, s) = handleError (cn, s1)"
proof -
  let ?fd = "conn_fd cn" and ?inb = "inputBuffer cn"
  obtain ch where i: "poller_inv s" "can_register s (conn_channel cn)" "buffer_inv ?inb"
    "buffer_inv (outputBuffer cn)" "heap s (conn_channel cn) = Some ch" "ch_fd ch = ?fd"
    "isWriting ch \<longleftrightarrow> conn_state cn \<noteq> kDisconnected \<and> readable (outputBuffer cn) \<noteq> []"
    "io_inv ?fd (conn_state cn) (readable ?inb) (readable (outputBuffer cn))
       (accepted_bytes s) (consumed_bytes s) (life s)"
    using stream_invD [OF inv] by metis
  let ?rd = "k_readv K (trace s) ?fd"
  let ?e = "SockRead ?fd (?rd (readv_room ?inb))"
  note w = later_log [OF i(1,2), of ?e, simplified]
  show thesis
  proof (cases "?rd (readv_room ?inb)")
    case (ReadErr e)
    then have r: "readFd ?rd ?inb = (?inb, - 1, Some e)"
      by (simp add: readFd_def readv_room_def Let_def)
    have "stream_inv (cn, log_sys ?e s)"
      by (rule later_kept [OF inv w(1) refl refl i(3,4)])
         (use i w ReadErr io_inv_read_err [OF i(8)] in simp_all)
    moreover have "cn\<lparr>inputBuffer := ?inb\<rparr> = cn" by simp
    ultimately show thesis
      using i(5,6) r w(1) ReadErr by (intro err [of "log_sys ?e s" e]) (simp_all add: handleRead_def with_channel_def)
  next
    case (ReadGot got)
    let ?e = "SockRead ?fd (ReadGot got)"
    note w = later_log [OF i(1,2), of ?e, simplified]
    have "conn_inv (cn, s)" using inv by (simp add: stream_inv_def)
    then obtain b where b: "buffer_inv b" "readable b = readable ?inb @ got"
      "\<And>CB. handleRead K CB t (cn, s) =
       (if got \<noteq> [] then
          (case messageCallback CB of None \<Rightarrow> Inl BadFunctionCall
           | Some cb \<Rightarrow> cb t (cn\<lparr>inputBuffer := b\<rparr>, log_sys ?e s))
        else handleClose K CB (cn\<lparr>inputBuffer := b\<rparr>, log_sys ?e s))"
      using handleRead_got [OF K _ ReadGot] by blast
    have s1: "stream_inv (cn\<lparr>inputBuffer := b\<rparr>, log_sys ?e s)"
      by (rule later_kept [OF inv w(1)])
         (use i w b io_inv_read [OF i(8)] in simp_all)
    show thesis
    proof (cases "got = []")
      case True
      with b s1 w ReadGot show thesis by (intro eof [of b "log_sys ?e s"]) simp_all
    next
      case False
      with b s1 w ReadGot show thesis by (intro message [of got b "log_sys ?e s"]) simp_all
    qed
  qed
qed

lemma handleRead_inv:
  assumes K: "ctl_sound K" "read_sound K" and CB: "callbacks_ok CB" and inv: "stream_inv (cn, s)"
  shows "\<exists>st'. handleRead K CB t (cn, s) = Inr st' \<and> stream_inv st'"
proof (cases rule: handleRead_cases [OF K(2) inv, of t, case_names message eof err])
  case (message got b s1)
  with message_cb_ok [OF CB] show ?thesis by fastforce
next
  case (eof b s1)
  with handleClose_inv [OF K(1) CB eof(2)] show ?thesis by simp
next
  case (err e s1)
  with handleError_inv [OF err(1)] show ?thesis by auto
qed

lemma shutdownInLoop_inv:
  assumes inv: "stream_inv (cn, s)" and st: "conn_state cn = kDisconnecting"
  shows "\<exists>s'. shutdownInLoop (cn, s) = Inr (cn, s') \<and> stream_inv (cn, s')"
proof -
  obtain ch where i: "poller_inv s" "can_register s (conn_channel cn)" "buffer_inv (inputBuffer cn)"
    "buffer_inv (outputBuffer cn)" "heap s (conn_channel cn) = Some ch" "ch_fd ch = conn_fd cn"
    "isWriting ch \<longleftrightarrow> readable (outputBuffer cn) \<noteq> []"
    "io_inv (conn_fd cn) kDisconnecting (readable (inputBuffer cn)) (readable (outputBuffer cn))
       (accepted_bytes s) (consumed_bytes s) (life s)"
    using stream_invD [OF inv] st by (metis conn_state.distinct(5))
  note w = later_log [OF i(1,2), of "SockShutdownWr (conn_fd cn)", simplified]
  show ?thesis
  proof (cases "isWriting ch")
    case True
    with inv i(5) show ?thesis by (simp add: shutdownInLoop_def with_channel_def)
  next
    case False
    have "stream_inv (cn, log_sys (SockShutdownWr (conn_fd cn)) s)"
      by (rule later_kept [OF inv w(1) refl refl i(3,4)])
         (use i w False st io_inv_shutdown in simp_all)
    with False i(5) show ?thesis by (simp add: shutdownInLoop_def with_channel_def)
  qed
qed

lemma handleWrite_drained:
  assumes K: "ctl_sound K" and inv: "stream_inv (cn, s)" and st: "conn_state cn \<noteq> kDisconnected"
    and w: "later (conn_channel cn) s es s1" "heap s1 = heap s" and cn1: "cn1 = cn\<lparr>outputBuffer := out\<rparr>"
    "buffer_inv out" "readable out = []"
    and io: "io_inv (conn_fd cn) (conn_state cn) (readable (inputBuffer cn)) [] (accepted_bytes s)
      (consumed_bytes s) (life s @ es)"
  shows "\<exists>s'. rbind (disableWriting K (conn_channel cn) s1) (\<lambda>s2.
      let s3 = queue_opt tid (writeCompleteCallback cn) s2
      in if conn_state cn = kDisconnecting then shutdownInLoop (cn1, s3) else Inr (cn1, s3)) = Inr (cn1, s') \<and>
    stream_inv (cn1, s')"
proof -
  let ?c = "conn_channel cn" and ?fd = "conn_fd cn"
  obtain ch where i: "buffer_inv (inputBuffer cn)" "heap s ?c = Some ch" "ch_fd ch = ?fd"
    using stream_invD [OF inv] by metis
  have s1: "poller_inv s1" "can_register s1 ?c" "heap s1 ?c = Some ch"
    using w i by (simp_all add: later_def)
  obtain s2 ch2 e where e: "Channel_set del_writing K ?c s1 = Inr s2" "later ?c s1 [e] s2"
    "quiet_event ?fd e" "heap s2 ?c = Some ch2" "isWriting ch2 = isWriting (del_writing ch)"
    "ch_fd ch2 = ch_fd ch"
    by (rule later_set [OF K s1 event_setters(4)])
  let ?s3 = "queue_opt tid (writeCompleteCallback cn) s2"
  have s2: "poller_inv s2" "can_register s2 ?c" using e(2) by (simp_all add: later_def)
  obtain es3 where q: "later ?c s2 es3 ?s3" "heap ?s3 = heap s2" "\<forall>e \<in> set es3. quiet_event ?fd e"
    by (rule later_queue [OF s2])
  have io3: "io_inv ?fd (conn_state cn) (readable (inputBuffer cn)) [] (accepted_bytes s)
      (consumed_bytes s) (life s @ (es @ [e]) @ es3)"
    using io_inv_quiet [OF io_inv_quiet1 [OF io e(3)] q(3)] by simp
  have inv3: "stream_inv (cn1, ?s3)"
    by (rule later_kept [OF inv later_trans [OF later_trans [OF w(1) e(2)] q(1)], where ch = ch2])
       (use i e q cn1 io3 in simp_all)
  show ?thesis
    using e(1) inv3 shutdownInLoop_inv [OF inv3] cn1(1) by (simp add: disableWriting_def Let_def)
qed

lemma handleWrite_done:
  assumes "heap s (conn_channel cn) = Some ch" "isWriting ch" "ch_fd ch = conn_fd cn" "buffer_inv (outputBuffer cn)"
    and "k_write K (trace s) (conn_fd cn) (readable (outputBuffer cn)) = WriteDone n"
  shows "handleWrite K tid (cn, s) =
    (let e = SockWrite (conn_fd cn) (readable (outputBuffer cn)) (WriteDone n);
         s1 = log_sys e s; cn1 = cn\<lparr>outputBuffer := retrieve (outputBuffer cn) n\<rparr>
     in if n > 0 then
          (if readable (outputBuffer cn1) = [] then
             rbind (disableWriting K (conn_channel cn) s1) (\<lambda>s2.
               let s3 = queue_opt tid (writeCompleteCallback cn) s2
               in if conn_state cn = kDisconnecting then shutdownInLoop (cn1, s3) else Inr (cn1, s3))
           else Inr (cn1, s1))
        else Inr (cn, s1))"
  using assms by (simp add: handleWrite_def with_channel_def writeFd_def readable_mem Let_def)

lemma handleWrite_inv:
  assumes K: "ctl_sound K" "write_sound K" and inv: "stream_inv (cn, s)"
  shows "\<exists>st'. handleWrite K tid (cn, s) = Inr st' \<and> stream_inv st'"
proof -
  let ?fd = "conn_fd cn" and ?out = "outputBuffer cn"
  obtain ch where i: "poller_inv s" "can_register s (conn_channel cn)" "buffer_inv (inputBuffer cn)"
    "buffer_inv ?out" "heap s (conn_channel cn) = Some ch" "ch_fd ch = ?fd"
    "isWriting ch \<longleftrightarrow> conn_state cn \<noteq> kDisconnected \<and> readable ?out \<noteq> []"
    "io_inv ?fd (conn_state cn) (readable (inputBuffer cn)) (readable ?out)
       (accepted_bytes s) (consumed_bytes s) (life s)"
    using stream_invD [OF inv] by metis
  let ?r = "k_write K (trace s) ?fd (readable ?out)"
  let ?e = "SockWrite ?fd (readable ?out) ?r"
  note w = later_log [OF i(1,2), of ?e, simplified]
  show ?thesis
  proof (cases "isWriting ch")
    case False
    with inv i(5) show ?thesis by (simp add: handleWrite_def with_channel_def)
  next
    case True
    with i have out: "conn_state cn \<noteq> kDisconnected" "readable ?out \<noteq> []" by simp_all
    show ?thesis
    proof (cases ?r)
      case (WriteErr e)
      have "stream_inv (cn, log_sys ?e s)"
        by (rule later_kept [OF inv w(1) refl refl i(3,4)])
           (use i w WriteErr out io_inv_write_err [OF i(8)] in simp_all)
      with True i(4-6) WriteErr show ?thesis
        by (simp add: handleWrite_def with_channel_def writeFd_def readable_mem)
    next
      case (WriteDone n)
      let ?out1 = "retrieve ?out n" and ?cn1 = "cn\<lparr>outputBuffer := retrieve ?out n\<rparr>"
      have n: "n \<le> length (readable ?out)" using K(2) WriteDone by (auto simp: write_sound_def)
      have io: "io_inv ?fd (conn_state cn) (readable (inputBuffer cn)) (readable ?out1)
          (accepted_bytes s) (consumed_bytes s) (life s @ [?e])"
        using io_inv_write [OF i(8) _ n] out i(4) WriteDone by simp
      note eq = handleWrite_done [OF i(5) True i(6,4) WriteDone]
      have rest: "stream_inv (?cn1, log_sys ?e s)" if "readable ?out1 \<noteq> []"
        by (rule later_kept [OF inv w(1), where ch = ch]) (use i w io out that in simp_all)
      have zero: "stream_inv (cn, log_sys ?e s)" if "n = 0"
        by (rule later_kept [OF inv w(1) refl refl i(3,4), where ch = ch])
           (use i w io out that in simp_all)
      have "readable ?out1 = [] \<Longrightarrow> \<exists>s'. rbind (disableWriting K (conn_channel cn) (log_sys ?e s)) (\<lambda>s2.
                 let s3 = queue_opt tid (writeCompleteCallback cn) s2
                 in if conn_state cn = kDisconnecting then shutdownInLoop (?cn1, s3) else Inr (?cn1, s3)) =
          Inr (?cn1, s') \<and> stream_inv (?cn1, s')"
        by (rule handleWrite_drained [OF K(1) inv out(1) w refl _ _]) (use i(4) io in simp_all)
      with eq rest zero WriteDone show ?thesis by (auto simp: Let_def)
    qed
  qed
qed

lemma connectEstablished_inv:
  assumes K: "ctl_sound K" and CB: "callbacks_ok CB" and inv: "stream_inv (cn, s)"
    and st: "conn_state cn = kConnecting"
  shows "\<exists>st'. connectEstablished K CB (cn, s) = Inr st' \<and> stream_inv st'"
proof -
  let ?c = "conn_channel cn" and ?fd = "conn_fd cn"
  obtain ch where i: "poller_inv s" "can_register s ?c" "buffer_inv (inputBuffer cn)"
    "buffer_inv (outputBuffer cn)" "heap s ?c = Some ch" "ch_fd ch = ?fd"
    "isWriting ch \<longleftrightarrow> readable (outputBuffer cn) \<noteq> []"
    "io_inv ?fd kConnecting (readable (inputBuffer cn)) (readable (outputBuffer cn))
       (accepted_bytes s) (consumed_bytes s) (life s)"
    using stream_invD [OF inv] st by (metis conn_state.distinct(1))
  let ?s = "s\<lparr>heap := (heap s)(?c \<mapsto> tie ch)\<rparr>"
  have s: "poller_inv ?s" "can_register ?s ?c" "heap ?s ?c = Some (tie ch)"
    using poller_inv_modify [OF i(1,5), of "tie ch"] i(2,5) by (simp_all add: tie_def can_register_def)
  obtain s1 ch1 e where e: "Channel_set add_reading K ?c ?s = Inr s1" "later ?c ?s [e] s1"
    "quiet_event ?fd e" "heap s1 ?c = Some ch1" "isWriting ch1 = isWriting (add_reading (tie ch))"
    "ch_fd ch1 = ch_fd (tie ch)"
    by (rule later_set [OF K s event_setters(1)])
  have l: "later ?c s [e] s1" using e(2) by (simp add: later_def)
  have tied: "isWriting (tie ch) = isWriting ch" "ch_fd (tie ch) = ch_fd ch"
    by (simp_all add: tie_def isWriting_def)
  have "io_inv ?fd kConnected (readable (inputBuffer cn)) (readable (outputBuffer cn))
       (accepted_bytes s) (consumed_bytes s) (life s @ [e])"
    using io_inv_quiet1 [OF io_inv_up [OF i(8)] e(3)] .
  then have "stream_inv (setState kConnected cn, s1)"
    by (intro later_kept [OF inv l _ _ _ _ e(4)])
       (use i e tied in \<open>simp_all add: setState_def\<close>)
  with call_cb_ok(1) [OF CB] e(1) i(5) show ?thesis
    by (simp add: connectEstablished_def with_channel_def enableReading_def)
qed

lemma Channel_remove_inv:
  assumes K: "ctl_sound K" and inv: "stream_inv (cn, s)"
  shows "\<exists>s'. Channel_remove K (conn_channel cn) s = Inr s' \<and> stream_inv (cn, s') \<and>
    (\<forall>fd ev. channels s' fd \<noteq> Some (conn_channel cn) \<and> interest (trace s') fd \<noteq> Some (ev, conn_channel cn))"
proof -
  let ?c = "conn_channel cn"
  obtain ch where i: "poller_inv s" "can_register s ?c" "buffer_inv (inputBuffer cn)"
    "buffer_inv (outputBuffer cn)" "heap s ?c = Some ch" "ch_fd ch = conn_fd cn"
    "isWriting ch \<longleftrightarrow> conn_state cn \<noteq> kDisconnected \<and> readable (outputBuffer cn) \<noteq> []"
    "io_inv (conn_fd cn) (conn_state cn) (readable (inputBuffer cn)) (readable (outputBuffer cn))
       (accepted_bytes s) (consumed_bytes s) (life s)"
    using stream_invD [OF inv] by metis
  have new: "ch_index ch = kNew \<Longrightarrow> channels s (ch_fd ch) = None"
    using i(2,5) by (auto simp: can_register_def)
  let ?es = "if ch_index ch = kAdded then [EpollCtl CTL_DEL (ch_fd ch) (ch_events ch) ?c True] else []"
  let ?s = "s\<lparr>channels := (channels s)(ch_fd ch := None),
      heap := (heap s)(?c \<mapsto> ch\<lparr>ch_index := kNew\<rparr>), trace := trace s @ ?es\<rparr>"
  have r: "Channel_remove K ?c s = Inr ?s"
    unfolding Channel_remove_def EventLoop_removeChannel_def by (rule removeChannel_effect [OF K i(1,5)])
  have gone: "poller_inv ?s" "channels ?s fd \<noteq> Some ?c" "interest (trace ?s) fd \<noteq> Some (ev, ?c)" for fd ev
    using poller_inv_remove(1,4,5) [OF i(1,5) new] by blast+
  then have l: "later ?c s ?es ?s" by (simp add: later_def can_register_def)
  have "stream_inv (cn, ?s)"
    by (rule later_kept [OF inv l refl refl i(3,4), where ch = "ch\<lparr>ch_index := kNew\<rparr>"])
       (use i io_inv_quiet1 [OF i(8)] in \<open>simp_all add: isWriting_def\<close>)
  with r gone show ?thesis by blast
qed

lemma connectDestroyed_inv:
  assumes K: "ctl_sound K" and CB: "callbacks_ok CB" and inv: "stream_inv (cn, s)"
  shows "\<exists>cn' s'. connectDestroyed K CB (cn, s) = Inr (cn', s') \<and> stream_inv (cn', s') \<and>
    (\<forall>fd ev. channels s' fd \<noteq> Some (conn_channel cn') \<and> interest (trace s') fd \<noteq> Some (ev, conn_channel cn'))"
proof -
  have "\<exists>cn2 s2. (if conn_state cn = kConnected then
      rbind (disableAll K (conn_channel cn) s) (\<lambda>s1.
        call_cb (connectionCallback CB) (setState kDisconnected cn, s1))
      else Inr (cn, s)) = Inr (cn2, s2) \<and> stream_inv (cn2, s2)"
  proof (cases "conn_state cn = kConnected")
    case True
    let ?CB = "CB\<lparr>closeCallback := Some Inr\<rparr>"
    have "callbacks_ok ?CB" using CB by (auto simp: callbacks_ok_def cb_ok_def)
    from handleClose_inv [OF K this inv] True show ?thesis
      by (auto simp: handleClose_def call_cb_def rbind_def split: sum.splits)
  next
    case False
    with inv show ?thesis by simp
  qed
  then obtain cn2 s2 where 2: "(if conn_state cn = kConnected then
      rbind (disableAll K (conn_channel cn) s) (\<lambda>s1.
        call_cb (connectionCallback CB) (setState kDisconnected cn, s1))
      else Inr (cn, s)) = Inr (cn2, s2)" "stream_inv (cn2, s2)" by blast
  with Channel_remove_inv [OF K 2(2)] show ?thesis
    by (auto simp: connectDestroyed_def)
qed

subsection \<open>The owner's operations\<close>

text \<open>
  What the owner may do with a connection in the loop's thread, also inside a callback:
  send, shut down, take bytes from the input buffer, queue a functor, set the context. The
  history fields are updated beside the program's own operation.
\<close>

datatype ('f, 'c) client_op =
  OSend bytes | OShutdown | ORetrieve nat | OQueue 'f | OContext 'c

definition client_send ::
  "kernel \<Rightarrow> (nat \<Rightarrow> nat \<Rightarrow> 'f) \<Rightarrow> bytes \<Rightarrow> ('f, 'c, 'z) client_st \<Rightarrow> ('f, 'c, 'z) client_st res" where
  "client_send K bnd d st =
     rbind (send K (threadId (snd st)) bnd 0 d st) (\<lambda>(cn, s).
       Inr (cn, s\<lparr>accepted_bytes := accepted_bytes s @
         (if conn_state (fst st) = kConnected \<and> takes K (threadId (snd st)) d st then d else [])\<rparr>))"

fun client_do ::
  "kernel \<Rightarrow> (nat \<Rightarrow> nat \<Rightarrow> 'f) \<Rightarrow> 'f \<Rightarrow> ('f, 'c) client_op \<Rightarrow> ('f, 'c, 'z) client_st \<Rightarrow> ('f, 'c, 'z) client_st res" where
  "client_do K bnd shf (OSend d) st = client_send K bnd d st"
| "client_do K bnd shf OShutdown st = shutdown (threadId (snd st)) shf st"
| "client_do K bnd shf (ORetrieve n) (cn, s) =
     Inr (cn\<lparr>inputBuffer := retrieve (inputBuffer cn) n\<rparr>,
          s\<lparr>consumed_bytes := consumed_bytes s @ take n (readable (inputBuffer cn))\<rparr>)"
| "client_do K bnd shf (OQueue f) (cn, s) = Inr (cn, queueInLoop (threadId s) f s)"
| "client_do K bnd shf (OContext c) (cn, s) = Inr (setContext c cn, s)"

lemma retrieve_inv:
  assumes "stream_inv (cn, s)"
  shows "stream_inv (cn\<lparr>inputBuffer := retrieve (inputBuffer cn) n\<rparr>,
    s\<lparr>consumed_bytes := consumed_bytes s @ take n (readable (inputBuffer cn))\<rparr>)"
proof -
  have "poller_inv (s\<lparr>consumed_bytes := b\<rparr>) = poller_inv s"
    "can_register (s\<lparr>consumed_bytes := b\<rparr>) c = can_register s c" "life (s\<lparr>consumed_bytes := b\<rparr>) = life s" for b c
    by (simp_all add: poller_inv_def channel_ok_def can_register_def life_def)
  with assms show ?thesis
    by (auto simp: stream_inv_def conn_inv_def io_inv_def)
qed

lemma shutdown_inv:
  assumes inv: "stream_inv (cn, s)"
  shows "\<exists>st'. shutdown (threadId s) f (cn, s) = Inr st' \<and> stream_inv st'"
proof (cases "conn_state cn = kConnected")
  case True
  let ?cn = "setState kDisconnecting cn"
  have "stream_inv (?cn, s)"
    using inv True io_inv_disconnecting
    by (auto simp: stream_inv_def conn_inv_def setState_def)
  then show ?thesis
    using shutdownInLoop_inv [of ?cn s] True by (auto simp: shutdown_def isInLoopThread_def setState_def)
qed (use inv in \<open>simp add: shutdown_def\<close>)

lemma client_send_inv:
  assumes K: "ctl_sound K" "write_sound K" and inv: "stream_inv (cn, s)"
  shows "\<exists>st'. client_send K bnd d (cn, s) = Inr st' \<and> stream_inv st'"
proof (cases "conn_state cn = kConnected")
  case True
  let ?b = "if takes K (threadId s) d (cn, s) then d else []"
  obtain out s' where s': "sendInLoop K (threadId s) d (cn, s) = Inr (cn\<lparr>outputBuffer := out\<rparr>, s')"
    "stream_inv (cn\<lparr>outputBuffer := out\<rparr>, s'\<lparr>accepted_bytes := accepted_bytes s @ ?b\<rparr>)"
    "accepted_bytes s' = accepted_bytes s"
    using sendInLoop_inv [OF K inv True, of "threadId s" d] by blast
  have "client_send K bnd d (cn, s) = Inr (cn\<lparr>outputBuffer := out\<rparr>, s'\<lparr>accepted_bytes := accepted_bytes s @ ?b\<rparr>)"
    unfolding client_send_def send_def using True s'(1,3) by (simp add: isInLoopThread_def)
  with s'(2) show ?thesis by blast
next
  case False
  then have "client_send K bnd d (cn, s) = Inr (cn, s)"
    by (simp add: client_send_def send_def)
  with inv show ?thesis by simp
qed

lemma client_do_inv:
  assumes K: "ctl_sound K" "write_sound K" and inv: "stream_inv (cn, s)"
  shows "\<exists>st'. client_do K bnd shf op (cn, s) = Inr st' \<and> stream_inv st'"
proof (cases op)
  case (OQueue f)
  have "quiet_step cn s (queue_opt (threadId s) (Some f) s)"
    using inv by (intro queue_opt_quiet) (simp_all add: stream_inv_def conn_inv_def)
  from quiet_step_inv [OF inv this] OQueue show ?thesis by (simp add: queue_opt_def)
next
  case (OContext c)
  with inv show ?thesis by (simp add: setContext_def stream_inv_def conn_inv_def)
qed (use client_send_inv [OF K inv] shutdown_inv [OF inv] retrieve_inv [OF inv] in simp_all)

subsection \<open>Runs of a connection\<close>

text \<open>Callbacks that do, depending on the state they find, any sequence of these operations.\<close>

fun run_script ::
  "kernel \<Rightarrow> (nat \<Rightarrow> nat \<Rightarrow> 'f) \<Rightarrow> 'f \<Rightarrow> ('f, 'c) client_op list \<Rightarrow> ('f, 'c, 'z) client_st \<Rightarrow>
   ('f, 'c, 'z) client_st res" where
  "run_script K bnd shf [] st = Inr st"
| "run_script K bnd shf (op # ops) st = rbind (client_do K bnd shf op st) (run_script K bnd shf ops)"

definition scripted ::
  "kernel \<Rightarrow> (nat \<Rightarrow> nat \<Rightarrow> 'f) \<Rightarrow> 'f \<Rightarrow>
   (('f, 'c, 'z) client_st \<Rightarrow> ('f, 'c) client_op list) \<Rightarrow>
   (timestamp \<Rightarrow> ('f, 'c, 'z) client_st \<Rightarrow> ('f, 'c) client_op list) \<Rightarrow>
   (('f, 'c, 'z) client_st \<Rightarrow> ('f, 'c) client_op list) \<Rightarrow> ('f, 'c, 'z) client_st conn_callbacks" where
  "scripted K bnd shf onConn onMsg onClose =
     \<lparr>connectionCallback = Some (\<lambda>st. run_script K bnd shf (onConn st) st),
      messageCallback = Some (\<lambda>t st. run_script K bnd shf (onMsg t st) st),
      closeCallback = Some (\<lambda>st. run_script K bnd shf (onClose st) st)\<rparr>"

lemma run_script_inv:
  assumes "ctl_sound K" "write_sound K" "stream_inv st"
  shows "\<exists>st'. run_script K bnd shf ops st = Inr st' \<and> stream_inv st'"
  using assms(3)
proof (induction ops arbitrary: st)
  case (Cons op ops)
  obtain cn s where "st = (cn, s)" by (cases st)
  with client_do_inv [OF assms(1,2), of cn s bnd shf op] Cons show ?case by auto
qed auto

lemma script_cb_ok:
  "ctl_sound K \<Longrightarrow> write_sound K \<Longrightarrow> cb_ok (\<lambda>st. run_script K bnd shf (f st) st)"
  unfolding cb_ok_def by (intro allI impI run_script_inv)

lemma scripted_ok:
  assumes "ctl_sound K" "write_sound K"
  shows "callbacks_ok (scripted K bnd shf onConn onMsg onClose)"
  using assms by (simp add: callbacks_ok_def scripted_def script_cb_ok)

inductive conn_run ::
  "kernel \<Rightarrow> (nat \<Rightarrow> nat \<Rightarrow> 'f) \<Rightarrow> 'f \<Rightarrow> ('f, 'c, 'z) client_st conn_callbacks \<Rightarrow> ('f, 'c, 'z) client_st \<Rightarrow> bool"
  for K bnd shf CB where
  made: "poller_inv s \<Longrightarrow> heap s c = None \<Longrightarrow> channels s sockfd = None \<Longrightarrow>
    TcpConnection_ctor (Some s) nm sockfd la pa c rd wr cl er ctx = Inr (cn, s') \<Longrightarrow>
    conn_run K bnd shf CB (cn, s'\<lparr>accepted_bytes := [], consumed_bytes := [], born := length (trace s')\<rparr>)"
| established: "conn_run K bnd shf CB (cn, s) \<Longrightarrow> conn_state cn = kConnecting \<Longrightarrow>
    connectEstablished K CB (cn, s) = Inr st' \<Longrightarrow> conn_run K bnd shf CB st'"
| read: "conn_run K bnd shf CB st \<Longrightarrow> handleRead K CB t st = Inr st' \<Longrightarrow> conn_run K bnd shf CB st'"
| written: "conn_run K bnd shf CB (cn, s) \<Longrightarrow> handleWrite K (threadId s) (cn, s) = Inr st' \<Longrightarrow>
    conn_run K bnd shf CB st'"
| close: "conn_run K bnd shf CB st \<Longrightarrow> handleClose K CB st = Inr st' \<Longrightarrow> conn_run K bnd shf CB st'"
| error: "conn_run K bnd shf CB st \<Longrightarrow> handleError st = Inr st' \<Longrightarrow> conn_run K bnd shf CB st'"
| destroyed: "conn_run K bnd shf CB st \<Longrightarrow> connectDestroyed K CB st = Inr st' \<Longrightarrow> conn_run K bnd shf CB st'"
| owner: "conn_run K bnd shf CB st \<Longrightarrow> client_do K bnd shf op st = Inr st' \<Longrightarrow> conn_run K bnd shf CB st'"
| others: "conn_run K bnd shf CB (cn, s) \<Longrightarrow> quiet_step cn s s' \<Longrightarrow> conn_run K bnd shf CB (cn, s')"

lemma ctor_inv:
  assumes "poller_inv s" "heap s c = None" "channels s sockfd = None"
    "TcpConnection_ctor (Some s) nm sockfd la pa c rd wr cl er ctx = Inr (cn, s')"
  shows "stream_inv (cn, s'\<lparr>accepted_bytes := [], consumed_bytes := [], born := length (trace s')\<rparr>)"
proof -
  let ?ch = "(Channel_ctor sockfd)\<lparr>ch_readCallback := Some rd, ch_writeCallback := Some wr,
      ch_closeCallback := Some cl, ch_errorCallback := Some er\<rparr>"
  let ?s = "new_channel c ?ch s"
  have "poller_inv ?s" using assms(1,2) by (intro poller_inv_new) (simp_all add: Channel_ctor_def kNew_def)
  moreover have "can_register ?s c" using assms(3) by (simp add: can_register_def new_channel_def Channel_ctor_def)
  ultimately have l: "poller_inv (log_sys (SockKeepAlive sockfd) ?s)" "can_register (log_sys (SockKeepAlive sockfd) ?s) c"
    using poller_inv_trace [of "SockKeepAlive sockfd" ?s] by (simp_all add: log_sys_def)
  have ghost: "poller_inv (s'\<lparr>accepted_bytes := a, consumed_bytes := b, born := n\<rparr>) = poller_inv s'"
    "can_register (s'\<lparr>accepted_bytes := a, consumed_bytes := b, born := n\<rparr>) c = can_register s' c" for a b n
    by (simp_all add: poller_inv_def channel_ok_def can_register_def)
  have s': "s' = log_sys (SockKeepAlive sockfd) ?s" "conn_channel cn = c" "conn_fd cn = sockfd"
    "inputBuffer cn = Buffer_ctor kInitialSize" "outputBuffer cn = Buffer_ctor kInitialSize"
    using assms(4) by (auto simp: TcpConnection_ctor_def)
  have "\<not> isWriting ?ch" by (simp add: isWriting_def Channel_ctor_def)
  with s' l ghost show ?thesis
    by (simp add: stream_inv_def conn_inv_def io_inv_def life_def)
       (simp add: log_sys_def new_channel_def Channel_ctor_def)
qed

lemma conn_run_inv:
  assumes K: "ctl_sound K" "write_sound K" "read_sound K" and CB: "callbacks_ok CB"
    and run: "conn_run K bnd shf CB st"
  shows "stream_inv st"
  using run
proof (induction rule: conn_run.induct)
  case (made s c sockfd nm la pa rd wr cl er ctx cn s')
  then show ?case by (rule ctor_inv)
next
  case (established cn s st')
  then show ?case using connectEstablished_inv [OF K(1) CB] by fastforce
next
  case (read st t st')
  then show ?case using handleRead_inv [OF K(1,3) CB, of "fst st" "snd st" t] by auto
next
  case (written cn s st')
  then show ?case using handleWrite_inv [OF K(1,2), of cn s "threadId s"] by auto
next
  case (close st st')
  then show ?case using handleClose_inv [OF K(1) CB, of "fst st" "snd st"] by auto
next
  case (error st st')
  then show ?case using handleError_inv [of "fst st" "snd st"] by auto
next
  case (destroyed st st')
  then show ?case using connectDestroyed_inv [OF K(1) CB, of "fst st" "snd st"] by auto
next
  case (owner st op st')
  then show ?case using client_do_inv [OF K(1,2), of "fst st" "snd st" bnd shf op] by auto
next
  case (others cn s s')
  then show ?case using quiet_step_inv by blast
qed

subsection \<open>Properties\<close>

text \<open>
  C3: in every run of a connection, whatever its owner's callbacks send, take or shut
  down, the bytes accepted for sending are, in order, those the kernel has taken followed by
  those in the output buffer; the bytes the kernel has delivered are those the owner has
  taken followed by those in the input buffer; and the channel asks for writability exactly
  while a live connection has bytes to send.
\<close>

theorem connection_streams:
  assumes "ctl_sound K" "write_sound K" "read_sound K"
    and "conn_run K bnd shf (scripted K bnd shf onConn onMsg onClose) (cn, s)"
  shows "accepted_bytes s = sent (conn_fd cn) (life s) @ readable (outputBuffer cn) \<and>
    received (conn_fd cn) (life s) = consumed_bytes s @ readable (inputBuffer cn) \<and>
    (\<exists>ch. heap s (conn_channel cn) = Some ch \<and> ch_fd ch = conn_fd cn \<and>
      (isWriting ch \<longleftrightarrow> conn_state cn \<noteq> kDisconnected \<and> readable (outputBuffer cn) \<noteq> []))"
  using conn_run_inv [OF assms(1-3) scripted_ok [OF assms(1,2)] assms(4)]
  by (simp add: stream_inv_def conn_inv_def io_inv_def)

text \<open>An echo server's connection: established, one message received and sent back.\<close>

definition echo_kernel :: kernel where
  "echo_kernel = ideal_kernel\<lparr>k_readv := (\<lambda>tr fd c. ReadGot (take c ''ping''))\<rparr>"

lemma echo_kernel_sound [simp]: "ctl_sound echo_kernel" "write_sound echo_kernel" "read_sound echo_kernel"
  by (simp_all add: echo_kernel_def ideal_kernel_def ctl_sound_def write_sound_def read_sound_def)

definition echo :: "(nat, unit, unit) client_st conn_callbacks" where
  "echo = scripted echo_kernel (\<lambda>a n. 50) 51 (\<lambda>st. [])
     (\<lambda>t (cn, s). [OSend (readable (inputBuffer cn)), ORetrieve (readableBytes (inputBuffer cn)), OShutdown]) (\<lambda>st. [OQueue 52])"

definition demo_client_loop :: "(nat, unit) client_loop_scheme" where
  "demo_client_loop = event_loop.extend (new_loop 4 100 0 7)
     \<lparr>accepted_bytes = [], consumed_bytes = [], born = 0\<rparr>"

lemma demo_client_loop_inv: "poller_inv demo_client_loop"
  using new_loop_inv(1) [of 4 100 0 7]
  by (simp add: demo_client_loop_def event_loop.extend_def poller_inv_def channel_ok_def)

lemma echo_established:
  obtains cn s where "conn_run echo_kernel (\<lambda>a n. 50) 51 echo (cn, s)" "conn_state cn = kConnected"
    "readable (inputBuffer cn) = []" "conn_fd cn = 5" "accepted_bytes s = []" "threadId s = 100"
proof -
  have free: "heap demo_client_loop 1 = None" "channels demo_client_loop 5 = None" "threadId demo_client_loop = 100"
    by (simp_all add: demo_client_loop_def event_loop.extend_def new_loop_def)
  obtain cn s' where c: "TcpConnection_ctor (Some demo_client_loop) ''c'' 5 undefined undefined 1 10 11 12 13 () = Inr (cn, s')"
    "conn_state cn = kConnecting" "conn_fd cn = 5" "inputBuffer cn = Buffer_ctor kInitialSize" "threadId s' = 100"
    by (simp add: TcpConnection_ctor_def log_sys_def new_channel_def free)
  let ?s = "s'\<lparr>accepted_bytes := [], consumed_bytes := [], born := length (trace s')\<rparr>"
  have 1: "conn_run echo_kernel (\<lambda>a n. 50) 51 echo (cn, ?s)"
    by (rule conn_run.made [OF demo_client_loop_inv free(1,2) c(1)])
  have inv: "stream_inv (cn, ?s)" by (rule ctor_inv [OF demo_client_loop_inv free(1,2) c(1)])
  obtain ch where i: "poller_inv ?s" "can_register ?s (conn_channel cn)" "heap ?s (conn_channel cn) = Some ch"
    using stream_invD [OF inv] by metis
  let ?t = "?s\<lparr>heap := (heap ?s)(conn_channel cn \<mapsto> tie ch)\<rparr>"
  have t: "poller_inv ?t" "can_register ?t (conn_channel cn)" "heap ?t (conn_channel cn) = Some (tie ch)"
    using poller_inv_modify [OF i(1,3), of "tie ch"] i(2,3) by (simp_all add: tie_def can_register_def)
  obtain s1 ch1 e where e: "Channel_set add_reading echo_kernel (conn_channel cn) ?t = Inr s1"
    "later (conn_channel cn) ?t [e] s1"
    by (rule later_set [OF echo_kernel_sound(1) t event_setters(1)])
  have "connectEstablished echo_kernel echo (cn, ?s) = Inr (setState kConnected cn, s1)"
    using e(1) i(3) by (simp add: connectEstablished_def with_channel_def enableReading_def echo_def
        scripted_def call_cb_def)
  from conn_run.established [OF 1 c(2) this] show thesis
    by (rule that) (use c e(2) in \<open>simp_all add: setState_def later_def\<close>)
qed

lemma echo_sends:
  obtains cn s where "conn_run echo_kernel (\<lambda>a n. 50) 51 echo (cn, s)" "conn_state cn = kConnected"
    "conn_fd cn = 5" "accepted_bytes s = ''hi''"
proof (rule echo_established)
  fix cn s
  assume e: "conn_run echo_kernel (\<lambda>a n. 50) 51 echo (cn, s)" "conn_state cn = kConnected"
    "readable (inputBuffer cn) = []" "conn_fd cn = 5" "accepted_bytes s = []" "threadId s = 100"
  have inv: "stream_inv (cn, s)"
    using conn_run_inv [OF echo_kernel_sound scripted_ok [OF echo_kernel_sound(1,2)] e(1) [unfolded echo_def]] .
  let ?b = "if takes echo_kernel (threadId s) ''hi'' (cn, s) then ''hi'' else []"
  obtain out s' where s': "sendInLoop echo_kernel (threadId s) ''hi'' (cn, s) = Inr (cn\<lparr>outputBuffer := out\<rparr>, s')"
    "accepted_bytes s' = accepted_bytes s"
    using sendInLoop_inv [OF echo_kernel_sound(1,2) inv e(2), of "threadId s" "''hi''"] by blast
  obtain ch where "heap s (conn_channel cn) = Some ch" using stream_invD [OF inv] by metis
  then have "takes echo_kernel (threadId s) ''hi'' (cn, s)"
    using e(2) by (simp add: takes_def send_direct_def echo_kernel_def ideal_kernel_def)
  then have "client_do echo_kernel (\<lambda>a n. 50) 51 (OSend ''hi'') (cn, s) =
      Inr (cn\<lparr>outputBuffer := out\<rparr>, s'\<lparr>accepted_bytes := ''hi''\<rparr>)"
    using s' e(2,5) by (simp add: client_send_def send_def isInLoopThread_def)
  from conn_run.owner [OF e(1) this] show thesis
    by (rule that) (use e in simp_all)
qed

theorem connection_streams_witness:
  "\<exists>cn s. conn_run echo_kernel (\<lambda>a n. 50) 51 echo (cn, s) \<and> conn_state cn = kConnected \<and>
     sent 5 (life s) @ readable (outputBuffer cn) = ''hi''"
proof -
  obtain cn s where e: "conn_run echo_kernel (\<lambda>a n. 50) 51 echo (cn, s)" "conn_state cn = kConnected"
    "conn_fd cn = 5" "accepted_bytes s = ''hi''"
    by (rule echo_sends)
  have "accepted_bytes s = sent (conn_fd cn) (life s) @ readable (outputBuffer cn)"
    using connection_streams [OF echo_kernel_sound e(1) [unfolded echo_def]] by blast
  with e show ?thesis by metis
qed


lemma echo_shut:
  obtains cn s where "conn_run echo_kernel (\<lambda>a n. 50) 51 echo (cn, s)" "conn_fd cn = 5"
    "SockShutdownWr 5 \<in> set (life s)" "conn_state cn = kDisconnecting"
proof (rule echo_established)
  fix cn s
  assume e: "conn_run echo_kernel (\<lambda>a n. 50) 51 echo (cn, s)" "conn_state cn = kConnected"
    "readable (inputBuffer cn) = []" "conn_fd cn = 5" "accepted_bytes s = []" "threadId s = 100"
  have inv: "stream_inv (cn, s)"
    using conn_run_inv [OF echo_kernel_sound scripted_ok [OF echo_kernel_sound(1,2)] e(1) [unfolded echo_def]] .
  obtain ch where i: "heap s (conn_channel cn) = Some ch" "born s \<le> length (trace s)"
    "isWriting ch \<longleftrightarrow> readable (outputBuffer cn) \<noteq> []"
    "io_inv (conn_fd cn) (conn_state cn) (readable (inputBuffer cn)) (readable (outputBuffer cn))
       (accepted_bytes s) (consumed_bytes s) (life s)"
    using stream_invD [OF inv] e(2) by (metis conn_state.distinct(3))
  then have "\<not> isWriting ch" using e(5) by (simp add: io_inv_def)
  then have "client_do echo_kernel (\<lambda>a n. 50) 51 OShutdown (cn, s) =
      Inr (setState kDisconnecting cn, log_sys (SockShutdownWr 5) s)"
    using e(2,4) i(1) by (simp add: shutdown_def isInLoopThread_def shutdownInLoop_def with_channel_def setState_def)
  from conn_run.owner [OF e(1) this] show thesis
    by (rule that) (use e i(2) in \<open>simp_all add: setState_def log_sys_def life_def\<close>)
qed




text \<open>
  What \<open>sendInLoop\<close> queues. The write-complete functor is queued when the direct write
  took everything, and the high-water-mark functor, with the new length of the output
  buffer, when this call takes the buffer from below the mark to above it; nothing else.
\<close>

theorem sendInLoop_queues:
  assumes "ctl_sound K" "poller_inv s" "can_register s (conn_channel cn)"
    and "heap s (conn_channel cn) = Some ch" "conn_state cn \<noteq> kDisconnected"
    and "send_direct K tid d ch (cn, s) = (nw, rem, fault, s1)"
  defines "old \<equiv> readableBytes (outputBuffer cn)"
  shows "\<exists>cn' s'. sendInLoop K tid d (cn, s) = Inr (cn', s') \<and>
    pendingFunctors s' = pendingFunctors s
      @ (if \<not> isWriting ch \<and> old = 0 \<and> \<not> fault \<and> rem = 0 \<and>
            (\<exists>n. k_write K (trace s) (ch_fd ch) d = WriteDone n)
         then (case writeCompleteCallback cn of None \<Rightarrow> [] | Some f \<Rightarrow> [f]) else [])
      @ (if \<not> fault \<and> rem > 0 \<and> old + rem > highWaterMark cn \<and> old < highWaterMark cn
         then (case highWaterMarkCallback cn of None \<Rightarrow> [] | Some f \<Rightarrow> [f (old + rem)]) else [])"
proof -
  have more: "pendingFunctors s' = pendingFunctors (s'' :: ('a, 'b) event_loop_scheme)"
    if "reactor.more s' = reactor.more s''" for s' s''
    using that by (cases s'; cases s''; simp)
  have q: "pendingFunctors (queue_opt tid cb (s :: ('a, 'b) event_loop_scheme)) =
      pendingFunctors s @ (case cb of None \<Rightarrow> [] | Some f \<Rightarrow> [f])" for cb s
    by (simp add: queue_opt_def split: option.split)
  have s1: "heap s1 = heap s \<and> poller_inv s1 \<and> can_register s1 (conn_channel cn) \<and>
      pendingFunctors s1 = pendingFunctors s
      @ (if \<not> isWriting ch \<and> old = 0 \<and> \<not> fault \<and> rem = 0 \<and>
            (\<exists>n. k_write K (trace s) (ch_fd ch) d = WriteDone n)
         then (case writeCompleteCallback cn of None \<Rightarrow> [] | Some f \<Rightarrow> [f]) else [])"
    using assms(2,3,6)
    by (auto simp: send_direct_def Let_def old_def q log_sys_def queue_opt_frame(1-3) poller_inv_trace
        split: if_splits write_ret.splits)
  let ?cb = "if old + rem > highWaterMark cn \<and> old < highWaterMark cn
      then map_option (\<lambda>f. f (old + rem)) (highWaterMarkCallback cn) else None"
  let ?s2 = "queue_opt tid ?cb s1"
  have s2: "poller_inv ?s2" "can_register ?s2 (conn_channel cn)"
    using s1 by (simp_all add: queue_opt_frame(2,3))
  obtain s3 where s3: "enableWriting K (conn_channel cn) ?s2 = Inr s3"
    unfolding enableWriting_def using Channel_set_returns [OF assms(1) s2 event_setters(3)] by blast
  have p3: "pendingFunctors s3 = pendingFunctors ?s2"
    by (rule more) (rule Channel_set_result(2) [OF assms(1) s2 event_setters(3) s3 [unfolded enableWriting_def]])
  have cb: "?s2 = (if old + rem > highWaterMark cn \<and> old < highWaterMark cn
      then queue_opt tid (map_option (\<lambda>f. f (old + rem)) (highWaterMarkCallback cn)) s1 else s1)"
    by (simp add: queue_opt_def)
  have "sendInLoop K tid d (cn, s) =
      (if \<not> fault \<and> rem > 0 then
         (if \<not> isWriting ch then rbind (enableWriting K (conn_channel cn) ?s2) (\<lambda>s3.
            Inr (cn\<lparr>outputBuffer := append_buf (outputBuffer cn) (take rem (drop nw d))\<rparr>, s3))
          else Inr (cn\<lparr>outputBuffer := append_buf (outputBuffer cn) (take rem (drop nw d))\<rparr>, ?s2))
       else Inr (cn, s1))"
    unfolding cb using assms(4-6) by (simp add: sendInLoop_def with_channel_def old_def Let_def)
  then show ?thesis
    using s1 s3 p3 q [of ?cb s1] by (auto split: option.splits)
qed

definition blocked_kernel :: kernel where
  "blocked_kernel = ideal_kernel\<lparr>k_write := (\<lambda>tr fd d. WriteErr EWOULDBLOCK)\<rparr>"

definition demo_conn :: "(nat, unit) tcp_connection" where
  "demo_conn =
     \<lparr>conn_name = ''c'', conn_state = kConnected, conn_reading = True, conn_fd = 5, conn_channel = 1,
      localAddr = \<lparr>sin_family = AF_INET, sin_port = 0, s_addr = 0\<rparr>,
      peerAddr = \<lparr>sin_family = AF_INET, sin_port = 0, s_addr = 0\<rparr>,
      writeCompleteCallback = Some 60, highWaterMarkCallback = Some (\<lambda>n. 100 + n), highWaterMark = 2,
      inputBuffer = Buffer_ctor kInitialSize, outputBuffer = Buffer_ctor kInitialSize, conn_context = ()\<rparr>"

definition demo_conn_loop :: "nat event_loop" where
  "demo_conn_loop = new_channel 1 (Channel_ctor 5) (new_loop 4 100 0 7)"

lemma demo_conn_loop_facts:
  "poller_inv demo_conn_loop" "can_register demo_conn_loop 1" "heap demo_conn_loop 1 = Some (Channel_ctor 5)"
  "pendingFunctors demo_conn_loop = []" "threadId demo_conn_loop = 100"
proof -
  show "poller_inv demo_conn_loop"
    unfolding demo_conn_loop_def
    by (rule poller_inv_new [OF new_loop_inv(1)]) (simp_all add: new_loop_def Channel_ctor_def kNew_def)
qed (simp_all add: demo_conn_loop_def new_channel_def can_register_def new_loop_def Channel_ctor_def)

theorem sendInLoop_queues_witness:
  "\<exists>cn' s'. sendInLoop blocked_kernel 100 ''abc'' (demo_conn, demo_conn_loop) = Inr (cn', s') \<and>
     pendingFunctors s' = [103]"
proof -
  let ?s1 = "log_sys (SockWrite 5 ''abc'' (WriteErr EWOULDBLOCK)) demo_conn_loop"
  have w: "\<not> isWriting (Channel_ctor 5 :: nat channel)" by (simp add: isWriting_def Channel_ctor_def)
  have fd: "ch_fd (Channel_ctor 5) = 5" by (simp add: Channel_ctor_def)
  have "send_direct blocked_kernel 100 ''abc'' (Channel_ctor 5) (demo_conn, demo_conn_loop) = (0, 3, False, ?s1)"
    using w by (simp add: send_direct_def demo_conn_def blocked_kernel_def fd EPIPE_def ECONNRESET_def
        EWOULDBLOCK_def)
  moreover have "ctl_sound blocked_kernel"
    using ideal_kernel_sound(1) by (simp add: blocked_kernel_def ctl_sound_def)
  ultimately show ?thesis
    using sendInLoop_queues [of blocked_kernel demo_conn_loop demo_conn "Channel_ctor 5" 100 "''abc''" 0 3 False ?s1]
      demo_conn_loop_facts
    by (simp add: demo_conn_def)
qed

text \<open>
  \<open>send\<close> from another thread does not copy the bytes: what it queues depends on their
  address and length only, so the bytes sent are those found at the address when the loop
  runs the functor; and the version that takes a buffer leaves the buffer unconsumed there,
  while in the loop's thread it empties it.
\<close>

theorem send_cross_thread_by_address:
  assumes "conn_state cn = kConnected" "tid \<noteq> threadId s"
  shows "(\<forall>d'. length d = length d' \<longrightarrow> send K tid bnd addr d (cn, s) = send K tid bnd addr d' (cn, s)) \<and>
    send K tid bnd addr d (cn, s) = Inr (cn, queueInLoop tid (bnd addr (length d)) s) \<and>
    send_Buffer K tid bnd addr b (cn, s) =
      Inr (b, cn, queueInLoop tid (bnd (addr + readerIndex b) (readableBytes b)) s) \<and>
    (\<forall>b' st. send_Buffer K (threadId s) bnd addr b (cn, s) = Inr (b', st) \<longrightarrow> readable b' = [])"
  using assms
  by (auto simp: send_def send_Buffer_def isInLoopThread_def peek_def rbind_def split: sum.splits)

theorem send_cross_thread_by_address_witness:
  "send ideal_kernel 101 (\<lambda>a n. a + n) 7000 ''abc'' (demo_conn, demo_conn_loop) =
     send ideal_kernel 101 (\<lambda>a n. a + n) 7000 ''xyz'' (demo_conn, demo_conn_loop) \<and>
   send_Buffer ideal_kernel 101 (\<lambda>a n. a + n) 7000 (Buffer_ctor 4) (demo_conn, demo_conn_loop) =
     Inr (Buffer_ctor 4, demo_conn, queueInLoop 101 7008 demo_conn_loop)"
proof -
  have "conn_state demo_conn = kConnected" "101 \<noteq> threadId demo_conn_loop"
    using demo_conn_loop_facts(5) by (simp_all add: demo_conn_def)
  note t = send_cross_thread_by_address [OF this, of "''abc''" ideal_kernel "\<lambda>a n. a + n" 7000 "Buffer_ctor 4"]
  have "length ''abc'' = length ''xyz''" by simp
  with t have "send ideal_kernel 101 (\<lambda>a n. a + n) 7000 ''abc'' (demo_conn, demo_conn_loop) =
     send ideal_kernel 101 (\<lambda>a n. a + n) 7000 ''xyz'' (demo_conn, demo_conn_loop)" by blast
  with t show ?thesis by (simp add: Buffer_ctor_def kCheapPrepend_def readableBytes_def)
qed

text \<open>
  A \<open>sendInLoop\<close> that was queued by another thread before the loop's thread shut the
  connection down still writes: it tests for the disconnected state only, so after the
  sending side was shut down it calls \<^verbatim>\<open>write\<close> on the socket again.
\<close>

theorem queued_send_writes_after_shutdown:
  assumes "ctl_sound K" "stream_inv (cn, s)" "conn_state cn = kDisconnecting"
    and "SockShutdownWr (conn_fd cn) \<in> set (life s)" "k_write K (trace s) (conn_fd cn) d = WriteErr EPIPE"
  shows "\<exists>s'. sendInLoop K tid d (cn, s) = Inr (cn, s') \<and> \<not> no_write_after_shutdown (conn_fd cn) (life s')"
proof -
  obtain ch where i: "heap s (conn_channel cn) = Some ch" "ch_fd ch = conn_fd cn" "buffer_inv (outputBuffer cn)"
    "isWriting ch \<longleftrightarrow> readable (outputBuffer cn) \<noteq> []" "born s \<le> length (trace s)"
    "io_inv (conn_fd cn) (conn_state cn) (readable (inputBuffer cn)) (readable (outputBuffer cn))
       (accepted_bytes s) (consumed_bytes s) (life s)"
    using stream_invD [OF assms(2)] assms(3) by (metis conn_state.distinct(5))
  then have out: "readable (outputBuffer cn) = []" using assms(4) by (auto simp: io_inv_def)
  let ?s' = "log_sys (SockWrite (conn_fd cn) d (WriteErr EPIPE)) s"
  have "sendInLoop K tid d (cn, s) = Inr (cn, ?s')"
    using i out assms(3,5)
    by (simp add: sendInLoop_def with_channel_def send_direct_def EPIPE_def EWOULDBLOCK_def)
  moreover have "life ?s' = life s @ [SockWrite (conn_fd cn) d (WriteErr EPIPE)]"
    using i(5) by (simp add: life_def log_sys_def)
  ultimately show ?thesis using assms(4) by auto
qed

theorem queued_send_writes_after_shutdown_witness:
  "\<exists>K cn s s'. stream_inv (cn :: (nat, unit) tcp_connection, s :: (nat, unit) client_loop_scheme) \<and>
     sendInLoop K 100 ''late'' (cn, s) = Inr (cn, s') \<and> \<not> no_write_after_shutdown 5 (life s')"
proof -
  obtain cn s where e: "conn_run echo_kernel (\<lambda>a n. 50) 51 echo (cn, s)" "conn_fd cn = 5"
    "SockShutdownWr 5 \<in> set (life s)" "conn_state cn = kDisconnecting"
    by (rule echo_shut)
  have inv: "stream_inv (cn, s)"
    using conn_run_inv [OF echo_kernel_sound scripted_ok [OF echo_kernel_sound(1,2)] e(1) [unfolded echo_def]] .
  let ?K = "ideal_kernel\<lparr>k_write := (\<lambda>tr fd d. WriteErr EPIPE)\<rparr>"
  have "ctl_sound ?K" using ideal_kernel_sound(1) by (simp add: ctl_sound_def)
  from queued_send_writes_after_shutdown [OF this inv e(4), of "''late''" 100] e inv show ?thesis by auto
qed

end
