(* ===== verification/TimerQueue.thy ===== *)
theory TimerQueue
  imports EventLoop
begin

text \<open>
  The timer queue (\<^verbatim>\<open>src/TimerQueue.cc\<close>) and the event loop's \<open>runAt\<close> and \<open>runAfter\<close>. Timers are
  heap cells; the queue keeps them in two sets, by expiration and by address with sequence
  number. The wall clock is an argument: \<open>now\<close> is what \<^verbatim>\<open>time(NULL)\<close> returns, in seconds.

  What is shown: the two sets and the heap stay consistent, no operation touches a deleted
  timer, \<open>getExpired\<close> takes exactly the timers whose time has come, and a cancelled timer
  does not run again. Two defects are proved as the code has them: the clock counts
  seconds where the queue counts microseconds, and no event loop has a queue.
\<close>

definition createTimerfd :: "int \<Rightarrow> int res" where
  "createTimerfd fd = (if fd < 0 then Inl ExitProcess else Inr fd)"

text \<open>\<open>howMuchTimeFromNow\<close>: seconds and nanoseconds, at least 100 microseconds.\<close>

definition howMuchTimeFromNow :: "timestamp \<Rightarrow> int \<Rightarrow> int \<times> int" where
  "howMuchTimeFromNow when now =
     (let diff = when - Timestamp_now now;
          microseconds = (if diff < 100 then 100 else diff)
      in (microseconds div kMicroSecondsPerSecond, microseconds mod kMicroSecondsPerSecond * 1000))"

definition readTimerfd :: "int \<Rightarrow> ('f, 'z) event_loop_scheme \<Rightarrow> ('f, 'z) event_loop_scheme" where
  "readTimerfd fd s = s\<lparr>trace := trace s @ [TimerfdRead fd]\<rparr>"

definition resetTimerfd ::
  "int \<Rightarrow> timestamp \<Rightarrow> int \<Rightarrow> ('f, 'z) event_loop_scheme \<Rightarrow> ('f, 'z) event_loop_scheme" where
  "resetTimerfd fd when now s =
     (case howMuchTimeFromNow when now of (sec, nsec) \<Rightarrow> s\<lparr>trace := trace s @ [TimerfdSet fd sec nsec]\<rparr>)"

definition UINTPTR_MAX :: nat where
  "UINTPTR_MAX = 2 ^ 64 - 1"

definition TimerQueue_ctor ::
  "kernel \<Rightarrow> int \<Rightarrow> nat \<Rightarrow> 'f \<Rightarrow> int \<Rightarrow> ('f, 'z) event_loop_scheme \<Rightarrow>
   ('f timer_queue \<times> ('f, 'z) event_loop_scheme) res" where
  "TimerQueue_ctor K fd c read_cb created s =
     rbind (createTimerfd fd) (\<lambda>tfd.
       let q = \<lparr>timerfd = tfd, timerfdChannel = c, timers = [], activeTimers = [],
                callingExpiredTimers = False, cancelingTimers = [], theap = (\<lambda>_. None),
                numCreated = created\<rparr>
       in rbind (enableReading K c (new_channel c ((Channel_ctor tfd)\<lparr>ch_readCallback := Some read_cb\<rparr>) s))
            (\<lambda>s'. Inr (q, s')))"

subsection \<open>The sets\<close>

definition tq_insert :: "nat \<Rightarrow> 'f timer_queue \<Rightarrow> (bool \<times> 'f timer_queue) res" where
  "tq_insert t q =
     (case theap q t of
        None \<Rightarrow> Inl UseAfterFree
      | Some tm \<Rightarrow>
          let when = expiration tm;
              earliestChanged = (case timers q of [] \<Rightarrow> True | e # _ \<Rightarrow> when < fst e)
          in Inr (earliestChanged,
                  q\<lparr>timers := set_put (when, t) (timers q),
                    activeTimers := set_put (t, sequence tm) (activeTimers q)\<rparr>))"

fun erase_active :: "(timestamp \<times> nat) list \<Rightarrow> 'f timer_queue \<Rightarrow> 'f timer_queue res" where
  "erase_active [] q = Inr q"
| "erase_active (e # es) q =
     (case theap q (snd e) of
        None \<Rightarrow> Inl UseAfterFree
      | Some tm \<Rightarrow>
          erase_active es (q\<lparr>activeTimers := set_erase (snd e, sequence tm) (activeTimers q)\<rparr>))"

definition getExpired :: "timestamp \<Rightarrow> 'f timer_queue \<Rightarrow> ((timestamp \<times> nat) list \<times> 'f timer_queue) res" where
  "getExpired now q =
     (let sentry = (now, UINTPTR_MAX);
          expired = takeWhile (\<lambda>e. e < sentry) (timers q);
          q1 = q\<lparr>timers := dropWhile (\<lambda>e. e < sentry) (timers q)\<rparr>
      in rbind (erase_active expired q1) (\<lambda>q2. Inr (expired, q2)))"

fun reset_entries :: "(timestamp \<times> nat) list \<Rightarrow> timestamp \<Rightarrow> 'f timer_queue \<Rightarrow> 'f timer_queue res" where
  "reset_entries [] now q = Inr q"
| "reset_entries (e # es) now q =
     (case theap q (snd e) of
        None \<Rightarrow> Inl UseAfterFree
      | Some tm \<Rightarrow>
          if timer_repeat tm \<and> (snd e, sequence tm) \<notin> set (cancelingTimers q) then
            rbind (tq_insert (snd e) (q\<lparr>theap := (theap q)(snd e \<mapsto> Timer_restart now tm)\<rparr>)) (\<lambda>(_, q1).
              reset_entries es now q1)
          else reset_entries es now (q\<lparr>theap := (theap q)(snd e := None)\<rparr>))"

subsection \<open>The operations in the loop\<close>

definition with_queue ::
  "('f, 'z) event_loop_scheme \<Rightarrow> ('f timer_queue \<Rightarrow> 'b res) \<Rightarrow> 'b res" where
  "with_queue s k = (case timerQueue s of None \<Rightarrow> Inl NullDeref | Some q \<Rightarrow> k q)"

definition set_queue :: "'f timer_queue \<Rightarrow> ('f, 'z) event_loop_scheme \<Rightarrow> ('f, 'z) event_loop_scheme" where
  "set_queue q s = s\<lparr>timerQueue := Some q\<rparr>"

definition addTimerInLoop ::
  "int \<Rightarrow> nat \<Rightarrow> ('f, 'z) event_loop_scheme \<Rightarrow> ('f, 'z) event_loop_scheme res" where
  "addTimerInLoop now t s =
     with_queue s (\<lambda>q.
       rbind (tq_insert t q) (\<lambda>(earliestChanged, q1).
         if earliestChanged then
           (case theap q1 t of
              None \<Rightarrow> Inl UseAfterFree
            | Some tm \<Rightarrow> Inr (resetTimerfd (timerfd q1) (expiration tm) now (set_queue q1 s)))
         else Inr (set_queue q1 s)))"

text \<open>\<open>t\<close> is the address of the new timer; from another thread the insertion is queued.\<close>

definition addTimer ::
  "int \<Rightarrow> int \<Rightarrow> (nat \<Rightarrow> 'f) \<Rightarrow> nat \<Rightarrow> 'f \<Rightarrow> timestamp \<Rightarrow> rat \<Rightarrow> ('f, 'z) event_loop_scheme \<Rightarrow>
   (timer_id \<times> ('f, 'z) event_loop_scheme) res" where
  "addTimer tid now bind_add t cb when ival s =
     with_queue s (\<lambda>q.
       let (tm, n) = Timer_ctor cb when ival (numCreated q);
           s1 = set_queue (q\<lparr>theap := (theap q)(t \<mapsto> tm), numCreated := n\<rparr>) s
       in rbind (if isInLoopThread tid s1 then addTimerInLoop now t s1
                 else Inr (queueInLoop tid (bind_add t) s1))
            (\<lambda>s2. Inr (TimerId_ctor t (sequence tm), s2)))"

definition cancelInLoop :: "timer_id \<Rightarrow> ('f, 'z) event_loop_scheme \<Rightarrow> ('f, 'z) event_loop_scheme res" where
  "cancelInLoop i s =
     with_queue s (\<lambda>q.
       let timer = (tid_timer i, tid_sequence i)
       in if timer \<in> set (activeTimers q) then
            (case theap q (tid_timer i) of
               None \<Rightarrow> Inl UseAfterFree
             | Some tm \<Rightarrow>
                 Inr (set_queue (q\<lparr>timers := set_erase (expiration tm, tid_timer i) (timers q),
                                   theap := (theap q)(tid_timer i := None),
                                   activeTimers := set_erase timer (activeTimers q)\<rparr>) s))
          else if callingExpiredTimers q then
            Inr (set_queue (q\<lparr>cancelingTimers := set_put timer (cancelingTimers q)\<rparr>) s)
          else Inr s)"

definition cancel ::
  "int \<Rightarrow> (timer_id \<Rightarrow> 'f) \<Rightarrow> timer_id \<Rightarrow> ('f, 'z) event_loop_scheme \<Rightarrow> ('f, 'z) event_loop_scheme res" where
  "cancel tid bind_cancel i s =
     with_queue s (\<lambda>q.
       if isInLoopThread tid s then cancelInLoop i s
       else Inr (queueInLoop tid (bind_cancel i) s))"

text \<open>Running the expired timers: each is read from the heap when its turn comes.\<close>

fun run_expired ::
  "('f invocation \<Rightarrow> ('f, 'z) event_loop_scheme \<Rightarrow> ('f, 'z) event_loop_scheme res) \<Rightarrow>
   (timestamp \<times> nat) list \<Rightarrow> ('f, 'z) event_loop_scheme \<Rightarrow> ('f, 'z) event_loop_scheme res" where
  "run_expired exec [] s = Inr s"
| "run_expired exec (e # es) s =
     with_queue s (\<lambda>q.
       case theap q (snd e) of
         None \<Rightarrow> Inl UseAfterFree
       | Some tm \<Rightarrow> rbind (exec (Invoke (timer_callback tm)) s) (run_expired exec es))"

definition tq_reset ::
  "(timestamp \<times> nat) list \<Rightarrow> int \<Rightarrow> ('f, 'z) event_loop_scheme \<Rightarrow> ('f, 'z) event_loop_scheme res" where
  "tq_reset expired now s =
     with_queue s (\<lambda>q.
       rbind (reset_entries expired (Timestamp_now now) q) (\<lambda>q1.
         case timers q1 of
           [] \<Rightarrow> Inr (set_queue q1 s)
         | e # _ \<Rightarrow>
             (case theap q1 (snd e) of
                None \<Rightarrow> Inl UseAfterFree
              | Some tm \<Rightarrow>
                  Inr (if Timestamp_valid (expiration tm)
                       then resetTimerfd (timerfd q1) (expiration tm) now (set_queue q1 s)
                       else set_queue q1 s))))"

definition tq_handleRead ::
  "('f invocation \<Rightarrow> ('f, 'z) event_loop_scheme \<Rightarrow> ('f, 'z) event_loop_scheme res) \<Rightarrow> int \<Rightarrow>
   ('f, 'z) event_loop_scheme \<Rightarrow> ('f, 'z) event_loop_scheme res" where
  "tq_handleRead exec now s =
     with_queue s (\<lambda>q0.
       let s0 = readTimerfd (timerfd q0) s
       in rbind (getExpired (Timestamp_now now) q0) (\<lambda>(expired, q1).
          rbind (run_expired exec expired
                   (set_queue (q1\<lparr>callingExpiredTimers := True, cancelingTimers := []\<rparr>) s0)) (\<lambda>s1.
          with_queue s1 (\<lambda>q2.
            tq_reset expired now (set_queue (q2\<lparr>callingExpiredTimers := False\<rparr>) s1)))))"

text \<open>The event loop's interface to the queue. The clock is read for \<open>runAfter\<close>.\<close>

definition runAt ::
  "int \<Rightarrow> int \<Rightarrow> (nat \<Rightarrow> 'f) \<Rightarrow> nat \<Rightarrow> timestamp \<Rightarrow> 'f \<Rightarrow> ('f, 'z) event_loop_scheme \<Rightarrow>
   (timer_id \<times> ('f, 'z) event_loop_scheme) res" where
  "runAt tid now bind_add t time cb s = addTimer tid now bind_add t cb time 0 s"

definition runAfter ::
  "int \<Rightarrow> int \<Rightarrow> (nat \<Rightarrow> 'f) \<Rightarrow> nat \<Rightarrow> rat \<Rightarrow> 'f \<Rightarrow> ('f, 'z) event_loop_scheme \<Rightarrow>
   (timer_id \<times> ('f, 'z) event_loop_scheme) res" where
  "runAfter tid now bind_add t delay cb s =
     runAt tid now bind_add t (addTime (Timestamp_now now) delay) cb s"

text \<open>The destructor: the timers are deleted with the queue that holds them.\<close>

definition TimerQueue_dtor ::
  "kernel \<Rightarrow> ('f, 'z) event_loop_scheme \<Rightarrow> ('f, 'z) event_loop_scheme res" where
  "TimerQueue_dtor K s =
     with_queue s (\<lambda>q.
       rbind (disableAll K (timerfdChannel q) s) (\<lambda>s1.
       rbind (Channel_remove K (timerfdChannel q) s1) (\<lambda>s2.
         Inr (delete_channel (timerfdChannel q)
                (s2\<lparr>trace := trace s2 @ [SockClose (timerfd q)], timerQueue := None\<rparr>)))))"

subsection \<open>Consistency of the two sets and the heap\<close>

definition tq_inv :: "'f timer_queue \<Rightarrow> bool" where
  "tq_inv q \<longleftrightarrow>
     set_ok (timers q) \<and> set_ok (activeTimers q) \<and>
     (\<forall>w t. (w, t) \<in> set (timers q) \<longrightarrow>
        (\<exists>tm. theap q t = Some tm \<and> expiration tm = w \<and> (t, sequence tm) \<in> set (activeTimers q))) \<and>
     (\<forall>t n. (t, n) \<in> set (activeTimers q) \<longrightarrow>
        (\<exists>tm. theap q t = Some tm \<and> sequence tm = n \<and> (expiration tm, t) \<in> set (timers q)))"

text \<open>While expired timers \<open>E\<close> are being run they are alive and in neither set.\<close>

definition firing_inv :: "(timestamp \<times> nat) list \<Rightarrow> 'f timer_queue \<Rightarrow> bool" where
  "firing_inv E q \<longleftrightarrow>
     tq_inv q \<and> distinct (map snd E) \<and>
     (\<forall>e \<in> set E. theap q (snd e) \<noteq> None \<and> snd e \<notin> snd ` set (timers q))"

lemma tq_inv_timer:
  assumes "tq_inv q" "(w, t) \<in> set (timers q)"
  obtains tm where "theap q t = Some tm" "expiration tm = w" "(t, sequence tm) \<in> set (activeTimers q)"
  using assms unfolding tq_inv_def by blast

lemma tq_inv_active:
  assumes "tq_inv q" "(t, n) \<in> set (activeTimers q)"
  obtains tm where "theap q t = Some tm" "sequence tm = n" "(expiration tm, t) \<in> set (timers q)"
  using assms unfolding tq_inv_def by blast

lemma tq_inv_unique:
  assumes "tq_inv q" "(w, t) \<in> set (timers q)" "(w', t) \<in> set (timers q)"
  shows "w = w'"
  using assms by (metis tq_inv_timer option.inject)

lemma tq_inv_idle:
  assumes "tq_inv q" "t \<notin> snd ` set (timers q)"
  shows "(t, n) \<notin> set (activeTimers q)"
  using assms unfolding tq_inv_def by force

lemma tq_insert_inv:
  assumes inv: "tq_inv q" and tm: "theap q t = Some tm" and t: "t \<notin> snd ` set (timers q)"
  shows "\<exists>b. tq_insert t q = Inr (b, q\<lparr>timers := set_put (expiration tm, t) (timers q),
      activeTimers := set_put (t, sequence tm) (activeTimers q)\<rparr>)"
    and "tq_inv (q\<lparr>timers := set_put (expiration tm, t) (timers q),
      activeTimers := set_put (t, sequence tm) (activeTimers q)\<rparr>)"
proof -
  show "\<exists>b. tq_insert t q = Inr (b, q\<lparr>timers := set_put (expiration tm, t) (timers q),
      activeTimers := set_put (t, sequence tm) (activeTimers q)\<rparr>)"
    using tm by (simp add: tq_insert_def Let_def)
  have "(t, n) \<notin> set (activeTimers q)" "(w, t) \<notin> set (timers q)" for n w
    using tq_inv_idle [OF inv t] t by force+
  with inv tm show "tq_inv (q\<lparr>timers := set_put (expiration tm, t) (timers q),
      activeTimers := set_put (t, sequence tm) (activeTimers q)\<rparr>)"
    unfolding tq_inv_def by (auto; blast)
qed

lemma tq_inv_heap_idle:
  assumes "tq_inv q" "t \<notin> snd ` set (timers q)"
  shows "tq_inv (q\<lparr>theap := (theap q)(t := v)\<rparr>)"
  using assms tq_inv_idle [OF assms] unfolding tq_inv_def by force

lemma cancel_active_inv:
  assumes inv: "tq_inv q" and a: "(t, n) \<in> set (activeTimers q)" "theap q t = Some tm"
  shows "tq_inv (q\<lparr>timers := set_erase (expiration tm, t) (timers q), theap := (theap q)(t := None),
    activeTimers := set_erase (t, n) (activeTimers q)\<rparr>)"
proof -
  have ok: "set_ok (timers q)" "set_ok (activeTimers q)" using inv by (simp_all add: tq_inv_def)
  have "w = expiration tm" if "(w, t) \<in> set (timers q)" for w
    using tq_inv_timer [OF inv that] a(2) by (metis option.inject)
  moreover have "m = n" if "(t, m) \<in> set (activeTimers q)" for m
    using tq_inv_active [OF inv that] tq_inv_active [OF inv a(1)] by (metis option.inject)
  ultimately show ?thesis
    using inv ok unfolding tq_inv_def by (auto; metis)
qed

subsection \<open>Which timers expire\<close>

lemma before_sentry: "t < UINTPTR_MAX \<Longrightarrow> ((w :: timestamp), t) < (now, UINTPTR_MAX) \<longleftrightarrow> w \<le> now"
  by (auto simp: less_prod_def)

lemma takeWhile_sorted:
  fixes xs :: "('a::linorder) list"
  assumes "sorted xs"
  shows "takeWhile (\<lambda>x. x < b) xs = filter (\<lambda>x. x < b) xs"
    and "dropWhile (\<lambda>x. x < b) xs = filter (\<lambda>x. \<not> x < b) xs"
  using assms
proof (induction xs)
  case (Cons x xs)
  { case 1
    with Cons show ?case
      by (auto simp: filter_empty_conv eq_commute [of "[]"] dest!: bspec)
  next
    case 2
    with Cons show ?case
      by (auto simp: eq_commute [of xs] filter_id_conv dest!: bspec) }
qed simp_all

lemma erase_active_effect:
  assumes "\<forall>e \<in> set es. theap q (snd e) \<noteq> None" "set_ok (activeTimers q)"
  shows "\<exists>a. erase_active es q = Inr (q\<lparr>activeTimers := a\<rparr>) \<and> set_ok a \<and>
    set a = set (activeTimers q) - {(snd e, sequence tm) | e tm. e \<in> set es \<and> theap q (snd e) = Some tm}"
  using assms
proof (induction es arbitrary: q)
  case Nil
  then show ?case by (intro exI [of _ "activeTimers q"]) simp
next
  case (Cons e es)
  obtain w t where e: "e = (w, t)" by (cases e)
  obtain tm where tm: "theap q (snd e) = Some tm" using Cons.prems(1) by auto
  let ?q = "q\<lparr>activeTimers := set_erase (snd e, sequence tm) (activeTimers q)\<rparr>"
  obtain a where a: "erase_active es ?q = Inr (?q\<lparr>activeTimers := a\<rparr>)" "set_ok a"
    "set a = set (activeTimers ?q) - {(snd e, sequence tm) | e tm. e \<in> set es \<and> theap ?q (snd e) = Some tm}"
    using Cons.IH [of ?q] Cons.prems by auto
  have "set a = set (activeTimers q) - {(snd e', sequence tm) | e' tm. e' \<in> set (e # es) \<and> theap q (snd e') = Some tm}"
    using a(3) Cons.prems(2) tm e by auto
  with a tm show ?case by (intro exI [of _ a]) simp
qed

text \<open>The timers whose time has not come, without the others in either set, are a queue again.\<close>

lemma tq_inv_later:
  assumes inv: "tq_inv q" and a: "set_ok a"
    "set a = set (activeTimers q) - {(snd e, sequence tm) | e tm.
       e \<in> set (filter (\<lambda>(w, t). w \<le> now) (timers q)) \<and> theap q (snd e) = Some tm}"
  shows "tq_inv (q\<lparr>timers := filter (\<lambda>(w, t). now < w) (timers q), activeTimers := a\<rparr>)"
    (is "tq_inv ?q2")
  unfolding tq_inv_def
proof (intro conjI allI impI)
  let ?E = "filter (\<lambda>(w, t). w \<le> now) (timers q)"
  show "set_ok (timers ?q2)" using inv by (simp add: tq_inv_def set_ok_def sorted_wrt_filter)
  show "set_ok (activeTimers ?q2)" using a(1) by simp
  show "\<exists>tm. theap ?q2 t = Some tm \<and> expiration tm = w \<and> (t, sequence tm) \<in> set (activeTimers ?q2)"
    if "(w, t) \<in> set (timers ?q2)" for w t
  proof -
    have w: "(w, t) \<in> set (timers q)" "now < w" using that by auto
    obtain tm where tm: "theap q t = Some tm" "expiration tm = w" "(t, sequence tm) \<in> set (activeTimers q)"
      using inv w(1) unfolding tq_inv_def by blast
    have "snd e \<noteq> t" if "e \<in> set ?E" for e
      using that w tq_inv_unique [OF inv w(1), of "fst e"] by (auto simp: case_prod_beta)
    then have "(t, sequence tm) \<in> set a" using tm(3) unfolding a(2) by blast
    with tm show ?thesis by simp
  qed
  show "\<exists>tm. theap ?q2 t = Some tm \<and> sequence tm = n \<and> (expiration tm, t) \<in> set (timers ?q2)"
    if "(t, n) \<in> set (activeTimers ?q2)" for t n
  proof -
    have n: "(t, n) \<in> set (activeTimers q)" "(t, n) \<in> set a" using that a(2) by simp_all
    obtain tm where tm: "theap q t = Some tm" "sequence tm = n" "(expiration tm, t) \<in> set (timers q)"
      using inv n(1) unfolding tq_inv_def by blast
    have "(expiration tm, t) \<notin> set ?E" using n(2) tm(1,2) unfolding a(2) by fastforce
    with tm show ?thesis by auto
  qed
qed

lemma getExpired_effect:
  assumes inv: "tq_inv q" and small: "\<forall>(w, t) \<in> set (timers q). t < UINTPTR_MAX"
  shows "\<exists>q'. getExpired now q = Inr (filter (\<lambda>(w, t). w \<le> now) (timers q), q') \<and>
    timers q' = filter (\<lambda>(w, t). now < w) (timers q) \<and> theap q' = theap q \<and>
    cancelingTimers q' = cancelingTimers q \<and> callingExpiredTimers q' = callingExpiredTimers q \<and>
    timerfd q' = timerfd q \<and> numCreated q' = numCreated q \<and>
    firing_inv (filter (\<lambda>(w, t). w \<le> now) (timers q)) q'"
proof -
  let ?E = "filter (\<lambda>(w, t). w \<le> now) (timers q)" and ?R = "filter (\<lambda>(w, t). now < w) (timers q)"
  have ok: "sorted (timers q)" "set_ok (activeTimers q)" "distinct (timers q)"
    using inv by (simp_all add: tq_inv_def set_ok_def)
  have E: "takeWhile (\<lambda>e. e < (now, UINTPTR_MAX)) (timers q) = ?E"
    unfolding takeWhile_sorted(1) [OF ok(1)] using small before_sentry by (intro filter_cong) fastforce+
  have R: "dropWhile (\<lambda>e. e < (now, UINTPTR_MAX)) (timers q) = ?R"
    unfolding takeWhile_sorted(2) [OF ok(1)] using small before_sentry by (intro filter_cong) fastforce+
  have uniq: "w = w'" if "(w, t) \<in> set (timers q)" "(w', t) \<in> set (timers q)" for w w' t
    by (rule tq_inv_unique [OF inv that])
  let ?q1 = "q\<lparr>timers := ?R\<rparr>"
  have live: "\<forall>e \<in> set ?E. theap ?q1 (snd e) \<noteq> None"
  proof
    fix e
    assume "e \<in> set ?E"
    then have "(fst e, snd e) \<in> set (timers q)" by auto
    then show "theap ?q1 (snd e) \<noteq> None" by (rule tq_inv_timer [OF inv]) simp
  qed
  obtain a where a: "erase_active ?E ?q1 = Inr (?q1\<lparr>activeTimers := a\<rparr>)" "set_ok a"
    "set a = set (activeTimers q) - {(snd e, sequence tm) | e tm. e \<in> set ?E \<and> theap q (snd e) = Some tm}"
    using erase_active_effect [OF live] ok(2) by auto
  let ?q2 = "?q1\<lparr>activeTimers := a\<rparr>"
  have "inj_on snd (set (timers q))" using uniq by (auto simp: inj_on_def)
  then have d: "distinct (map snd ?E)" using ok(3) by (auto simp: distinct_map inj_on_def)
  have "tq_inv ?q2" by (rule tq_inv_later [OF inv a(2,3)])
  moreover have "snd e \<notin> snd ` set ?R" if "e \<in> set ?E" for e
  proof
    assume "snd e \<in> snd ` set ?R"
    then obtain w where "(w, snd e) \<in> set (timers q)" "now < w" by auto
    with that uniq [of "fst e" "snd e" w] show False by auto
  qed
  ultimately have "firing_inv ?E ?q2" using d live by (auto simp: firing_inv_def)
  moreover have "getExpired now q = Inr (?E, ?q2)"
    using a(1) by (simp add: getExpired_def E R Let_def)
  ultimately show ?thesis by (intro exI [of _ ?q2]) simp
qed

subsection \<open>Resetting after the callbacks\<close>

lemma firing_inv_Cons:
  "firing_inv (e # E) q \<longleftrightarrow> firing_inv E q \<and> snd e \<notin> snd ` set E \<and> theap q (snd e) \<noteq> None \<and>
     snd e \<notin> snd ` set (timers q)"
  by (auto simp: firing_inv_def)

definition again :: "'f timer_queue \<Rightarrow> nat \<Rightarrow> 'f timer \<Rightarrow> bool" where
  "again q t tm \<longleftrightarrow> timer_repeat tm \<and> (t, sequence tm) \<notin> set (cancelingTimers q)"

definition rearmed :: "(timestamp \<times> nat) list \<Rightarrow> timestamp \<Rightarrow> 'f timer_queue \<Rightarrow> (timestamp \<times> nat) set" where
  "rearmed E now q = {(addTime now (interval tm), snd e) | e tm.
     e \<in> set E \<and> theap q (snd e) = Some tm \<and> again q (snd e) tm}"

lemma rearmed_cong:
  assumes "\<And>e. e \<in> set E \<Longrightarrow> theap q' (snd e) = theap q (snd e)" "cancelingTimers q' = cancelingTimers q"
  shows "rearmed E now q' = rearmed E now q"
proof -
  have "again q' = again q" using assms(2) by (simp add: again_def fun_eq_iff)
  with assms(1) show ?thesis unfolding rearmed_def by (metis (no_types, lifting))
qed

lemma rearmed_Cons:
  assumes "theap q (snd e) = Some tm"
  shows "rearmed (e # E) now q =
    (if again q (snd e) tm then {(addTime now (interval tm), snd e)} else {}) \<union> rearmed E now q"
proof -
  obtain w t where "e = (w, t)" by (cases e)
  with assms show ?thesis unfolding rearmed_def by auto
qed

lemma rearmed_Nil [simp]: "rearmed [] now q = {}"
  by (simp add: rearmed_def)

text \<open>What resetting the entries \<open>E\<close> makes of a queue.\<close>

definition reset_done :: "(timestamp \<times> nat) list \<Rightarrow> timestamp \<Rightarrow> 'f timer_queue \<Rightarrow> 'f timer_queue \<Rightarrow> bool" where
  "reset_done E now q q' \<longleftrightarrow> tq_inv q' \<and> cancelingTimers q' = cancelingTimers q \<and>
     timerfd q' = timerfd q \<and> callingExpiredTimers q' = callingExpiredTimers q \<and>
     (\<forall>t. t \<notin> snd ` set E \<longrightarrow> theap q' t = theap q t) \<and>
     (\<forall>e \<in> set E. \<forall>tm. theap q (snd e) = Some tm \<longrightarrow>
        theap q' (snd e) = (if again q (snd e) tm then Some (Timer_restart now tm) else None)) \<and>
     set (timers q') = set (timers q) \<union> rearmed E now q"

lemma reset_done_Cons:
  assumes "reset_done E now q1 q'" "snd e \<notin> snd ` set E" "theap q (snd e) = Some tm"
    and "theap q1 = (theap q)(snd e := if again q (snd e) tm then Some (Timer_restart now tm) else None)"
    and "cancelingTimers q1 = cancelingTimers q" "timerfd q1 = timerfd q"
    and "callingExpiredTimers q1 = callingExpiredTimers q"
    and "set (timers q1) =
      set (timers q) \<union> (if again q (snd e) tm then {(addTime now (interval tm), snd e)} else {})"
  shows "reset_done (e # E) now q q'"
proof -
  have same: "theap q1 (snd e') = theap q (snd e')" if "e' \<in> set E" for e'
    using that assms(2,4) by (metis fun_upd_other image_eqI)
  have "again q1 = again q" using assms(5) by (simp add: again_def fun_eq_iff)
  moreover have "rearmed E now q1 = rearmed E now q" by (rule rearmed_cong [OF same assms(5)])
  ultimately show ?thesis
    using assms same unfolding reset_done_def rearmed_Cons [OF assms(3)] by auto
qed

lemma reset_entries_done:
  assumes "firing_inv E q"
  shows "\<exists>q'. reset_entries E now q = Inr q' \<and> reset_done E now q q'"
  using assms
proof (induction E arbitrary: q)
  case Nil
  then show ?case by (simp add: firing_inv_def reset_done_def)
next
  case (Cons e E)
  let ?t = "snd e"
  obtain tm where tm: "theap q ?t = Some tm" using Cons.prems by (auto simp: firing_inv_Cons)
  have f: "firing_inv E q" "tq_inv q" "?t \<notin> snd ` set E" "?t \<notin> snd ` set (timers q)"
    using Cons.prems by (simp_all add: firing_inv_Cons firing_inv_def)
  have neq: "snd e' \<noteq> ?t" if "e' \<in> set E" for e' using that f(3) by (metis image_eqI)
  show ?case
  proof (cases "again q ?t tm")
    case False
    let ?q = "q\<lparr>theap := (theap q)(?t := None)\<rparr>"
    have "firing_inv E ?q"
      using f(1) tq_inv_heap_idle [OF f(2,4), of None] neq by (simp add: firing_inv_def)
    from Cons.IH [OF this] obtain q' where q': "reset_entries E now ?q = Inr q'" "reset_done E now ?q q'" by blast
    have "reset_entries (e # E) now q = Inr q'"
      using q'(1) tm False by (auto simp: again_def)
    with reset_done_Cons [OF q'(2) f(3) tm] False show ?thesis by simp
  next
    case True
    let ?tm = "Timer_restart now tm"
    let ?r = "q\<lparr>theap := (theap q)(?t \<mapsto> ?tm)\<rparr>"
    have tm': "expiration ?tm = addTime now (interval tm)" "sequence ?tm = sequence tm"
      using True by (simp_all add: Timer_restart_def again_def)
    let ?q = "?r\<lparr>timers := set_put (expiration ?tm, ?t) (timers ?r),
       activeTimers := set_put (?t, sequence ?tm) (activeTimers ?r)\<rparr>"
    have i0: "tq_inv ?r" "theap ?r ?t = Some ?tm" "?t \<notin> snd ` set (timers ?r)"
      using tq_inv_heap_idle [OF f(2,4), of "Some ?tm"] f(4) by simp_all
    obtain b where ins: "tq_insert ?t ?r = Inr (b, ?q)" using tq_insert_inv(1) [OF i0] by blast
    have "firing_inv E ?q"
      using f(1) tq_insert_inv(2) [OF i0] neq by (simp add: firing_inv_def)
    from Cons.IH [OF this] obtain q' where q': "reset_entries E now ?q = Inr q'" "reset_done E now ?q q'" by blast
    have "reset_entries (e # E) now q = Inr q'"
      using q'(1) tm True ins by (simp add: again_def)
    with reset_done_Cons [OF q'(2) f(3) tm] True tm' show ?thesis by simp
  qed
qed

lemmas reset_entries_effect = reset_entries_done [unfolded reset_done_def]

subsection \<open>Firing\<close>

text \<open>
  Callbacks of timers: while expired timers run they may add and cancel timers, but leave
  the expired ones in place (they have no access to them but through \<open>cancel\<close>).
\<close>

definition timer_exec_ok ::
  "('f invocation \<Rightarrow> ('f, 'z) event_loop_scheme \<Rightarrow> ('f, 'z) event_loop_scheme res) \<Rightarrow> bool" where
  "timer_exec_ok exec \<longleftrightarrow>
     (\<forall>E q s f. timerQueue s = Some q \<and> firing_inv E q \<and> callingExpiredTimers q \<longrightarrow>
        (\<exists>s' q'. exec (Invoke f) s = Inr s' \<and> timerQueue s' = Some q' \<and> firing_inv E q' \<and>
           callingExpiredTimers q' \<and> (\<forall>e \<in> set E. theap q' (snd e) = theap q (snd e))))"

lemma cancelInLoop_firing:
  assumes q: "timerQueue s = Some q" and f: "firing_inv E q"
  shows "\<exists>s' q'. cancelInLoop i s = Inr s' \<and> timerQueue s' = Some q' \<and> firing_inv E q' \<and>
    callingExpiredTimers q' = callingExpiredTimers q \<and>
    (\<forall>e \<in> set E. theap q' (snd e) = theap q (snd e)) \<and>
    (\<forall>n. (tid_timer i, n) \<in> set (activeTimers q) \<and> n = tid_sequence i \<longrightarrow>
       tid_timer i \<notin> snd ` set (timers q') \<and> theap q' (tid_timer i) = None) \<and>
    (callingExpiredTimers q \<longrightarrow> (\<exists>e \<in> set E. snd e = tid_timer i) \<longrightarrow>
       (tid_timer i, tid_sequence i) \<in> set (cancelingTimers q'))"
proof -
  let ?t = "tid_timer i" and ?n = "tid_sequence i"
  have inv: "tq_inv q" using f by (simp add: firing_inv_def)
  show ?thesis
  proof (cases "(?t, ?n) \<in> set (activeTimers q)")
    case True
    obtain tm where tm: "theap q ?t = Some tm" "(expiration tm, ?t) \<in> set (timers q)"
      by (rule tq_inv_active [OF inv True])
    have other: "snd e \<noteq> ?t" if "e \<in> set E" for e
      using f that tm(2) unfolding firing_inv_def by (metis image_eqI snd_conv)
    let ?q = "q\<lparr>timers := set_erase (expiration tm, ?t) (timers q), theap := (theap q)(?t := None),
       activeTimers := set_erase (?t, ?n) (activeTimers q)\<rparr>"
    have "tq_inv ?q" by (rule cancel_active_inv [OF inv True tm(1)])
    moreover have sub: "set (timers ?q) = set (timers q) - {(expiration tm, ?t)}"
      using inv by (simp add: tq_inv_def)
    ultimately have "firing_inv E ?q"
      using f other by (auto simp: firing_inv_def)
    moreover have "?t \<notin> snd ` set (timers ?q)"
      using sub tq_inv_unique [OF inv tm(2)] by auto
    moreover have "cancelInLoop i s = Inr (set_queue ?q s)"
      using True tm(1) q by (simp add: cancelInLoop_def with_queue_def Let_def)
    ultimately show ?thesis
      using other by (intro exI [of _ "set_queue ?q s"] exI [of _ ?q]) (auto simp: set_queue_def)
  next
    case False
    then have "cancelInLoop i s = Inr (if callingExpiredTimers q
        then set_queue (q\<lparr>cancelingTimers := set_put (?t, ?n) (cancelingTimers q)\<rparr>) s else s)"
      using q by (simp add: cancelInLoop_def with_queue_def Let_def)
    moreover have "firing_inv E (q\<lparr>cancelingTimers := c\<rparr>) = firing_inv E q" for c
      by (simp add: firing_inv_def tq_inv_def)
    ultimately show ?thesis
      using False f q by (cases "callingExpiredTimers q") (auto simp: set_queue_def)
  qed
qed

lemma cancel_exec_ok: "timer_exec_ok (\<lambda>i s. cancelInLoop j s)"
  unfolding timer_exec_ok_def
proof (intro allI impI)
  fix E q s f
  assume "timerQueue s = Some q \<and> firing_inv E q \<and> callingExpiredTimers q"
  then show "\<exists>s' q'. cancelInLoop j s = Inr s' \<and> timerQueue s' = Some q' \<and> firing_inv E q' \<and>
     callingExpiredTimers q' \<and> (\<forall>e \<in> set E. theap q' (snd e) = theap q (snd e))"
    using cancelInLoop_firing [of s q E j] by auto
qed

lemma run_expired_firing:
  assumes "timer_exec_ok exec" "timerQueue s = Some q" "firing_inv E q" "callingExpiredTimers q" "set D \<subseteq> set E"
  shows "\<exists>s' q'. run_expired exec D s = Inr s' \<and> timerQueue s' = Some q' \<and> firing_inv E q' \<and>
    callingExpiredTimers q' \<and> (\<forall>e \<in> set E. theap q' (snd e) = theap q (snd e))"
  using assms(2-)
proof (induction D arbitrary: s q)
  case (Cons e D)
  obtain tm where tm: "theap q (snd e) = Some tm"
    using Cons.prems by (auto simp: firing_inv_def)
  obtain s1 q1 where s1: "exec (Invoke (timer_callback tm)) s = Inr s1" "timerQueue s1 = Some q1"
    "firing_inv E q1" "callingExpiredTimers q1" "\<forall>e \<in> set E. theap q1 (snd e) = theap q (snd e)"
    using assms(1) Cons.prems unfolding timer_exec_ok_def by blast
  with Cons.IH [OF s1(2-4)] Cons.prems tm show ?case
    by (auto simp: with_queue_def)
qed auto

subsection \<open>Properties\<close>

text \<open>
  C11: when the timer descriptor fires, exactly the timers whose expiration is not after the
  current time run, in order of expiration; afterwards the sets and the heap are consistent,
  a one-shot timer that ran is deleted, and a repeating one is armed again for its interval
  from now unless its callback (or that of another timer) cancelled it, in which case it is
  deleted. No deleted timer is touched on the way.
\<close>

theorem timers_fire:
  fixes now :: int
  assumes "timerQueue s = Some q" "tq_inv q" "\<forall>(w, t) \<in> set (timers q). t < UINTPTR_MAX" "timer_exec_ok exec"
  defines "due \<equiv> filter (\<lambda>(w, t). w \<le> Timestamp_now now) (timers q)"
  shows "\<exists>q1 s2 q2 s' q'.
    run_expired exec due (set_queue q1 (readTimerfd (timerfd q) s)) = Inr s2 \<and> timerQueue s2 = Some q2 \<and>
    tq_handleRead exec now s = Inr s' \<and> timerQueue s' = Some q' \<and> tq_inv q' \<and>
    (\<forall>w t tm. (w, t) \<in> set due \<longrightarrow> theap q t = Some tm \<longrightarrow>
       (if timer_repeat tm \<and> (t, sequence tm) \<notin> set (cancelingTimers q2)
        then (addTime (Timestamp_now now) (interval tm), t) \<in> set (timers q') else theap q' t = None))"
proof -
  obtain q1 where q1: "getExpired (Timestamp_now now) q = Inr (due, q1)" "theap q1 = theap q" "firing_inv due q1"
    using getExpired_effect [OF assms(2,3), of "Timestamp_now now"] unfolding due_def by auto
  let ?q1 = "q1\<lparr>callingExpiredTimers := True, cancelingTimers := []\<rparr>"
  let ?s1 = "set_queue ?q1 (readTimerfd (timerfd q) s)"
  have "firing_inv due ?q1" using q1(3) by (simp add: firing_inv_def tq_inv_def)
  then obtain s2 q2 where s2: "run_expired exec due ?s1 = Inr s2" "timerQueue s2 = Some q2"
    "firing_inv due q2" "\<forall>e \<in> set due. theap q2 (snd e) = theap ?q1 (snd e)"
    using run_expired_firing [OF assms(4), of ?s1 ?q1 due due] by (auto simp: set_queue_def)
  let ?q2 = "q2\<lparr>callingExpiredTimers := False\<rparr>" and ?s2 = "set_queue (q2\<lparr>callingExpiredTimers := False\<rparr>) s2"
  have "firing_inv due ?q2" using s2(3) by (simp add: firing_inv_def tq_inv_def)
  from reset_entries_effect [OF this, of "Timestamp_now now"] obtain q' where
    q': "reset_entries due (Timestamp_now now) ?q2 = Inr q'" "tq_inv q'"
      "\<forall>e \<in> set due. \<forall>tm. theap q2 (snd e) = Some tm \<longrightarrow>
         theap q' (snd e) = (if again ?q2 (snd e) tm then Some (Timer_restart (Timestamp_now now) tm) else None)"
      "set (timers q') = set (timers q2) \<union> rearmed due (Timestamp_now now) ?q2"
    by auto
  have "\<exists>s'. tq_reset due now ?s2 = Inr s' \<and> timerQueue s' = Some q'"
  proof (cases "timers q'")
    case Nil
    with q'(1) show ?thesis by (simp add: tq_reset_def with_queue_def set_queue_def)
  next
    case (Cons e es)
    obtain tm where "theap q' (snd e) = Some tm"
      using tq_inv_timer [OF q'(2), of "fst e" "snd e"] Cons by auto
    with Cons q'(1) show ?thesis
      by (simp add: tq_reset_def with_queue_def set_queue_def resetTimerfd_def split: prod.split)
  qed
  then obtain s' where s': "tq_reset due now ?s2 = Inr s'" "timerQueue s' = Some q'" by blast
  have "tq_handleRead exec now s = Inr s'"
    using assms(1) q1(1) s2(1,2) s'(1) by (simp add: tq_handleRead_def with_queue_def Let_def)
  moreover have "if timer_repeat tm \<and> (t, sequence tm) \<notin> set (cancelingTimers q2)
        then (addTime (Timestamp_now now) (interval tm), t) \<in> set (timers q') else theap q' t = None"
    if "(w, t) \<in> set due" "theap q t = Some tm" for w t tm
  proof -
    have tm: "theap q2 t = Some tm" using that s2(4) q1(2) by force
    have "again ?q2 t tm \<longleftrightarrow> timer_repeat tm \<and> (t, sequence tm) \<notin> set (cancelingTimers q2)"
      by (simp add: again_def)
    moreover have "again ?q2 t tm \<Longrightarrow> (addTime (Timestamp_now now) (interval tm), t) \<in> set (timers q')"
      using that(1) tm unfolding q'(4) rearmed_def by force
    moreover have "\<not> again ?q2 t tm \<Longrightarrow> theap q' t = None"
      using q'(3) that(1) tm by force
    ultimately show ?thesis by simp
  qed
  ultimately show ?thesis
    using s2(1,2) s'(2) q'(2) by blast
qed

definition demo_queue :: "nat timer_queue" where
  "demo_queue =
     \<lparr>timerfd = 6, timerfdChannel = 2, timers = [(10, 3), (99, 4)], activeTimers = [(3, 1), (4, 2)],
      callingExpiredTimers = False, cancelingTimers = [],
      theap = (\<lambda>_. None)
        (3 \<mapsto> \<lparr>timer_callback = 30, expiration = 10, interval = 0, timer_repeat = False, sequence = 1\<rparr>,
         4 \<mapsto> \<lparr>timer_callback = 40, expiration = 99, interval = 5, timer_repeat = True, sequence = 2\<rparr>),
      numCreated = 2\<rparr>"

definition demo_timer_loop :: "nat event_loop" where
  "demo_timer_loop = (new_loop 4 100 0 7)\<lparr>timerQueue := Some demo_queue\<rparr>"

lemma demo_queue_facts: "tq_inv demo_queue" "\<forall>(w, t) \<in> set (timers demo_queue). t < UINTPTR_MAX"
  by (auto simp: tq_inv_def demo_queue_def set_ok_def UINTPTR_MAX_def less_eq_prod_def)

theorem timers_fire_witness:
  "\<exists>s' q'. tq_handleRead (\<lambda>i s. cancelInLoop \<lparr>tid_timer = 4, tid_sequence = 2\<rparr> s) 12 demo_timer_loop = Inr s' \<and>
     timerQueue s' = Some q' \<and> tq_inv q' \<and> theap q' 3 = None"
proof -
  have q: "timerQueue demo_timer_loop = Some demo_queue" by (simp add: demo_timer_loop_def)
  have d: "(10, 3) \<in> set (filter (\<lambda>(w, t). w \<le> Timestamp_now 12) (timers demo_queue))"
    "theap demo_queue 3 = Some \<lparr>timer_callback = 30, expiration = 10, interval = 0, timer_repeat = False, sequence = 1\<rparr>"
    by (simp_all add: demo_queue_def Timestamp_now_def)
  from timers_fire [OF q demo_queue_facts cancel_exec_ok [of "\<lparr>tid_timer = 4, tid_sequence = 2\<rparr>"], of 12] d
  show ?thesis by force
qed

text \<open>
  Cancelling. A timer that is waiting is removed from both sets and deleted, so it
  cannot fire; one that has expired and is about to be handled in this round stays alive
  until the round ends, and is recorded as cancelled so that it is not armed again.
\<close>

theorem cancel_stops_timer:
  assumes "timerQueue s = Some q" "firing_inv E q" "callingExpiredTimers q"
  shows "\<exists>s' q'. cancelInLoop i s = Inr s' \<and> timerQueue s' = Some q' \<and> tq_inv q' \<and>
    ((tid_timer i, tid_sequence i) \<in> set (activeTimers q) \<longrightarrow>
       tid_timer i \<notin> snd ` set (timers q') \<and> theap q' (tid_timer i) = None) \<and>
    (\<forall>w tm. (w, tid_timer i) \<in> set E \<longrightarrow> theap q (tid_timer i) = Some tm \<longrightarrow>
       sequence tm = tid_sequence i \<longrightarrow> theap q' (tid_timer i) = Some tm \<and> \<not> again q' (tid_timer i) tm)"
proof -
  obtain s' q' where c: "cancelInLoop i s = Inr s'" "timerQueue s' = Some q'" "firing_inv E q'"
    "\<forall>e \<in> set E. theap q' (snd e) = theap q (snd e)"
    "\<forall>n. (tid_timer i, n) \<in> set (activeTimers q) \<and> n = tid_sequence i \<longrightarrow>
       tid_timer i \<notin> snd ` set (timers q') \<and> theap q' (tid_timer i) = None"
    "(\<exists>e \<in> set E. snd e = tid_timer i) \<longrightarrow> (tid_timer i, tid_sequence i) \<in> set (cancelingTimers q')"
    using cancelInLoop_firing [OF assms(1,2), of i] assms(3) by blast
  have "theap q' (tid_timer i) = Some tm \<and> \<not> again q' (tid_timer i) tm"
    if "(w, tid_timer i) \<in> set E" "theap q (tid_timer i) = Some tm" "sequence tm = tid_sequence i" for w tm
    using that c(4,6) by (force simp: again_def)
  with c show ?thesis by (auto simp: firing_inv_def)
qed

theorem cancel_stops_timer_witness:
  "\<exists>s' q'. cancelInLoop \<lparr>tid_timer = 4, tid_sequence = 2\<rparr>
       ((new_loop 4 100 0 7)\<lparr>timerQueue := Some (demo_queue\<lparr>callingExpiredTimers := True\<rparr>)\<rparr>) = Inr s' \<and>
     timerQueue s' = Some q' \<and> theap q' 4 = None"
proof -
  let ?q = "demo_queue\<lparr>callingExpiredTimers := True\<rparr>"
  have "firing_inv [] ?q" using demo_queue_facts(1) by (simp add: firing_inv_def tq_inv_def)
  from cancel_stops_timer [OF _ this, of "(new_loop 4 100 0 7)\<lparr>timerQueue := Some ?q\<rparr>" "\<lparr>tid_timer = 4, tid_sequence = 2\<rparr>"]
  show ?thesis by (auto simp: demo_queue_def)
qed



lemma enableReading_timerQueue: "enableReading K c s = Inr s' \<Longrightarrow> timerQueue s' = timerQueue s"
  by (auto simp: enableReading_def Channel_set_def Channel_update_def updateChannel_def set_index_def
      epoll_update_def Let_def rbind_eq_Inr split: if_splits option.splits)

text \<open>
  No event loop has a timer queue: the constructor leaves the pointer null, and
  \<open>runAt\<close> and \<open>runAfter\<close> on any loop it makes dereference it.
\<close>

theorem runAt_on_new_loop:
  assumes "EventLoop_ctor K use_poll epollfd evtfd other tid c read_cb = Inr s"
  shows "runAt tid' now bnd t time cb s = Inl NullDeref \<and> runAfter tid' now bnd t delay cb s = Inl NullDeref"
proof -
  have "timerQueue s = None"
    using assms enableReading_timerQueue
    by (auto simp: EventLoop_ctor_def Let_def reactor.extend_def new_channel_def rbind_eq_Inr
        split: if_splits option.splits dest!: enableReading_timerQueue)
  then show ?thesis by (simp add: runAfter_def runAt_def addTimer_def with_queue_def)
qed

theorem runAt_on_new_loop_witness:
  "runAfter 100 5000 (\<lambda>t. 70) 9 1 (80 :: nat) (new_loop 4 100 0 7) = Inl NullDeref"
  using runAt_on_new_loop [OF EventLoop_ctor_new [OF ideal_kernel_sound(1), of 3 4 100 0 "7 :: nat"]]
  by simp

end
