(* ===== verification/SocketsOps.thy ===== *)
theory SocketsOps
  imports Poller InetAddress
begin

text \<open>
  The socket calls of \<^verbatim>\<open>src/SocketsOps.cpp\<close>. Those the connector makes are over a record of the
  kernel's answers: the descriptor of a new socket, the error number of a connect (0 for
  success), the pending error of a socket, and the two addresses of a connection (all zero
  when the call fails, as the code leaves them). The others, which no other part calls, take the
  results of their system calls as arguments.

  What is shown: \<open>toIpPort\<close> prints an IPv4 address as \<^verbatim>\<open>InetAddress::toIpPort\<close> does, and
  \<open>fromIpPort\<close> is no inverse of it.
\<close>

record net =
  n_socket :: "sysevent list \<Rightarrow> nat \<Rightarrow> int"
  n_connect :: "sysevent list \<Rightarrow> int \<Rightarrow> sockaddr_in \<Rightarrow> nat"
  n_sockerr :: "sysevent list \<Rightarrow> int \<Rightarrow> nat"
  n_local :: "sysevent list \<Rightarrow> int \<Rightarrow> sockaddr_in"
  n_peer :: "sysevent list \<Rightarrow> int \<Rightarrow> sockaddr_in"

text \<open>The name notwithstanding, a failure to make a socket is logged and \<open>- 1\<close> is returned.\<close>

definition createNonblockingOrDie ::
  "net \<Rightarrow> nat \<Rightarrow> ('f, 'z) reactor_scheme \<Rightarrow> int \<times> ('f, 'z) reactor_scheme" where
  "createNonblockingOrDie N family s =
     (let sockfd = n_socket N (trace s) family in (sockfd, log_sys (SockOpen sockfd) s))"

definition sockets_connect ::
  "net \<Rightarrow> int \<Rightarrow> sockaddr_in \<Rightarrow> ('f, 'z) reactor_scheme \<Rightarrow> nat \<times> ('f, 'z) reactor_scheme" where
  "sockets_connect N sockfd addr s =
     (n_connect N (trace s) sockfd addr, log_sys (SockConnect sockfd) s)"

definition sockets_close :: "int \<Rightarrow> ('f, 'z) reactor_scheme \<Rightarrow> ('f, 'z) reactor_scheme" where
  "sockets_close sockfd s = log_sys (SockClose sockfd) s"

definition getSocketError ::
  "net \<Rightarrow> int \<Rightarrow> ('f, 'z) reactor_scheme \<Rightarrow> nat \<times> ('f, 'z) reactor_scheme" where
  "getSocketError N sockfd s = (n_sockerr N (trace s) sockfd, log_sys (SockGetError sockfd) s)"

definition getLocalAddr :: "net \<Rightarrow> int \<Rightarrow> ('f, 'z) reactor_scheme \<Rightarrow> sockaddr_in" where
  "getLocalAddr N sockfd s = n_local N (trace s) sockfd"

definition getPeerAddr :: "net \<Rightarrow> int \<Rightarrow> ('f, 'z) reactor_scheme \<Rightarrow> sockaddr_in" where
  "getPeerAddr N sockfd s = n_peer N (trace s) sockfd"

definition isSelfConnect :: "net \<Rightarrow> int \<Rightarrow> ('f, 'z) reactor_scheme \<Rightarrow> bool" where
  "isSelfConnect N sockfd s =
     (let localaddr = getLocalAddr N sockfd s; peeraddr = getPeerAddr N sockfd s
      in if sin_family localaddr = AF_INET
         then sin_port localaddr = sin_port peeraddr \<and> s_addr localaddr = s_addr peeraddr
         else False)"

subsection \<open>The other calls\<close>

text \<open>
  The names notwithstanding, a failure to bind or to listen is only logged. Of the error numbers
  of \<^verbatim>\<open>accept4\<close> those of a passing state are returned to the caller, all others end the process.
\<close>

definition bindOrDie :: "int \<Rightarrow> ('f, 'z) reactor_scheme \<Rightarrow> ('f, 'z) reactor_scheme" where
  "bindOrDie sockfd s = log_sys (SockBind sockfd) s"

definition listenOrDie :: "int \<Rightarrow> ('f, 'z) reactor_scheme \<Rightarrow> ('f, 'z) reactor_scheme" where
  "listenOrDie sockfd s = log_sys (SockListen sockfd) s"

definition accept_expected :: "nat list" where
  "accept_expected = [11, 103, 4, 71, 1, 24]"

definition sockets_accept ::
  "int \<Rightarrow> nat \<Rightarrow> int \<Rightarrow> ('f, 'z) reactor_scheme \<Rightarrow> (int \<times> ('f, 'z) reactor_scheme) res" where
  "sockets_accept connfd savedErrno sockfd s =
     (let s1 = log_sys (SockAccept sockfd connfd) s
      in if connfd < 0 then
           if savedErrno \<in> set accept_expected then Inr (connfd, s1) else Inl ExitProcess
         else Inr (connfd, s1))"

definition sockets_shutdownWrite :: "int \<Rightarrow> ('f, 'z) reactor_scheme \<Rightarrow> ('f, 'z) reactor_scheme" where
  "sockets_shutdownWrite sockfd s = log_sys (SockShutdownWr sockfd) s"

text \<open>
  The printers. \<open>buf\<close> is the text that an array of \<open>sz\<close> bytes holds, cut at its end by \<^verbatim>\<open>snprintf\<close>;
  \<open>ntop6\<close> is \<^verbatim>\<open>inet_ntop\<close> for an address of the other family, of which the structure has only the
  first bytes.
\<close>

definition INET_ADDRSTRLEN :: nat where "INET_ADDRSTRLEN = 16"
definition INET6_ADDRSTRLEN :: nat where "INET6_ADDRSTRLEN = 46"

definition sockets_toIp :: "(sockaddr_in \<Rightarrow> string) \<Rightarrow> nat \<Rightarrow> sockaddr_in \<Rightarrow> string \<Rightarrow> string res" where
  "sockets_toIp ntop6 sz addr buf =
     (if sin_family addr = AF_INET then
        rbind (assert_res (sz \<ge> INET_ADDRSTRLEN)) (\<lambda>_. Inr (inet_ntop4 (s_addr addr)))
      else if sin_family addr = AF_INET6 then
        rbind (assert_res (sz \<ge> INET6_ADDRSTRLEN)) (\<lambda>_. Inr (ntop6 addr))
      else Inr buf)"

definition sockets_toIpPort :: "(sockaddr_in \<Rightarrow> string) \<Rightarrow> nat \<Rightarrow> sockaddr_in \<Rightarrow> string \<Rightarrow> string res" where
  "sockets_toIpPort ntop6 sz addr buf =
     (if sin_family addr = AF_INET6 then
        rbind (sockets_toIp ntop6 (sz - 1) addr (drop 1 buf)) (\<lambda>ip.
          let b = ''['' @ ip; port = unat (networkToHost16 (sin_port addr))
          in rbind (assert_res (sz > length b)) (\<lambda>_. Inr (b @ take (sz - length b - 1) ('']:'' @ dec port))))
      else
        rbind (sockets_toIp ntop6 sz addr buf) (\<lambda>b.
          let port = unat (networkToHost16 (sin_port addr))
          in rbind (assert_res (sz > length b)) (\<lambda>_. Inr (b @ take (sz - length b - 1) ('':'' @ dec port)))))"

text \<open>
  \<open>fromIpPort\<close> asks for an address of sixteen bytes; when \<^verbatim>\<open>inet_pton\<close> (\<open>pton6_ok\<close> tells whether it
  succeeds) delivers it, it is written past the end of the structure of sixteen bytes, whose
  address begins at the fifth.
\<close>

definition fromIpPort :: "(string \<Rightarrow> bool) \<Rightarrow> string \<Rightarrow> 16 word \<Rightarrow> sockaddr_in \<Rightarrow> sockaddr_in res" where
  "fromIpPort pton6_ok ip port addr =
     (let addr1 = addr\<lparr>sin_family := AF_INET6, sin_port := hostToNetwork16 port\<rparr>
      in if pton6_ok ip then Inl OutOfRange else Inr addr1)"

lemma length_inet_ntop4: "length (inet_ntop4 a) \<le> 15"
proof -
  have b: "length (dec (addr_byte i a)) \<le> 3" for i
  proof (rule length_dec_le)
    have "addr_byte i a < 256" by (simp add: addr_byte_eq)
    then show "addr_byte i a < 10 ^ 3" by simp
  qed simp
  show ?thesis using b [of 0] b [of 1] b [of 2] b [of 3] by (simp add: inet_ntop4_def dotted_def)
qed

text \<open>
  C33: the two printers of addresses agree. For an IPv4 address and any array of at least
  twenty-two bytes, as \<^verbatim>\<open>InetAddress::toIpPort\<close> has, \<^verbatim>\<open>sockets::toIpPort\<close> fails no assertion, cuts
  nothing off and yields the same text; \<^verbatim>\<open>fromIpPort\<close> is no inverse of it: it never yields an IPv4
  address.
\<close>

theorem toIpPort_equivalent:
  assumes "sin_family addr = AF_INET" "22 \<le> sz"
  shows "sockets_toIpPort ntop6 sz addr buf = toIpPort addr \<and>
    (\<exists>out. toIpPort addr = Inr out \<and> fromIpPort pton6_ok out port addr \<noteq> Inr addr)"
proof -
  let ?ip = "inet_ntop4 (s_addr addr)" and ?p = "dec (unat (networkToHost16 (sin_port addr)))"
  have len: "length ?ip \<le> 15" "length (?ip @ '':'' @ ?p) \<le> 21"
    using length_inet_ntop4 toIpPort_bounds [of addr] by (simp_all add: toIp_def toPort_def)
  have "sockets_toIp ntop6 sz addr buf = Inr ?ip"
    using assms by (simp add: sockets_toIp_def INET_ADDRSTRLEN_def)
  then have "sockets_toIpPort ntop6 sz addr buf = Inr (?ip @ '':'' @ ?p)"
    using assms len by (simp add: sockets_toIpPort_def AF_INET_def AF_INET6_def Let_def)
  moreover have "toIpPort addr = Inr (?ip @ '':'' @ ?p)" using len by (simp add: toIpPort_def Let_def)
  moreover have "fromIpPort pton6_ok out port addr \<noteq> Inr addr" for out
  proof
    assume "fromIpPort pton6_ok out port addr = Inr addr"
    then have "addr\<lparr>sin_family := AF_INET6, sin_port := hostToNetwork16 port\<rparr> = addr"
      by (simp add: fromIpPort_def Let_def split: if_splits)
    then have "sin_family addr = AF_INET6" by (cases addr) simp
    with assms(1) show False by (simp add: AF_INET_def AF_INET6_def)
  qed
  ultimately show ?thesis by simp
qed

theorem toIpPort_equivalent_witness:
  "sockets_toIpPort (\<lambda>a. []) 64 \<lparr>sin_family = AF_INET, sin_port = hostToNetwork16 80, s_addr = quad_addr 1 2 3 4\<rparr> [] =
     toIpPort \<lparr>sin_family = AF_INET, sin_port = hostToNetwork16 80, s_addr = quad_addr 1 2 3 4\<rparr>"
  using toIpPort_equivalent [of "\<lparr>sin_family = AF_INET, sin_port = hostToNetwork16 80, s_addr = quad_addr 1 2 3 4\<rparr>" 64
      "\<lambda>a. []" "[]" "\<lambda>s. False" 0] by simp

end
