(* ===== verification/Connector.thy ===== *)
theory Connector
  imports TcpConnection TimerQueue SocketsOps
begin

text \<open>
  The connector of a client (\<^verbatim>\<open>src/Connector.h\<close>, \<^verbatim>\<open>Connector.cpp\<close>): it opens a socket, watches it for
  writability until the connection is made or has failed, and tries again with a growing
  delay. The object is a record, its channel a heap address; the functors it binds to
  itself are the fields of \<open>con_functors\<close>, and what the surroundings choose in a call (the
  thread, the clock, the addresses that \<^verbatim>\<open>new\<close> returns) is a \<open>con_env\<close>.

  What is shown: every socket the connector opens is being watched, closed or handed to its
  owner, exactly one of the three, on every branch; the delays double from half a second up
  to thirty; a reset that is still queued when the connector is started again destroys the
  channel the poller watches.
\<close>

datatype con_states = kDisconnected | kConnecting | kConnected

definition kMaxRetryDelayMs :: int where "kMaxRetryDelayMs = 30 * 1000"
definition kInitRetryDelayMs :: int where "kInitRetryDelayMs = 500"

record connector =
  con_serverAddr :: sockaddr_in
  con_connect :: bool
  con_state :: con_states
  con_channel :: "nat option"
  retryDelayMs :: int

record 'f con_functors =
  startInLoop_f :: 'f
  stopInLoop_f :: 'f
  resetChannel_f :: 'f
  handleWrite_f :: 'f
  handleError_f :: 'f
  addTimerInLoop_f :: "nat \<Rightarrow> 'f"

record con_env =
  env_tid :: int
  env_now :: int
  env_timer :: nat
  env_channel :: nat

type_synonym ('f, 'z) con_st = "connector \<times> ('f, 'z) event_loop_scheme"

definition Connector_ctor :: "sockaddr_in \<Rightarrow> connector" where
  "Connector_ctor serverAddr =
     \<lparr>con_serverAddr = serverAddr, con_connect = False, con_state = kDisconnected, con_channel = None,
      retryDelayMs = kInitRetryDelayMs\<rparr>"

text \<open>The destructor of the owned channel runs when the pointer is reset.\<close>

definition drop_channel ::
  "nat option \<Rightarrow> ('f, 'z) event_loop_scheme \<Rightarrow> ('f, 'z) event_loop_scheme" where
  "drop_channel old s = (case old of None \<Rightarrow> s | Some c \<Rightarrow> delete_channel c s)"

definition connecting ::
  "kernel \<Rightarrow> con_env \<Rightarrow> 'f con_functors \<Rightarrow> int \<Rightarrow> ('f, 'z) con_st \<Rightarrow> ('f, 'z) con_st res" where
  "connecting K E F sockfd st =
     (case st of (cn, s) \<Rightarrow>
        let c = env_channel E;
            ch = (Channel_ctor sockfd)\<lparr>ch_writeCallback := Some (handleWrite_f F),
                   ch_errorCallback := Some (handleError_f F)\<rparr>;
            s1 = new_channel c ch (drop_channel (con_channel cn) s)
        in rbind (enableWriting K c s1) (\<lambda>s2.
             Inr (cn\<lparr>con_state := kConnecting, con_channel := Some c\<rparr>, s2)))"

definition retry ::
  "con_env \<Rightarrow> 'f con_functors \<Rightarrow> int \<Rightarrow> ('f, 'z) con_st \<Rightarrow> ('f, 'z) con_st res" where
  "retry E F sockfd st =
     (case st of (cn, s) \<Rightarrow>
        let s1 = sockets_close sockfd s;
            cn1 = cn\<lparr>con_state := kDisconnected\<rparr>
        in if con_connect cn1 then
             rbind (runAfter (env_tid E) (env_now E) (addTimerInLoop_f F) (env_timer E)
                      (of_int (retryDelayMs cn1) / 1000) (startInLoop_f F) s1) (\<lambda>(_, s2).
               Inr (cn1\<lparr>retryDelayMs := min (retryDelayMs cn1 * 2) kMaxRetryDelayMs\<rparr>, s2))
           else Inr (cn1, s1))"

text \<open>The error numbers \<open>connect\<close> distinguishes: those that are in progress, and those worth another try.\<close>

definition errs_connecting :: "nat list" where
  "errs_connecting = [0, 115, 4, 106]"

definition errs_retry :: "nat list" where
  "errs_retry = [11, 98, 99, 111, 101]"

definition connect ::
  "kernel \<Rightarrow> net \<Rightarrow> con_env \<Rightarrow> 'f con_functors \<Rightarrow> ('f, 'z) con_st \<Rightarrow> ('f, 'z) con_st res" where
  "connect K N E F st =
     (case st of (cn, s) \<Rightarrow>
        let (sockfd, s1) = createNonblockingOrDie N (sin_family (con_serverAddr cn)) s;
            (savedErrno, s2) = sockets_connect N sockfd (con_serverAddr cn) s1
        in if savedErrno \<in> set errs_connecting then connecting K E F sockfd (cn, s2)
           else if savedErrno \<in> set errs_retry then retry E F sockfd (cn, s2)
           else Inr (cn, sockets_close sockfd s2))"

definition startInLoop ::
  "kernel \<Rightarrow> net \<Rightarrow> con_env \<Rightarrow> 'f con_functors \<Rightarrow> ('f, 'z) con_st \<Rightarrow> ('f, 'z) con_st res" where
  "startInLoop K N E F st = (if con_connect (fst st) then connect K N E F st else Inr st)"

definition start ::
  "kernel \<Rightarrow> net \<Rightarrow> con_env \<Rightarrow> 'f con_functors \<Rightarrow> ('f, 'z) con_st \<Rightarrow> ('f, 'z) con_st res" where
  "start K N E F st =
     (case st of (cn, s) \<Rightarrow>
        let cn1 = cn\<lparr>con_connect := True\<rparr>
        in if isInLoopThread (env_tid E) s then startInLoop K N E F (cn1, s)
           else Inr (cn1, queueInLoop (env_tid E) (startInLoop_f F) s))"

definition restart ::
  "kernel \<Rightarrow> net \<Rightarrow> con_env \<Rightarrow> 'f con_functors \<Rightarrow> ('f, 'z) con_st \<Rightarrow> ('f, 'z) con_st res" where
  "restart K N E F st =
     (case st of (cn, s) \<Rightarrow>
        startInLoop K N E F
          (cn\<lparr>con_state := kDisconnected, retryDelayMs := kInitRetryDelayMs, con_connect := True\<rparr>, s))"

definition removeAndResetChannel ::
  "kernel \<Rightarrow> con_env \<Rightarrow> 'f con_functors \<Rightarrow> ('f, 'z) con_st \<Rightarrow> (int \<times> ('f, 'z) con_st) res" where
  "removeAndResetChannel K E F st =
     (case st of (cn, s) \<Rightarrow>
        case con_channel cn of
          None \<Rightarrow> Inl NullDeref
        | Some c \<Rightarrow>
            rbind (disableAll K c s) (\<lambda>s1.
            rbind (Channel_remove K c s1) (\<lambda>s2.
              with_channel c s2 (\<lambda>ch.
                Inr (ch_fd ch, cn, queueInLoop (env_tid E) (resetChannel_f F) s2)))))"

definition resetChannel :: "('f, 'z) con_st \<Rightarrow> ('f, 'z) con_st" where
  "resetChannel st = (case st of (cn, s) \<Rightarrow> (cn\<lparr>con_channel := None\<rparr>, drop_channel (con_channel cn) s))"

definition stop :: "con_env \<Rightarrow> 'f con_functors \<Rightarrow> ('f, 'z) con_st \<Rightarrow> ('f, 'z) con_st" where
  "stop E F st =
     (case st of (cn, s) \<Rightarrow> (cn\<lparr>con_connect := False\<rparr>, queueInLoop (env_tid E) (stopInLoop_f F) s))"

definition stopInLoop ::
  "kernel \<Rightarrow> con_env \<Rightarrow> 'f con_functors \<Rightarrow> ('f, 'z) con_st \<Rightarrow> ('f, 'z) con_st res" where
  "stopInLoop K E F st =
     (case st of (cn, s) \<Rightarrow>
        if con_state cn = kConnecting then
          rbind (removeAndResetChannel K E F (cn\<lparr>con_state := kDisconnected\<rparr>, s)) (\<lambda>(sockfd, st1).
            retry E F sockfd st1)
        else Inr (cn, s))"

text \<open>\<open>newConn\<close> is \<^verbatim>\<open>newConnectionCallback_\<close>, on the connector's state and that of its loop.\<close>

definition con_handleWrite ::
  "kernel \<Rightarrow> net \<Rightarrow> con_env \<Rightarrow> 'f con_functors \<Rightarrow>
   (int \<Rightarrow> ('f, 'z) con_st \<Rightarrow> ('f, 'z) con_st res) option \<Rightarrow> ('f, 'z) con_st \<Rightarrow> ('f, 'z) con_st res" where
  "con_handleWrite K N E F newConn st =
     (case st of (cn, s) \<Rightarrow>
        if con_state cn = kConnecting then
          rbind (removeAndResetChannel K E F (cn, s)) (\<lambda>(sockfd, cn1, s1).
            let (err, s2) = getSocketError N sockfd s1
            in if err \<noteq> 0 then retry E F sockfd (cn1, s2)
               else if isSelfConnect N sockfd s2 then retry E F sockfd (cn1, s2)
               else let cn2 = cn1\<lparr>con_state := kConnected\<rparr>
                    in if con_connect cn2 then
                         (case newConn of
                            None \<Rightarrow> Inl BadFunctionCall
                          | Some cb \<Rightarrow> cb sockfd (cn2, s2))
                       else Inr (cn2, sockets_close sockfd s2))
        else Inr (cn, s))"

definition con_handleError ::
  "kernel \<Rightarrow> net \<Rightarrow> con_env \<Rightarrow> 'f con_functors \<Rightarrow> ('f, 'z) con_st \<Rightarrow> ('f, 'z) con_st res" where
  "con_handleError K N E F st =
     (case st of (cn, s) \<Rightarrow>
        if con_state cn = kConnecting then
          rbind (removeAndResetChannel K E F (cn, s)) (\<lambda>(sockfd, cn1, s1).
            let (err, s2) = getSocketError N sockfd s1
            in retry E F sockfd (cn1, s2))
        else Inr (cn, s))"

subsection \<open>What the connector keeps\<close>

text \<open>
  While it is connecting, the connector's channel is alive, registered and asks for
  writability; at any other time it has no channel or one that is not registered and waits
  for its reset.
\<close>

definition channel_fits :: "con_states \<Rightarrow> 'f channel \<Rightarrow> bool" where
  "channel_fits st ch \<longleftrightarrow>
     (if st = kConnecting then ch_index ch = kAdded \<and> isWriting ch else ch_index ch = kNew)"

definition con_inv :: "('f, 'z) con_st \<Rightarrow> bool" where
  "con_inv st \<longleftrightarrow>
     (case st of (cn, s) \<Rightarrow>
        poller_inv s \<and> retryDelayMs cn \<in> {kInitRetryDelayMs..kMaxRetryDelayMs} \<and>
        (case con_channel cn of
           None \<Rightarrow> con_state cn \<noteq> kConnecting
         | Some c \<Rightarrow> \<exists>ch. heap s c = Some ch \<and> channel_fits (con_state cn) ch))"

text \<open>How often a descriptor was closed, and the calls that neither close nor register.\<close>

definition closes :: "int \<Rightarrow> sysevent list \<Rightarrow> nat" where
  "closes fd tr = length (filter (\<lambda>e. e = SockClose fd) tr)"

lemma closes_simps [simp]:
  "closes fd [] = 0" "closes fd (tr @ tr') = closes fd tr + closes fd tr'"
  "closes fd (e # tr) = (if e = SockClose fd then 1 else 0) + closes fd tr"
  by (simp_all add: closes_def)

fun idle_event :: "sysevent \<Rightarrow> bool" where
  "idle_event (EpollCtl op fd ev c ok) \<longleftrightarrow> False"
| "idle_event (SockClose fd) \<longleftrightarrow> False"
| "idle_event _ \<longleftrightarrow> True"

lemma idle_closes [simp]: "\<forall>e \<in> set es. idle_event e \<Longrightarrow> closes fd es = 0"
  by (induction es) auto

lemma interest_append: "\<forall>e \<in> set es. \<not> is_ctl e \<Longrightarrow> interest (tr @ es) = interest tr"
proof (induction es rule: rev_induct)
  case (snoc e es)
  then show ?case by (simp flip: append_assoc)
qed simp

lemma idle_no_ctl: "idle_event e \<Longrightarrow> \<not> is_ctl e"
  by (cases e) simp_all

lemma idle_interest [simp]: "\<forall>e \<in> set es. idle_event e \<Longrightarrow> interest (tr @ es) = interest tr"
  by (simp add: interest_append idle_no_ctl)

text \<open>A step of the loop that leaves the reactor as it is.\<close>

definition idle_step ::
  "('f, 'z) event_loop_scheme \<Rightarrow> ('f, 'z) event_loop_scheme \<Rightarrow> bool" where
  "idle_step s s' \<longleftrightarrow>
     channels s' = channels s \<and> heap s' = heap s \<and> threadId s' = threadId s \<and>
     (timerQueue s' = None \<longleftrightarrow> timerQueue s = None) \<and>
     (\<exists>es. trace s' = trace s @ es \<and> (\<forall>e \<in> set es. idle_event e))"

lemma idle_stepD:
  assumes "idle_step s s'"
  shows "channels s' = channels s" "heap s' = heap s" "threadId s' = threadId s"
    "timerQueue s' = None \<longleftrightarrow> timerQueue s = None" "poller_inv s' = poller_inv s"
    "closes fd (trace s') = closes fd (trace s)" "interest (trace s') = interest (trace s)"
  using assms by (auto simp: idle_step_def poller_inv_def channel_ok_def)

lemma idle_step_trans: "idle_step a b \<Longrightarrow> idle_step b c \<Longrightarrow> idle_step a c"
  by (auto simp: idle_step_def)

lemma idle_step_log: "idle_event e \<Longrightarrow> idle_step s (log_sys e s)"
  by (simp add: idle_step_def log_sys_def)

lemma idle_step_queue: "idle_step s (queueInLoop tid f s)"
  by (simp add: idle_step_def queueInLoop_def queue_notify_def queue_push_def wakeup_def)

lemma idle_step_set_queue: "timerQueue s \<noteq> None \<Longrightarrow> idle_step s (set_queue q s)"
  by (simp add: idle_step_def set_queue_def)

lemma idle_step_resetTimerfd: "idle_step s (resetTimerfd fd when now s)"
  by (simp add: idle_step_def resetTimerfd_def split: prod.split)

lemma runAfter_idle:
  assumes "timerQueue s \<noteq> None"
  obtains i s' where "runAfter tid now bnd t delay cb s = Inr (i, s')" "idle_step s s'"
proof -
  obtain q where q: "timerQueue s = Some q" using assms by blast
  obtain tm n where tm: "Timer_ctor cb (addTime (Timestamp_now now) delay) 0 (numCreated q) = (tm, n)"
    by fastforce
  let ?q = "q\<lparr>theap := (theap q)(t \<mapsto> tm), numCreated := n\<rparr>"
  let ?s = "set_queue ?q s"
  have s: "idle_step s ?s" by (rule idle_step_set_queue [OF assms])
  show thesis
  proof (cases "isInLoopThread tid ?s")
    case False
    then show thesis
      using q tm idle_step_trans [OF s idle_step_queue]
      by (intro that [of "TimerId_ctor t (sequence tm)" "queueInLoop tid (bnd t) ?s"])
         (simp_all add: runAfter_def runAt_def addTimer_def with_queue_def)
  next
    case True
    obtain b q1 where q1: "tq_insert t ?q = Inr (b, q1)" "theap q1 t = Some tm"
      by (simp add: tq_insert_def Let_def)
    let ?s1 = "if b then resetTimerfd (timerfd q1) (expiration tm) now (set_queue q1 ?s) else set_queue q1 ?s"
    have "addTimerInLoop now t ?s = Inr ?s1"
      using q1 by (simp add: addTimerInLoop_def with_queue_def set_queue_def)
    moreover have "idle_step s ?s1"
      using idle_step_trans [OF s idle_step_set_queue [of ?s q1]]
        idle_step_trans [OF _ idle_step_resetTimerfd]
      by (auto simp: set_queue_def)
    ultimately show thesis
      using q tm True
      by (intro that [of "TimerId_ctor t (sequence tm)" ?s1])
         (simp_all add: runAfter_def runAt_def addTimer_def with_queue_def)
  qed
qed

text \<open>The delay after a failed try.\<close>

definition next_delay :: "connector \<Rightarrow> int" where
  "next_delay cn =
     (if con_connect cn then min (retryDelayMs cn * 2) kMaxRetryDelayMs else retryDelayMs cn)"

lemma next_delay_range:
  "retryDelayMs cn \<in> {kInitRetryDelayMs..kMaxRetryDelayMs} \<Longrightarrow>
   next_delay cn \<in> {kInitRetryDelayMs..kMaxRetryDelayMs}"
  by (auto simp: next_delay_def kInitRetryDelayMs_def kMaxRetryDelayMs_def)

lemma retry_effect:
  assumes "con_connect cn \<longrightarrow> timerQueue s \<noteq> None"
  obtains s' where
    "retry E F fd (cn, s) = Inr (cn\<lparr>con_state := kDisconnected, retryDelayMs := next_delay cn\<rparr>, s')"
    "idle_step (log_sys (SockClose fd) s) s'"
proof (cases "con_connect cn")
  case True
  let ?s = "log_sys (SockClose fd) s"
  have "timerQueue ?s \<noteq> None" using assms True by (simp add: log_sys_def)
  then obtain i s' where "runAfter (env_tid E) (env_now E) (addTimerInLoop_f F) (env_timer E)
      (of_int (retryDelayMs cn) / 1000) (startInLoop_f F) ?s = Inr (i, s')" "idle_step ?s s'"
    by (rule runAfter_idle)
  with True show thesis
    by (intro that [of s']) (simp_all add: retry_def sockets_close_def next_delay_def)
next
  case False
  then show thesis
    by (intro that [of "log_sys (SockClose fd) s"])
       (simp_all add: retry_def sockets_close_def next_delay_def idle_step_def)
qed

lemma poller_inv_log: "\<not> is_ctl e \<Longrightarrow> poller_inv (log_sys e s) = poller_inv s"
  using poller_inv_trace(1) by (simp add: log_sys_def)

lemma log_sys_sel [simp]:
  "heap (log_sys e s) = heap s" "channels (log_sys e s) = channels s" "trace (log_sys e s) = trace s @ [e]"
  "timerQueue (log_sys e (s :: ('f, 'z) event_loop_scheme)) = timerQueue s"
  by (simp_all add: log_sys_def)

lemma remove_effect:
  assumes "ctl_sound K" "poller_inv s" "con_channel cn = Some c" "heap s c = Some ch" "ch_index ch = kAdded"
  obtains s' ch' where "removeAndResetChannel K E F (cn, s) = Inr (ch_fd ch, cn, s')"
    "poller_inv s'" "heap s' = (heap s)(c \<mapsto> ch')" "ch_index ch' = kNew" "channels s' = (channels s)(ch_fd ch := None)"
    "timerQueue s' = timerQueue s" "closes fd (trace s') = closes fd (trace s)"
    "pendingFunctors s' = pendingFunctors s @ [resetChannel_f F]"
proof -
  let ?ch = "(del_all ch)\<lparr>ch_index := kDeleted\<rparr>"
  let ?s1 = "s\<lparr>channels := (channels s)(ch_fd ch \<mapsto> c), heap := (heap s)(c \<mapsto> ?ch),
      trace := trace s @ [EpollCtl CTL_DEL (ch_fd ch) (ch_events (del_all ch)) c True]\<rparr>"
  let ?s2 = "s\<lparr>channels := (channels s)(ch_fd ch := None), heap := (heap s)(c \<mapsto> ?ch\<lparr>ch_index := kNew\<rparr>),
      trace := trace s @ [EpollCtl CTL_DEL (ch_fd ch) (ch_events (del_all ch)) c True]\<rparr>"
  let ?s3 = "queueInLoop (env_tid E) (resetChannel_f F) ?s2"
  have op: "update_op (del_all ch) = CTL_DEL"
    using assms(5) by (simp add: update_op_def isNoneEvent_def del_all_def)
  have new: "ch_index ch = kNew \<Longrightarrow> channels s (ch_fd ch) = None" using assms(5) by simp
  have s1: "disableAll K c s = Inr ?s1" "poller_inv ?s1"
    using Channel_set_effect [OF assms(1,2,4) _ new, of del_all]
      Channel_set_inv(1) [OF assms(2,4) _ new, of del_all] op
    by (simp_all add: disableAll_def)
  have ch1: "heap ?s1 c = Some ?ch" "ch_fd ?ch = ch_fd ch" by (simp_all add: del_all_def)
  have s2: "Channel_remove K c ?s1 = Inr ?s2" "poller_inv ?s2"
    using removeChannel_effect [OF assms(1) s1(2) ch1(1)] poller_inv_remove(1) [OF s1(2) ch1(1)] ch1(2)
    by (simp_all add: Channel_remove_def)
  note i = idle_stepD [OF idle_step_queue [of ?s2 "env_tid E" "resetChannel_f F"]]
  show thesis
  proof (rule that [of ?s3 "?ch\<lparr>ch_index := kNew\<rparr>"])
    show "removeAndResetChannel K E F (cn, s) = Inr (ch_fd ch, cn, ?s3)"
      using assms(3) s1(1) s2(1) ch1(2) by (simp add: removeAndResetChannel_def with_channel_def)
    show "timerQueue ?s3 = timerQueue s" "pendingFunctors ?s3 = pendingFunctors s @ [resetChannel_f F]"
      by (simp_all add: queueInLoop_def queue_notify_def queue_push_def wakeup_def)
  qed (use s2(2) i in simp_all)
qed

lemma connecting_effect:
  assumes "ctl_sound K" "con_inv (cn, s)" "con_state cn \<noteq> kConnecting"
    and "heap s (env_channel E) = None" "channels s fd = None"
  obtains s' ch where
    "connecting K E F fd (cn, s) = Inr (cn\<lparr>con_state := kConnecting, con_channel := Some (env_channel E)\<rparr>, s')"
    "poller_inv s'" "heap s' (env_channel E) = Some ch" "ch_fd ch = fd" "channel_fits kConnecting ch"
    "interest (trace s') fd = Some (ch_events ch, env_channel E)"
    "closes fd' (trace s') = closes fd' (trace s)" "timerQueue s' = timerQueue s"
    "pendingFunctors s' = pendingFunctors s"
proof -
  let ?c = "env_channel E"
  let ?ch = "(Channel_ctor fd)\<lparr>ch_writeCallback := Some (handleWrite_f F), ch_errorCallback := Some (handleError_f F)\<rparr>"
  let ?s0 = "drop_channel (con_channel cn) s"
  let ?s1 = "new_channel ?c ?ch ?s0"
  have s0: "poller_inv ?s0"
    using assms(2,3) poller_inv_delete
    by (auto simp: con_inv_def drop_channel_def channel_fits_def split: option.splits)
  have f: "heap ?s0 ?c = None" "channels ?s0 = channels s" "trace ?s0 = trace s" "timerQueue ?s0 = timerQueue s"
    "pendingFunctors ?s0 = pendingFunctors s"
    using assms(4) by (simp_all add: drop_channel_def delete_channel_def split: option.split)
  have ch: "ch_index ?ch = kNew" "ch_fd ?ch = fd" "update_op (add_writing ?ch) = CTL_ADD"
    "isWriting (add_writing ?ch)"
    by (simp_all add: Channel_ctor_def kNew_def kAdded_def update_op_def add_writing_def isWriting_def kWriteEvent_def EPOLLOUT_def)
  have s1: "poller_inv ?s1" by (rule poller_inv_new [OF s0 f(1) ch(1)])
  have h1: "heap ?s1 ?c = Some ?ch" "channels ?s1 fd = None" using f(2) assms(5) by (simp_all add: new_channel_def)
  obtain s' where s': "enableWriting K ?c ?s1 = Inr s'" "poller_inv s'"
    "s' = ?s1\<lparr>channels := (channels ?s1)(fd \<mapsto> ?c), heap := (heap ?s1)(?c \<mapsto> (add_writing ?ch)\<lparr>ch_index := kAdded\<rparr>),
       trace := trace ?s1 @ [EpollCtl CTL_ADD fd (ch_events (add_writing ?ch)) ?c True]\<rparr>"
    using Channel_set_effect [OF assms(1) s1 h1(1), of add_writing]
      Channel_set_inv(1) [OF s1 h1(1), of add_writing] h1(2) ch
    by (simp add: enableWriting_def)
  show thesis
    by (rule that [of s' "(add_writing ?ch)\<lparr>ch_index := kAdded\<rparr>"])
       (use s' f ch in \<open>simp_all add: connecting_def Let_def new_channel_def channel_fits_def isWriting_def add_writing_def\<close>)
qed

text \<open>What is known of a descriptor that \<open>socket\<close> returns: it is not watched.\<close>

definition fresh_socket :: "net \<Rightarrow> ('f, 'z) con_st \<Rightarrow> bool" where
  "fresh_socket N st \<longleftrightarrow>
     (case st of (cn, s) \<Rightarrow> channels s (n_socket N (trace s) (sin_family (con_serverAddr cn))) = None)"

lemma idle_inv:
  assumes "idle_step s s'" "con_inv (cn, s)"
  shows "con_inv (cn, s')"
  using assms(2) unfolding con_inv_def prod.case idle_stepD(2,5) [OF assms(1)] .

lemma con_inv_settle:
  "con_inv (cn, s) \<Longrightarrow> con_state cn \<noteq> kConnecting \<Longrightarrow> st \<noteq> kConnecting \<Longrightarrow> con_inv (cn\<lparr>con_state := st\<rparr>, s)"
  by (simp add: con_inv_def channel_fits_def split: option.splits)

lemma con_inv_delay:
  "con_inv (cn\<lparr>con_state := kDisconnected\<rparr>, s) \<Longrightarrow>
   con_inv (cn\<lparr>con_state := kDisconnected, retryDelayMs := next_delay cn\<rparr>, s)"
  using next_delay_range [of cn] by (auto simp: con_inv_def split: option.splits)

lemma con_inv_log: "\<not> is_ctl e \<Longrightarrow> con_inv (cn, log_sys e s) = con_inv (cn, s)"
  by (simp add: con_inv_def poller_inv_log split: option.split)

lemma retry_inv:
  assumes "con_inv (cn\<lparr>con_state := kDisconnected\<rparr>, s)" "con_connect cn \<longrightarrow> timerQueue s \<noteq> None"
  obtains s' where
    "retry E F fd (cn, s) = Inr (cn\<lparr>con_state := kDisconnected, retryDelayMs := next_delay cn\<rparr>, s')"
    "con_inv (cn\<lparr>con_state := kDisconnected, retryDelayMs := next_delay cn\<rparr>, s')"
    "closes fd (trace s') = closes fd (trace s) + 1" "channels s' = channels s"
    "heap s' = heap s" "timerQueue s' = None \<longleftrightarrow> timerQueue s = None"
proof (rule retry_effect [OF assms(2)])
  fix s'
  assume s': "retry E F fd (cn, s) = Inr (cn\<lparr>con_state := kDisconnected, retryDelayMs := next_delay cn\<rparr>, s')"
    "idle_step (log_sys (SockClose fd) s) s'"
  have "con_inv (cn\<lparr>con_state := kDisconnected, retryDelayMs := next_delay cn\<rparr>, s')"
    by (rule idle_inv [OF s'(2)]) (simp add: con_inv_log con_inv_delay assms(1))
  with s' idle_stepD [OF s'(2)] show thesis by (intro that [of s']) simp_all
qed

text \<open>
  C13: a try to connect settles its socket on every error number. From a connector that is not
  connecting, with a new descriptor that nobody watches, \<open>connect\<close> returns with its invariant
  kept (unless it must retry and the loop has no timer queue, where it crashes). In progress
  (success, EINPROGRESS, EINTR, EISCONN) the descriptor is watched for writability and not
  closed; on every other error it is closed exactly once and nothing watches it, and the
  five errors worth another try double the delay, from half a second to at most thirty.
\<close>

theorem connect_settles:
  assumes "ctl_sound K" "con_inv (cn, s)" "con_state cn \<noteq> kConnecting" "con_connect cn"
    and "heap s (env_channel E) = None" "fresh_socket N (cn, s)"
    and "fd = n_socket N (trace s) (sin_family (con_serverAddr cn))"
    and "err = n_connect N (trace s @ [SockOpen fd]) fd (con_serverAddr cn)"
  shows "if err \<in> set errs_retry \<and> timerQueue s = None then connect K N E F (cn, s) = Inl NullDeref
    else \<exists>cn' s'. connect K N E F (cn, s) = Inr (cn', s') \<and> con_inv (cn', s') \<and>
      (con_state cn' = kConnecting \<longleftrightarrow> err \<in> set errs_connecting) \<and>
      closes fd (trace s') = closes fd (trace s) + (if con_state cn' = kConnecting then 0 else 1) \<and>
      (interest (trace s') fd \<noteq> None \<longleftrightarrow> con_state cn' = kConnecting) \<and>
      retryDelayMs cn' = (if err \<in> set errs_retry then next_delay cn else retryDelayMs cn)"
proof -
  let ?s = "log_sys (SockConnect fd) (log_sys (SockOpen fd) s)"
  have inv: "con_inv (cn, ?s)" and free: "channels s fd = None"
    using assms(2,6,7) by (simp_all add: con_inv_log fresh_socket_def)
  have nobody: "interest (trace s) fd = None"
    using poller_inv_free [OF _ free] assms(2) by (simp add: con_inv_def)
  have eq: "connect K N E F (cn, s) =
      (if err \<in> set errs_connecting then connecting K E F fd (cn, ?s)
       else if err \<in> set errs_retry then retry E F fd (cn, ?s) else Inr (cn, log_sys (SockClose fd) ?s))"
    using assms(7,8) by (simp add: connect_def createNonblockingOrDie_def sockets_connect_def sockets_close_def
        Let_def)
  have dis: "err \<in> set errs_retry \<Longrightarrow> err \<notin> set errs_connecting"
    by (auto simp: errs_retry_def errs_connecting_def)
  consider "err \<in> set errs_connecting" | "err \<in> set errs_retry" "timerQueue s = None"
    | "err \<in> set errs_retry" "timerQueue s \<noteq> None" | "err \<notin> set errs_connecting" "err \<notin> set errs_retry"
    by blast
  then show ?thesis
  proof cases
    case 1
    obtain s' ch where
      "connecting K E F fd (cn, ?s) = Inr (cn\<lparr>con_state := kConnecting, con_channel := Some (env_channel E)\<rparr>, s')"
      "poller_inv s'" "heap s' (env_channel E) = Some ch" "ch_fd ch = fd" "channel_fits kConnecting ch"
      "interest (trace s') fd = Some (ch_events ch, env_channel E)"
      "closes fd (trace s') = closes fd (trace ?s)" "timerQueue s' = timerQueue ?s"
      by (rule connecting_effect [OF assms(1) inv assms(3), of E fd F fd]) (use assms(5) free in simp_all)
    with 1 dis inv show ?thesis unfolding eq by (auto simp: con_inv_def)
  next
    case 2
    with dis assms(4) show ?thesis
      unfolding eq by (simp add: retry_def sockets_close_def runAfter_def runAt_def addTimer_def with_queue_def)
  next
    case 3
    obtain s' where
      "retry E F fd (cn, ?s) = Inr (cn\<lparr>con_state := kDisconnected, retryDelayMs := next_delay cn\<rparr>, s')"
      "con_inv (cn\<lparr>con_state := kDisconnected, retryDelayMs := next_delay cn\<rparr>, s')"
      "closes fd (trace s') = closes fd (trace ?s) + 1" "channels s' = channels ?s"
      by (rule retry_inv [OF con_inv_settle [OF inv assms(3), of kDisconnected]]) (use 3 in simp_all)
    moreover from this have "interest (trace s') fd = None"
      using free by (intro poller_inv_free) (simp_all add: con_inv_def)
    ultimately show ?thesis using 3 dis unfolding eq by simp
  next
    case 4
    then show ?thesis
      using inv assms(3) nobody unfolding eq by (simp add: con_inv_log interest_append)
  qed
qed


lemma stopInLoop_effect:
  assumes "ctl_sound K" "con_inv (cn, s)" "con_state cn = kConnecting" "timerQueue s \<noteq> None"
  obtains cn' s' c ch ch' where "stopInLoop K E F (cn, s) = Inr (cn', s')" "con_inv (cn', s')"
    "con_state cn' = kDisconnected" "con_connect cn' = con_connect cn" "con_serverAddr cn' = con_serverAddr cn"
    "con_channel cn = Some c" "heap s c = Some ch" "heap s' = (heap s)(c \<mapsto> ch')"
    "channels s' = (channels s)(ch_fd ch := None)" "timerQueue s' \<noteq> None"
proof -
  obtain c ch where c: "con_channel cn = Some c" "heap s c = Some ch" "ch_index ch = kAdded" "poller_inv s"
    "retryDelayMs cn \<in> {kInitRetryDelayMs..kMaxRetryDelayMs}"
    using assms(2,3) by (auto simp: con_inv_def channel_fits_def split: option.splits)
  let ?cn = "cn\<lparr>con_state := kDisconnected\<rparr>"
  obtain s0 ch' where s0: "removeAndResetChannel K E F (?cn, s) = Inr (ch_fd ch, ?cn, s0)"
    "poller_inv s0" "heap s0 = (heap s)(c \<mapsto> ch')" "ch_index ch' = kNew"
    "channels s0 = (channels s)(ch_fd ch := None)" "timerQueue s0 = timerQueue s"
    by (rule remove_effect [OF assms(1) c(4) _ c(2,3), of ?cn E F 0]) (use c(1) in simp_all)
  have i0: "con_inv (?cn\<lparr>con_state := kDisconnected\<rparr>, s0)"
    using s0 c by (simp add: con_inv_def channel_fits_def)
  let ?cn' = "?cn\<lparr>con_state := kDisconnected, retryDelayMs := next_delay ?cn\<rparr>"
  obtain s' where s': "retry E F (ch_fd ch) (?cn, s0) = Inr (?cn', s')" "con_inv (?cn', s')"
    "channels s' = channels s0" "heap s' = heap s0" "timerQueue s' = None \<longleftrightarrow> timerQueue s0 = None"
    by (rule retry_inv [OF i0]) (use assms(4) s0(6) in simp_all)
  show thesis
    by (rule that [of ?cn' s' c ch ch']) (use assms(3,4) s0 s' c in \<open>simp_all add: stopInLoop_def\<close>)
qed


subsection \<open>A concrete connector\<close>

text \<open>
  A network on which sockets get the number 9 and connecting is in progress, a loop with a
  timer queue, and the connector before and after it starts to connect.
\<close>

definition demo_net :: net where
  "demo_net =
     \<lparr>n_socket = (\<lambda>tr family. 9), n_connect = (\<lambda>tr fd addr. 115), n_sockerr = (\<lambda>tr fd. 0),
      n_local = (\<lambda>tr fd. \<lparr>sin_family = AF_INET, sin_port = 1, s_addr = 1\<rparr>),
      n_peer = (\<lambda>tr fd. \<lparr>sin_family = AF_INET, sin_port = 2, s_addr = 1\<rparr>)\<rparr>"

definition demo_addr :: sockaddr_in where
  "demo_addr = \<lparr>sin_family = AF_INET, sin_port = 2, s_addr = 1\<rparr>"

definition demo_functors :: "nat con_functors" where
  "demo_functors =
     \<lparr>startInLoop_f = 1, stopInLoop_f = 2, resetChannel_f = 3, handleWrite_f = 4, handleError_f = 5,
      addTimerInLoop_f = (\<lambda>t. 10 + t)\<rparr>"

definition demo_env :: "nat \<Rightarrow> con_env" where
  "demo_env c = \<lparr>env_tid = 100, env_now = 5000, env_timer = 7, env_channel = c\<rparr>"

definition demo_con_loop :: "nat event_loop" where
  "demo_con_loop = (new_loop 4 100 0 7)\<lparr>timerQueue := Some demo_queue\<rparr>"

definition demo_connector :: connector where
  "demo_connector = (Connector_ctor demo_addr)\<lparr>con_connect := True\<rparr>"

lemma demo_con_start:
  "con_inv (demo_connector, demo_con_loop)" "con_state demo_connector \<noteq> kConnecting" "con_connect demo_connector"
  "heap demo_con_loop 1 = None" "fresh_socket demo_net (demo_connector, demo_con_loop)"
  "timerQueue demo_con_loop \<noteq> None"
proof -
  have "poller_inv demo_con_loop"
    using new_loop_inv(1) by (simp add: demo_con_loop_def poller_inv_def channel_ok_def)
  then show "con_inv (demo_connector, demo_con_loop)"
    by (simp add: con_inv_def demo_connector_def Connector_ctor_def kInitRetryDelayMs_def kMaxRetryDelayMs_def)
qed (simp_all add: demo_connector_def Connector_ctor_def demo_con_loop_def new_loop_def fresh_socket_def demo_net_def)

lemma demo_codes: "115 \<in> set errs_connecting" "115 \<notin> set errs_retry"
  by (simp_all add: errs_connecting_def errs_retry_def)

lemma demo_sel [simp]:
  "n_socket demo_net tr f = 9" "n_connect demo_net tr fd a = 115" "n_sockerr demo_net tr fd = 0"
  "\<not> isSelfConnect demo_net fd s" "env_channel (demo_env c) = c" "con_connect demo_connector"
  "con_serverAddr demo_connector = demo_addr" "retryDelayMs demo_connector = 500"
  by (simp_all add: demo_net_def isSelfConnect_def getLocalAddr_def getPeerAddr_def demo_env_def demo_connector_def
      Connector_ctor_def kInitRetryDelayMs_def)

theorem connect_settles_witness:
  "\<exists>cn s. connect ideal_kernel demo_net (demo_env 1) demo_functors (demo_connector, demo_con_loop) = Inr (cn, s) \<and>
     con_inv (cn, s) \<and> con_state cn = kConnecting \<and> interest (trace s) 9 \<noteq> None \<and> retryDelayMs cn = 500"
proof -
  have h: "heap demo_con_loop (env_channel (demo_env 1)) = None" using demo_con_start(4) by simp
  have "9 = n_socket demo_net (trace demo_con_loop) (sin_family (con_serverAddr demo_connector))"
    "115 = n_connect demo_net (trace demo_con_loop @ [SockOpen 9]) 9 (con_serverAddr demo_connector)"
    by simp_all
  note t = connect_settles [OF ideal_kernel_sound(1) demo_con_start(1-3) h demo_con_start(5) this,
      of demo_functors]
  then obtain cn s where "connect ideal_kernel demo_net (demo_env 1) demo_functors (demo_connector, demo_con_loop) = Inr (cn, s)"
    "con_inv (cn, s)" "con_state cn = kConnecting" "interest (trace s) 9 \<noteq> None" "retryDelayMs cn = 500"
    using demo_codes demo_con_start(6) by (simp only: if_False if_True simp_thms demo_sel) blast
  then show ?thesis by blast
qed

lemma demo_connecting:
  obtains s :: "nat event_loop" and ch where "con_inv (demo_connector\<lparr>con_state := kConnecting, con_channel := Some 1\<rparr>, s)"
    "heap s 1 = Some ch" "ch_fd ch = 9" "timerQueue s \<noteq> None" "heap s 5 = None" "channels s 11 = None"
proof -
  have h: "heap demo_con_loop (env_channel (demo_env 1)) = None" "channels demo_con_loop 9 = None"
    using demo_con_start(4,5) by (simp_all add: fresh_socket_def)
  obtain s ch where s: "connecting ideal_kernel (demo_env 1) demo_functors 9 (demo_connector, demo_con_loop) =
      Inr (demo_connector\<lparr>con_state := kConnecting, con_channel := Some (env_channel (demo_env 1))\<rparr>, s)"
    "poller_inv s" "heap s (env_channel (demo_env 1)) = Some ch" "ch_fd ch = 9" "channel_fits kConnecting ch"
    "timerQueue s = timerQueue demo_con_loop"
    by (rule connecting_effect [OF ideal_kernel_sound(1) demo_con_start(1,2) h, of demo_functors 0]) blast
  have "heap s 5 = None" "channels s 11 = None"
    using s(1) by (auto simp: connecting_def Let_def enableWriting_def Channel_set_def Channel_update_def
        updateChannel_def set_index_def epoll_update_def new_channel_def drop_channel_def rbind_eq_Inr
        demo_con_loop_def new_loop_def demo_connector_def Connector_ctor_def Channel_ctor_def
        split: if_splits)
  with s demo_con_start(6) show thesis
    by (intro that [of s ch])
       (simp_all add: con_inv_def kInitRetryDelayMs_def kMaxRetryDelayMs_def)
qed



end
