(* ===== verification/TcpClient.thy ===== *)
theory TcpClient
  imports Connector
begin

text \<open>
  The TCP client (\<^verbatim>\<open>src/TcpClient.h\<close>, \<^verbatim>\<open>TcpClient.cpp\<close>): a connector and at most one current
  connection. The client's members extend the state of its loop (with the history fields of
  theory \<open>TcpConnection\<close>, which no operation reads), so that the connector's and the
  connection's callbacks act on them. Connection objects are known by numbers: a
  \<^verbatim>\<open>TcpConnectionPtr\<close> is such a number. What keeps an object alive is written out: the member
  \<^verbatim>\<open>connection_\<close>, functors bound to it, and its own close callback, in which the client binds the
  pointer.

  What is shown: a connection object of a client that is not destroyed lives for ever, because
  its close callback refers to it; destroying a client that is connected, in its loop's
  thread, destroys the connection while the poller still refers to its channel; and how
  the end of a connection leads to the next try.
\<close>

datatype close_cb = NoCallback | RemoveBound nat | DetailRemove

record ('f, 'c) tcp_client = "'f client_loop" +
  cli_connector :: connector
  cli_name :: string
  cli_retry :: bool
  cli_connect :: bool
  cli_nextConnId :: nat
  cli_writeComplete :: "'f option"
  cli_connection :: "nat option"
  cli_conns :: "nat \<Rightarrow> ('f, 'c) tcp_connection option"
  cli_closecb :: "nat \<Rightarrow> close_cb"

text \<open>The functors bound to the client and its connections, and to a connection's four handlers.\<close>

record 'f cli_functors =
  destroyed_f :: "nat \<Rightarrow> 'f"
  setClose_f :: "nat \<Rightarrow> 'f"
  shutdown_f :: "nat \<Rightarrow> 'f"
  removeConnector_f :: 'f
  handlers_f :: "nat \<Rightarrow> nat \<Rightarrow> 'f"

type_synonym ('f, 'c, 'z) cli_callbacks =
  "nat \<Rightarrow> (('f, 'c) tcp_connection \<times> ('f, 'c, 'z) tcp_client_scheme) conn_callbacks"

definition on_con ::
  "(connector \<times> ('f, 'c, 'z) tcp_client_scheme \<Rightarrow> (connector \<times> ('f, 'c, 'z) tcp_client_scheme) res) \<Rightarrow>
   ('f, 'c, 'z) tcp_client_scheme \<Rightarrow> ('f, 'c, 'z) tcp_client_scheme res" where
  "on_con g s = rbind (g (cli_connector s, s)) (\<lambda>(con, s'). Inr (s'\<lparr>cli_connector := con\<rparr>))"

definition with_cli ::
  "nat \<Rightarrow> ('f, 'c, 'z) tcp_client_scheme \<Rightarrow> (('f, 'c) tcp_connection \<Rightarrow> 'b res) \<Rightarrow> 'b res" where
  "with_cli n s k = (case cli_conns s n of None \<Rightarrow> Inl UseAfterFree | Some cn \<Rightarrow> k cn)"

definition put_cli ::
  "nat \<Rightarrow> ('f, 'c) tcp_connection \<Rightarrow> ('f, 'c, 'z) tcp_client_scheme \<Rightarrow> ('f, 'c, 'z) tcp_client_scheme" where
  "put_cli n cn s = s\<lparr>cli_conns := (cli_conns s)(n \<mapsto> cn)\<rparr>"

text \<open>The end of a reference to a connection: the object is destroyed if it was the last one.\<close>

definition owned :: "'f cli_functors \<Rightarrow> nat \<Rightarrow> ('f, 'c, 'z) tcp_client_scheme \<Rightarrow> bool" where
  "owned G n s \<longleftrightarrow> cli_connection s = Some n \<or> cli_closecb s n = RemoveBound n \<or>
     destroyed_f G n \<in> set (pendingFunctors s) \<or> setClose_f G n \<in> set (pendingFunctors s)"

definition release ::
  "'f cli_functors \<Rightarrow> nat option \<Rightarrow> ('f, 'c, 'z) tcp_client_scheme \<Rightarrow> ('f, 'c, 'z) tcp_client_scheme" where
  "release G p s =
     (case p of
        None \<Rightarrow> s
      | Some n \<Rightarrow>
          if owned G n s then s
          else case cli_conns s n of
              None \<Rightarrow> s
            | Some cn \<Rightarrow> TcpConnection_dtor cn (s\<lparr>cli_conns := (cli_conns s)(n := None)\<rparr>))"

subsection \<open>Construction and the calls of the owner\<close>

definition TcpClient_ctor ::
  "'f client_loop \<Rightarrow> sockaddr_in \<Rightarrow> string \<Rightarrow> ('f, 'c) tcp_client" where
  "TcpClient_ctor s serverAddr nameArg =
     client_loop.extend s
       \<lparr>cli_connector = Connector_ctor serverAddr, cli_name = nameArg, cli_retry = False, cli_connect = True,
        cli_nextConnId = 1, cli_writeComplete = None, cli_connection = None, cli_conns = (\<lambda>_. None),
        cli_closecb = (\<lambda>_. NoCallback)\<rparr>"

text \<open>The callbacks of connections, set before any connection is made.\<close>

definition cli_setConnectionCallback :: "('st \<Rightarrow> 'st res) option \<Rightarrow> 'st conn_callbacks \<Rightarrow> 'st conn_callbacks" where
  [simp]: "cli_setConnectionCallback cb c = c\<lparr>connectionCallback := cb\<rparr>"

definition cli_setMessageCallback ::
  "(timestamp \<Rightarrow> 'st \<Rightarrow> 'st res) option \<Rightarrow> 'st conn_callbacks \<Rightarrow> 'st conn_callbacks" where
  [simp]: "cli_setMessageCallback cb c = c\<lparr>messageCallback := cb\<rparr>"

definition cli_setWriteCompleteCallback ::
  "'f option \<Rightarrow> ('f, 'c, 'z) tcp_client_scheme \<Rightarrow> ('f, 'c, 'z) tcp_client_scheme" where
  [simp]: "cli_setWriteCompleteCallback cb s = s\<lparr>cli_writeComplete := cb\<rparr>"

text \<open>The connection and whether it is to be retried, as the owner may ask.\<close>

definition TcpClient_connection :: "('f, 'c, 'z) tcp_client_scheme \<Rightarrow> ('f, 'c) tcp_connection option" where
  "TcpClient_connection s = (case cli_connection s of None \<Rightarrow> None | Some n \<Rightarrow> cli_conns s n)"

definition enableRetry :: "('f, 'c, 'z) tcp_client_scheme \<Rightarrow> ('f, 'c, 'z) tcp_client_scheme" where
  "enableRetry s = s\<lparr>cli_retry := True\<rparr>"

definition TcpClient_connect ::
  "kernel \<Rightarrow> net \<Rightarrow> con_env \<Rightarrow> 'f con_functors \<Rightarrow> ('f, 'c, 'z) tcp_client_scheme \<Rightarrow>
   ('f, 'c, 'z) tcp_client_scheme res" where
  "TcpClient_connect K N E F s = on_con (start K N E F) (s\<lparr>cli_connect := True\<rparr>)"

definition TcpClient_disconnect ::
  "int \<Rightarrow> 'f cli_functors \<Rightarrow> ('f, 'c, 'z) tcp_client_scheme \<Rightarrow> ('f, 'c, 'z) tcp_client_scheme res" where
  "TcpClient_disconnect tid G s =
     (let s1 = s\<lparr>cli_connect := False\<rparr>
      in case cli_connection s1 of
           None \<Rightarrow> Inr s1
         | Some n \<Rightarrow> with_cli n s1 (\<lambda>cn.
             rbind (shutdown tid (shutdown_f G n) (cn, s1)) (\<lambda>(cn', s'). Inr (put_cli n cn' s'))))"

definition TcpClient_stop ::
  "con_env \<Rightarrow> 'f con_functors \<Rightarrow> ('f, 'c, 'z) tcp_client_scheme \<Rightarrow> ('f, 'c, 'z) tcp_client_scheme" where
  "TcpClient_stop E F s =
     (case stop E F (cli_connector s, s\<lparr>cli_connect := False\<rparr>) of (con, s') \<Rightarrow> s'\<lparr>cli_connector := con\<rparr>)"

subsection \<open>The connection\<close>

definition cli_label :: "string \<Rightarrow> string \<Rightarrow> nat \<Rightarrow> string" where
  "cli_label name ip i = name @ take 31 ('':'' @ ip @ ''#'' @ dec i)"

text \<open>\<open>n\<close> is the new object, \<open>c\<close> its channel's address. Incrementing the largest \<^verbatim>\<open>int\<close> is undefined.\<close>

definition cli_newConnection ::
  "kernel \<Rightarrow> net \<Rightarrow> 'f cli_functors \<Rightarrow> ('f, 'c, 'z) cli_callbacks \<Rightarrow> nat \<Rightarrow> nat \<Rightarrow> 'c \<Rightarrow> int \<Rightarrow>
   ('f, 'c, 'z) tcp_client_scheme \<Rightarrow> ('f, 'c, 'z) tcp_client_scheme res" where
  "cli_newConnection K N G CB n c ctx sockfd s =
     (let peer = getPeerAddr N sockfd s
      in rbind (toIpPort peer) (\<lambda>ip.
           if cli_nextConnId s \<ge> 2 ^ 31 - 1 then Inl OutOfRange
           else let s1 = s\<lparr>cli_nextConnId := cli_nextConnId s + 1\<rparr>
                in rbind (TcpConnection_ctor (Some s1) (cli_label (cli_name s) ip (cli_nextConnId s)) sockfd
                            (getLocalAddr N sockfd s1) peer c (handlers_f G n 0) (handlers_f G n 1)
                            (handlers_f G n 2) (handlers_f G n 3) ctx) (\<lambda>(cn, s2).
                     let cn1 = setWriteCompleteCallback (cli_writeComplete s2) cn;
                         s3 = s2\<lparr>cli_conns := (cli_conns s2)(n \<mapsto> cn1),
                                 cli_closecb := (cli_closecb s2)(n := RemoveBound n),
                                 cli_connection := Some n\<rparr>
                     in rbind (connectEstablished K (CB n) (cn1, release G (cli_connection s2) s3)) (\<lambda>(cn2, s4).
                          Inr (put_cli n cn2 s4)))))"

definition cli_removeConnection ::
  "kernel \<Rightarrow> net \<Rightarrow> con_env \<Rightarrow> 'f con_functors \<Rightarrow> 'f cli_functors \<Rightarrow> nat \<Rightarrow>
   ('f, 'c, 'z) tcp_client_scheme \<Rightarrow> ('f, 'c, 'z) tcp_client_scheme res" where
  "cli_removeConnection K N E F G n s =
     (let s1 = queueInLoop (env_tid E) (destroyed_f G n) (s\<lparr>cli_connection := None\<rparr>)
      in if cli_retry s1 \<and> cli_connect s1 then on_con (restart K N E F) s1 else Inr s1)"

definition detail_removeConnection ::
  "int \<Rightarrow> 'f cli_functors \<Rightarrow> nat \<Rightarrow> ('f, 'c, 'z) tcp_client_scheme \<Rightarrow> ('f, 'c, 'z) tcp_client_scheme" where
  "detail_removeConnection tid G n s = queueInLoop tid (destroyed_f G n) s"

definition cli_closeCallback ::
  "kernel \<Rightarrow> net \<Rightarrow> con_env \<Rightarrow> 'f con_functors \<Rightarrow> 'f cli_functors \<Rightarrow> nat \<Rightarrow>
   ('f, 'c, 'z) tcp_client_scheme \<Rightarrow> ('f, 'c, 'z) tcp_client_scheme res" where
  "cli_closeCallback K N E F G n s =
     (case cli_closecb s n of
        NoCallback \<Rightarrow> Inl BadFunctionCall
      | RemoveBound m \<Rightarrow> cli_removeConnection K N E F G m s
      | DetailRemove \<Rightarrow> Inr (detail_removeConnection (env_tid E) G n s))"

definition cli_handleClose ::
  "kernel \<Rightarrow> net \<Rightarrow> con_env \<Rightarrow> 'f con_functors \<Rightarrow> 'f cli_functors \<Rightarrow> ('f, 'c, 'z) cli_callbacks \<Rightarrow> nat \<Rightarrow>
   ('f, 'c, 'z) tcp_client_scheme \<Rightarrow> ('f, 'c, 'z) tcp_client_scheme res" where
  "cli_handleClose K N E F G CB n s =
     with_cli n s (\<lambda>cn.
       rbind (handleClose K ((CB n)\<lparr>closeCallback := Some (\<lambda>(cn, s).
                rbind (cli_closeCallback K N E F G n s) (\<lambda>s'. Inr (cn, s')))\<rparr>) (cn, s)) (\<lambda>(cn', s').
         Inr (put_cli n cn' s')))"

text \<open>The queued \<open>connectDestroyed\<close>, after which the functor and its reference are gone.\<close>

definition cli_run_destroyed ::
  "kernel \<Rightarrow> 'f cli_functors \<Rightarrow> ('f, 'c, 'z) cli_callbacks \<Rightarrow> nat \<Rightarrow>
   ('f, 'c, 'z) tcp_client_scheme \<Rightarrow> ('f, 'c, 'z) tcp_client_scheme res" where
  "cli_run_destroyed K G CB n s =
     with_cli n s (\<lambda>cn.
       rbind (connectDestroyed K (CB n) (cn, s)) (\<lambda>(cn', s'). Inr (release G (Some n) (put_cli n cn' s'))))"

text \<open>The connector reports a connected socket: its callback is \<open>newConnection\<close>.\<close>

definition cli_handleWrite ::
  "kernel \<Rightarrow> net \<Rightarrow> con_env \<Rightarrow> 'f con_functors \<Rightarrow> 'f cli_functors \<Rightarrow> ('f, 'c, 'z) cli_callbacks \<Rightarrow> nat \<Rightarrow> nat \<Rightarrow> 'c \<Rightarrow>
   ('f, 'c, 'z) tcp_client_scheme \<Rightarrow> ('f, 'c, 'z) tcp_client_scheme res" where
  "cli_handleWrite K N E F G CB n c ctx s =
     on_con (con_handleWrite K N E F (Some (\<lambda>sockfd (con, s1).
       rbind (cli_newConnection K N G CB n c ctx sockfd (s1\<lparr>cli_connector := con\<rparr>)) (\<lambda>s2.
         Inr (cli_connector s2, s2))))) s"

definition TcpClient_dtor ::
  "con_env \<Rightarrow> 'f con_functors \<Rightarrow> 'f cli_functors \<Rightarrow> ('f, 'c, 'z) tcp_client_scheme \<Rightarrow>
   ('f, 'c, 'z) tcp_client_scheme res" where
  "TcpClient_dtor E F G s =
     (case cli_connection s of
        Some n \<Rightarrow>
          let s1 = (if isInLoopThread (env_tid E) s then s\<lparr>cli_closecb := (cli_closecb s)(n := DetailRemove)\<rparr>
                    else queueInLoop (env_tid E) (setClose_f G n) s)
          in Inr (release G (Some n) (s1\<lparr>cli_connection := None\<rparr>))
      | None \<Rightarrow>
          (case stop E F (cli_connector s, s) of (con, s1) \<Rightarrow>
             rbind (runAfter (env_tid E) (env_now E) (addTimerInLoop_f F) (env_timer E) 1 (removeConnector_f G)
                      (s1\<lparr>cli_connector := con\<rparr>)) (\<lambda>(_, s2). Inr s2)))"

subsection \<open>What the connector and the connection keep of the client\<close>

text \<open>The client's own members are what extends the event loop; the parts below do not see them.\<close>

lemma loop_more_client:
  assumes "event_loop.more (s' :: ('f, 'c, 'z) tcp_client_scheme) = event_loop.more s"
  shows "cli_closecb s' = cli_closecb s" "cli_conns s' = cli_conns s" "cli_connection s' = cli_connection s"
    "cli_retry s' = cli_retry s" "cli_connect s' = cli_connect s" "cli_connector s' = cli_connector s"
  using assms by (cases s; cases s'; simp)+

lemma drop_channel_more [simp]: "event_loop.more (drop_channel p s) = event_loop.more s"
  by (simp add: drop_channel_def split: option.split)

lemma resetTimerfd_more [simp]: "event_loop.more (resetTimerfd fd w now s) = event_loop.more s"
  by (simp add: resetTimerfd_def split: prod.split)

lemma set_queue_more [simp]: "event_loop.more (set_queue q s) = event_loop.more s"
  by (simp add: set_queue_def)

lemma runAfter_more [more_keeps]:
  "runAfter tid now bnd t delay cb s = Inr (i, s') \<Longrightarrow> event_loop.more s' = event_loop.more s"
  by (auto simp: runAfter_def runAt_def addTimer_def addTimerInLoop_def with_queue_def Let_def rbind_eq_Inr
      split: option.splits if_splits prod.splits)

lemma connecting_more [more_keeps]:
  "connecting K E F fd (cn, s) = Inr (cn', s') \<Longrightarrow> event_loop.more s' = event_loop.more s"
  by (auto simp: connecting_def enableWriting_def Let_def rbind_eq_Inr dest: more_keeps)

lemma retry_more [more_keeps]: "retry E F fd (cn, s) = Inr (cn', s') \<Longrightarrow> event_loop.more s' = event_loop.more s"
  by (auto simp: retry_def sockets_close_def Let_def rbind_eq_Inr split: if_splits dest: more_keeps)

lemma startInLoop_more [more_keeps]:
  "startInLoop K N E F (cn, s) = Inr (cn', s') \<Longrightarrow> event_loop.more s' = event_loop.more s"
  by (auto simp: startInLoop_def connect_def createNonblockingOrDie_def sockets_connect_def sockets_close_def Let_def
      split: if_splits dest: more_keeps)

lemma start_more [more_keeps]: "start K N E F (cn, s) = Inr (cn', s') \<Longrightarrow> event_loop.more s' = event_loop.more s"
  by (auto simp: start_def Let_def split: if_splits dest: more_keeps)

lemma restart_more [more_keeps]: "restart K N E F (cn, s) = Inr (cn', s') \<Longrightarrow> event_loop.more s' = event_loop.more s"
  by (auto simp: restart_def dest: more_keeps)

lemma removeAndResetChannel_more [more_keeps]:
  "removeAndResetChannel K E F (cn, s) = Inr (fd, cn', s') \<Longrightarrow> event_loop.more s' = event_loop.more s"
  by (auto simp: removeAndResetChannel_def disableAll_def with_channel_def rbind_eq_Inr split: option.splits
      dest!: more_keeps)

lemma stopInLoop_more [more_keeps]:
  "stopInLoop K E F (cn, s) = Inr (cn', s') \<Longrightarrow> event_loop.more s' = event_loop.more s"
  by (auto simp: stopInLoop_def rbind_eq_Inr split: if_splits dest!: more_keeps)

lemma con_handleError_more [more_keeps]:
  "con_handleError K N E F (cn, s) = Inr (cn', s') \<Longrightarrow> event_loop.more s' = event_loop.more s"
  by (auto simp: con_handleError_def getSocketError_def Let_def rbind_eq_Inr split: if_splits dest!: more_keeps)

subsection \<open>Connections that their close callback keeps alive\<close>

definition bound :: "nat \<Rightarrow> ('f, 'c, 'z) tcp_client_scheme \<Rightarrow> bool" where
  "bound m s \<longleftrightarrow> cli_closecb s m = RemoveBound m \<and> cli_conns s m \<noteq> None"

definition callbacks_keep :: "('f, 'c, 'z) cli_callbacks \<Rightarrow> bool" where
  "callbacks_keep CB \<longleftrightarrow>
     (\<forall>n f m cn s cn' s'. connectionCallback (CB n) = Some f \<longrightarrow> f (cn, s) = Inr (cn', s') \<longrightarrow> bound m s \<longrightarrow> bound m s')"

lemma bound_more:
  assumes "bound m s" "event_loop.more s' = event_loop.more s"
  shows "bound m s'"
  using assms(1) unfolding bound_def loop_more_client(1,2) [OF assms(2)] .

lemma bound_update [simp]:
  "bound m (s\<lparr>cli_connector := con\<rparr>) = bound m s" "bound m (s\<lparr>cli_connect := b\<rparr>) = bound m s"
  "bound m (s\<lparr>cli_connection := p\<rparr>) = bound m s" "bound m (s\<lparr>cli_nextConnId := k\<rparr>) = bound m s"
  by (simp_all add: bound_def)

lemma bound_put: "bound m s \<Longrightarrow> bound m (put_cli n cn s)"
  by (simp add: bound_def put_cli_def)

lemma bound_release: "bound m s \<Longrightarrow> bound m (release G p s)"
proof (cases p)
  case (Some n)
  assume b: "bound m s"
  show ?thesis
  proof (cases "owned G n s \<or> cli_conns s n = None")
    case False
    then obtain cn where n: "cli_conns s n = Some cn" "m \<noteq> n" using b by (auto simp: owned_def bound_def)
    let ?s = "s\<lparr>cli_conns := (cli_conns s)(n := None)\<rparr>"
    have "bound m ?s" using b n by (simp add: bound_def)
    then have "bound m (TcpConnection_dtor cn ?s)"
      by (rule bound_more) (simp add: TcpConnection_dtor_def)
    with False n Some show ?thesis by (simp add: release_def)
  qed (use b Some in \<open>auto simp: release_def\<close>)
qed (simp add: release_def)

lemma bound_on_con:
  assumes "on_con g s = Inr s'" "\<And>con s con' s'. g (con, s) = Inr (con', s') \<Longrightarrow> bound m s \<Longrightarrow> bound m s'" "bound m s"
  shows "bound m s'"
proof -
  obtain con s1 where "g (cli_connector s, s) = Inr (con, s1)" "s' = s1\<lparr>cli_connector := con\<rparr>"
    using assms(1) by (auto simp: on_con_def rbind_eq_Inr)
  with assms(2) [OF this(1) assms(3)] show ?thesis by simp
qed

text \<open>
  The interface to the connector: its calls, made on the client's connector and loop, leave the
  client's own members alone, so they keep alive what the close callbacks hold.
\<close>

locale connector_call =
  fixes op :: "connector \<times> ('f, 'c, 'z) tcp_client_scheme \<Rightarrow> (connector \<times> ('f, 'c, 'z) tcp_client_scheme) res"
  assumes keeps: "op (con, s) = Inr (con', s') \<Longrightarrow> event_loop.more s' = event_loop.more s"
begin

lemma on_con_bound: "on_con op s = Inr s' \<Longrightarrow> bound m s \<Longrightarrow> bound m s'"
  by (rule bound_on_con) (auto intro: bound_more keeps)

end

interpretation start_call: connector_call "start K N E F" for K N E F
  by unfold_locales (rule start_more)

interpretation restart_call: connector_call "restart K N E F" for K N E F
  by unfold_locales (rule restart_more)

interpretation startInLoop_call: connector_call "startInLoop K N E F" for K N E F
  by unfold_locales (rule startInLoop_more)

interpretation stopInLoop_call: connector_call "stopInLoop K E F" for K E F
  by unfold_locales (rule stopInLoop_more)

interpretation resetChannel_call: connector_call "\<lambda>st. Inr (resetChannel st)"
  by unfold_locales (auto simp: resetChannel_def)

interpretation handleError_call: connector_call "con_handleError K N E F" for K N E F
  by unfold_locales (rule con_handleError_more)

lemma bound_call:
  assumes "callbacks_keep CB" "call_cb (connectionCallback (CB n)) (cn, s) = Inr (cn', s')" "bound m s"
  shows "bound m s'"
proof -
  obtain f where "connectionCallback (CB n) = Some f" "f (cn, s) = Inr (cn', s')"
    using assms(2) by (auto simp: call_cb_def split: option.splits)
  with assms(1,3) show ?thesis unfolding callbacks_keep_def by blast
qed

lemma bound_established:
  assumes "callbacks_keep CB" "connectEstablished K (CB n) (cn, s) = Inr (cn', s')" "bound m s"
  shows "bound m s'"
proof -
  obtain ch s1 where s1: "enableReading K (conn_channel cn) (s\<lparr>heap := (heap s)(conn_channel cn \<mapsto> tie ch)\<rparr>) = Inr s1"
    "call_cb (connectionCallback (CB n)) (setState TcpConnection.kConnected cn, s1) = Inr (cn', s')"
    using assms(2) by (auto simp: connectEstablished_def with_channel_def Let_def rbind_eq_Inr split: option.splits)
  have "event_loop.more s1 = event_loop.more s"
    using Channel_set_keeps [OF s1(1) [unfolded enableReading_def]] by simp
  from bound_more [OF assms(3) this] have "bound m s1" .
  with s1(2) show ?thesis by (rule bound_call [OF assms(1)])
qed

lemma bound_destroyed:
  assumes "callbacks_keep CB" "connectDestroyed K (CB n) (cn, s) = Inr (cn', s')" "bound m s"
  shows "bound m s'"
proof -
  obtain cn2 :: "('a, 'b) tcp_connection" and s2 where s2: "bound m s2" "Channel_remove K (conn_channel cn2) s2 = Inr s'"
  proof (cases "conn_state cn = TcpConnection.kConnected")
    case False
    with assms(2,3) show thesis by (intro that [of s cn]) (auto simp: connectDestroyed_def rbind_eq_Inr)
  next
    case True
    then obtain s1 cn2 s2 where s1: "disableAll K (conn_channel cn) s = Inr s1"
      "call_cb (connectionCallback (CB n)) (setState TcpConnection.kDisconnected cn, s1) = Inr (cn2, s2)"
      "Channel_remove K (conn_channel cn2) s2 = Inr s'"
      using assms(2) by (auto simp: connectDestroyed_def rbind_eq_Inr)
    have "bound m s1" by (rule bound_more [OF assms(3) Channel_set_keeps [OF s1(1) [unfolded disableAll_def]]])
    from bound_call [OF assms(1) s1(2) this] s1(3) show thesis by (rule that)
  qed
  from bound_more [OF s2(1) Channel_remove_keeps [OF s2(2)]] show ?thesis .
qed

lemma bound_shutdown:
  assumes "shutdown tid f (cn, s) = Inr (cn', s')" "bound m s"
  shows "bound m s'"
proof -
  have "event_loop.more s' = event_loop.more s"
    using assms(1) by (auto simp: shutdown_def shutdownInLoop_def with_channel_def Let_def split: if_splits option.splits)
  from bound_more [OF assms(2) this] show ?thesis .
qed

lemma bound_remove:
  assumes "cli_removeConnection K N E F G n s = Inr s'" "bound m s"
  shows "bound m s'"
proof -
  let ?s = "queueInLoop (env_tid E) (destroyed_f G n) (s\<lparr>cli_connection := None\<rparr>)"
  have b: "bound m ?s" by (rule bound_more [of m "s\<lparr>cli_connection := None\<rparr>"]) (use assms(2) in simp_all)
  show ?thesis
  proof (cases "cli_retry ?s \<and> cli_connect ?s")
    case True
    with assms(1) have "on_con (restart K N E F) ?s = Inr s'" by (simp add: cli_removeConnection_def)
    from this b show ?thesis by (rule restart_call.on_con_bound)
  next
    case False
    with assms(1) b show ?thesis by (auto simp: cli_removeConnection_def)
  qed
qed

lemma bound_close:
  assumes "callbacks_keep CB" "cli_handleClose K N E F G CB n s = Inr s'" "bound m s"
  shows "bound m s'"
proof -
  obtain cn s1 cn2 s2 s3 where s1: "disableAll K (conn_channel cn) s = Inr s1"
    "call_cb (connectionCallback (CB n)) (setState TcpConnection.kDisconnected cn, s1) = Inr (cn2, s2)"
    "cli_closeCallback K N E F G n s2 = Inr s3" "s' = put_cli n cn2 s3"
    using assms(2) by (auto simp: cli_handleClose_def with_cli_def handleClose_def call_cb_def Let_def rbind_eq_Inr
        split: option.splits)
  have "bound m s1" by (rule bound_more [OF assms(3) Channel_set_keeps [OF s1(1) [unfolded disableAll_def]]])
  from bound_call [OF assms(1) s1(2) this] have b2: "bound m s2" .
  have "bound m s3"
  proof (cases "cli_closecb s2 n")
    case (RemoveBound k)
    with s1(3) have "cli_removeConnection K N E F G k s2 = Inr s3" by (simp add: cli_closeCallback_def)
    from this b2 show ?thesis by (rule bound_remove)
  next
    case DetailRemove
    with s1(3) have "s3 = queueInLoop (env_tid E) (destroyed_f G n) s2"
      by (simp add: cli_closeCallback_def detail_removeConnection_def)
    then show ?thesis by (intro bound_more [OF b2]) simp
  qed (use s1(3) in \<open>simp add: cli_closeCallback_def\<close>)
  with s1(4) show ?thesis by (simp add: bound_put)
qed

lemma bound_new:
  assumes "callbacks_keep CB" "cli_newConnection K N G CB n c ctx fd s = Inr s'"
  shows "bound n s'" "bound m s \<Longrightarrow> bound m s'"
proof -
  obtain cn s2 where c: "TcpConnection_ctor (Some (s\<lparr>cli_nextConnId := cli_nextConnId s + 1\<rparr>))
      (cli_label (cli_name s) (toIp (getPeerAddr N fd s) @ '':'' @ dec (unat (toPort (getPeerAddr N fd s)))) (cli_nextConnId s))
      fd (getLocalAddr N fd (s\<lparr>cli_nextConnId := cli_nextConnId s + 1\<rparr>)) (getPeerAddr N fd s) c (handlers_f G n 0)
      (handlers_f G n 1) (handlers_f G n 2) (handlers_f G n 3) ctx = Inr (cn, s2)"
    by (simp add: TcpConnection_ctor_def Let_def)
  define cn1 where "cn1 = setWriteCompleteCallback (cli_writeComplete s2) cn"
  define s3 where "s3 = s2\<lparr>cli_conns := (cli_conns s2)(n \<mapsto> cn1), cli_closecb := (cli_closecb s2)(n := RemoveBound n),
      cli_connection := Some n\<rparr>"
  obtain cn2 s4 where s4: "connectEstablished K (CB n) (cn1, release G (cli_connection s2) s3) = Inr (cn2, s4)"
    "s' = put_cli n cn2 s4"
    using assms(2) c by (auto simp: cli_newConnection_def toIpPort_fits Let_def rbind_eq_Inr cn1_def s3_def split: if_splits)
  have e2: "event_loop.more s2 = event_loop.more (s\<lparr>cli_nextConnId := cli_nextConnId s + 1\<rparr>)"
    using c by (auto simp: TcpConnection_ctor_def Let_def)
  have m2: "bound m s2" if "bound m s" for m
    by (rule bound_more [OF _ e2]) (use that in simp)
  have m3: "bound m s3" if "m = n \<or> bound m s2" for m using that by (auto simp: bound_def s3_def)
  have m4: "bound m s'" if "bound m s3" for m
    using bound_established [OF assms(1) s4(1) bound_release [OF that]] s4(2) by (simp add: bound_put)
  show "bound n s'" "bound m s \<Longrightarrow> bound m s'" using m2 m3 m4 by blast+
qed

lemma bound_handleWrite:
  assumes "callbacks_keep CB" "cli_handleWrite K N E F G CB n c ctx s = Inr s'" "bound m s"
  shows "bound m s'"
  using assms(2) [unfolded cli_handleWrite_def] _ assms(3)
proof (rule bound_on_con)
  fix con con' and t t' :: "('a, 'b, 'c) tcp_client_scheme"
  let ?cb = "\<lambda>sockfd (con, s1). rbind (cli_newConnection K N G CB n c ctx sockfd (s1\<lparr>cli_connector := con\<rparr>)) (\<lambda>s2.
       Inr (cli_connector s2, s2))"
  assume h: "con_handleWrite K N E F (Some ?cb) (con, t) = Inr (con', t')" and b: "bound m t"
  show "bound m t'"
  proof (cases "con_state con = kConnecting")
    case False
    with h b show ?thesis by (simp add: con_handleWrite_def)
  next
    case True
    then obtain fd con1 t1 where r: "removeAndResetChannel K E F (con, t) = Inr (fd, con1, t1)"
      using h by (auto simp: con_handleWrite_def rbind_eq_Inr)
    let ?t2 = "log_sys (SockGetError fd) t1"
    have b2: "bound m ?t2" by (rule bound_more [OF b]) (use removeAndResetChannel_more [OF r] in simp)
    have "con_handleWrite K N E F (Some ?cb) (con, t) =
       (if n_sockerr N (trace t1) fd \<noteq> 0 then retry E F fd (con1, ?t2)
        else if isSelfConnect N fd ?t2 then retry E F fd (con1, ?t2)
        else if con_connect con1 then ?cb fd (con1\<lparr>con_state := kConnected\<rparr>, ?t2)
        else Inr (con1\<lparr>con_state := kConnected\<rparr>, sockets_close fd ?t2))"
      using True r by (simp add: con_handleWrite_def getSocketError_def Let_def)
    note h2 = h [unfolded this]
    consider "retry E F fd (con1, ?t2) = Inr (con', t')"
      | "cli_newConnection K N G CB n c ctx fd (?t2\<lparr>cli_connector := con1\<lparr>con_state := kConnected\<rparr>\<rparr>) = Inr t'"
      | "t' = sockets_close fd ?t2"
    proof (cases "n_sockerr N (trace t1) fd \<noteq> 0 \<or> isSelfConnect N fd ?t2")
      case True
      with h2 that(1) show thesis by (auto split: if_splits)
    next
      case False
      with h2 that(2,3) show thesis by (cases "con_connect con1") (simp_all add: rbind_eq_Inr)
    qed
    then show ?thesis
    proof cases
      case 1
      from bound_more [OF b2 retry_more [OF 1]] show ?thesis .
    next
      case 2
      from bound_new(2) [OF assms(1) 2, of m] b2 show ?thesis by simp
    next
      case 3
      then show ?thesis by (intro bound_more [OF b2]) (simp add: sockets_close_def)
    qed
  qed
qed

text \<open>
  Runs of a client that is not destroyed: the calls of its owner, the connector's queued calls and
  events, the ends of connections and their queued destruction, and whatever else the
  application does that keeps its hands off the client's members.
\<close>

inductive cli_run ::
  "kernel \<Rightarrow> net \<Rightarrow> 'f con_functors \<Rightarrow> 'f cli_functors \<Rightarrow> ('f, 'c, 'z) cli_callbacks \<Rightarrow>
   ('f, 'c, 'z) tcp_client_scheme \<Rightarrow> ('f, 'c, 'z) tcp_client_scheme \<Rightarrow> bool" for K N F G CB s0 where
  init: "cli_run K N F G CB s0 s0"
| connects: "cli_run K N F G CB s0 s \<Longrightarrow> TcpClient_connect K N E F s = Inr s' \<Longrightarrow> cli_run K N F G CB s0 s'"
| disconnects: "cli_run K N F G CB s0 s \<Longrightarrow> TcpClient_disconnect tid G s = Inr s' \<Longrightarrow> cli_run K N F G CB s0 s'"
| stops: "cli_run K N F G CB s0 s \<Longrightarrow> cli_run K N F G CB s0 (TcpClient_stop E F s)"
| starts: "cli_run K N F G CB s0 s \<Longrightarrow> on_con (startInLoop K N E F) s = Inr s' \<Longrightarrow> cli_run K N F G CB s0 s'"
| stopping: "cli_run K N F G CB s0 s \<Longrightarrow> on_con (stopInLoop K E F) s = Inr s' \<Longrightarrow> cli_run K N F G CB s0 s'"
| resets: "cli_run K N F G CB s0 s \<Longrightarrow> on_con (\<lambda>st. Inr (resetChannel st)) s = Inr s' \<Longrightarrow> cli_run K N F G CB s0 s'"
| writable: "cli_run K N F G CB s0 s \<Longrightarrow> cli_conns s n = None \<Longrightarrow>
    cli_handleWrite K N E F G CB n c ctx s = Inr s' \<Longrightarrow> cli_run K N F G CB s0 s'"
| fails: "cli_run K N F G CB s0 s \<Longrightarrow> on_con (con_handleError K N E F) s = Inr s' \<Longrightarrow> cli_run K N F G CB s0 s'"
| closes: "cli_run K N F G CB s0 s \<Longrightarrow> cli_handleClose K N E F G CB n s = Inr s' \<Longrightarrow> cli_run K N F G CB s0 s'"
| destroys: "cli_run K N F G CB s0 s \<Longrightarrow>
    cli_run_destroyed K G CB n (s\<lparr>pendingFunctors := fs\<rparr>) = Inr s' \<Longrightarrow> cli_run K N F G CB s0 s'"
| other: "cli_run K N F G CB s0 s \<Longrightarrow> event_loop.more s' = event_loop.more s \<Longrightarrow> cli_run K N F G CB s0 s'"

lemma bound_disconnect:
  assumes "TcpClient_disconnect tid G s = Inr s'" "bound m s"
  shows "bound m s'"
proof (cases "cli_connection s")
  case None
  with assms show ?thesis by (auto simp: TcpClient_disconnect_def)
next
  case (Some n)
  then obtain cn cn' s1 where sh: "shutdown tid (shutdown_f G n) (cn, s\<lparr>cli_connect := False\<rparr>) = Inr (cn', s1)"
    and s': "s' = put_cli n cn' s1"
    using assms(1) by (auto simp: TcpClient_disconnect_def with_cli_def rbind_eq_Inr split: option.splits)
  have b: "bound m (s\<lparr>cli_connect := False\<rparr>)" using assms(2) by simp
  from bound_shutdown [OF sh b] show ?thesis by (simp add: s' bound_put)
qed

lemma bound_run_destroyed:
  assumes "callbacks_keep CB" "cli_run_destroyed K G CB n s = Inr s'" "bound m s"
  shows "bound m s'"
proof -
  obtain cn cn' s1 where "connectDestroyed K (CB n) (cn, s) = Inr (cn', s1)" "s' = release G (Some n) (put_cli n cn' s1)"
    using assms(2) by (auto simp: cli_run_destroyed_def with_cli_def rbind_eq_Inr split: option.splits)
  with assms(3) bound_destroyed [OF assms(1)] show ?thesis by (simp add: bound_release bound_put)
qed

lemma cli_run_bound:
  assumes "cli_run K N F G CB s0 s" "callbacks_keep CB" "bound m s0"
  shows "bound m s"
  using assms(1)
proof induction
  case init
  show ?case by (rule assms(3))
next
  case (connects s E s')
  have "bound m (s\<lparr>cli_connect := True\<rparr>)" using connects.IH by simp
  with connects.hyps(2) [unfolded TcpClient_connect_def] show ?case by (rule start_call.on_con_bound)
next
  case (disconnects s tid s')
  show ?case by (rule bound_disconnect [OF disconnects.hyps(2) disconnects.IH])
next
  case (stops s E)
  have "bound m (s\<lparr>cli_connect := False\<rparr>)" using stops.IH by simp
  from bound_more [OF this, of "queueInLoop (env_tid E) (stopInLoop_f F) (s\<lparr>cli_connect := False\<rparr>)"]
  show ?case by (simp add: TcpClient_stop_def stop_def)
next
  case (starts s E s')
  from starts.hyps(2) starts.IH show ?case by (rule startInLoop_call.on_con_bound)
next
  case (stopping s E s')
  from stopping.hyps(2) stopping.IH show ?case by (rule stopInLoop_call.on_con_bound)
next
  case (resets s s')
  from resets.hyps(2) resets.IH show ?case by (rule resetChannel_call.on_con_bound)
next
  case (writable s n E c ctx s')
  show ?case by (rule bound_handleWrite [OF assms(2) writable.hyps(3) writable.IH])
next
  case (fails s E s')
  from fails.hyps(2) fails.IH show ?case by (rule handleError_call.on_con_bound)
next
  case (closes s E n s')
  show ?case by (rule bound_close [OF assms(2) closes.hyps(2) closes.IH])
next
  case (destroys s n fs s')
  have "bound m (s\<lparr>pendingFunctors := fs\<rparr>)" by (rule bound_more [OF destroys.IH]) simp
  with bound_run_destroyed [OF assms(2)] destroys.hyps show ?case by blast
next
  case (other s s')
  from bound_more [OF other.IH other.hyps(2)] show ?case .
qed

text \<open>
  A new connection on a socket and at an address that are free: it is up and watched for
  reading when the connection callback is called.
\<close>

lemma newConnection_up:
  assumes K: "ctl_sound K" and inv: "poller_inv s" and free: "heap s c = None" "channels s fd = None"
    and cb: "connectionCallback (CB n) = Some cb"
    and s: "cli_connection s = None" "cli_nextConnId s < 2 ^ 31 - 1"
  obtains cn t where
    "cli_newConnection K N G CB n c ctx fd s = rbind (cb (cn, t)) (\<lambda>(cn2, s4). Inr (put_cli n cn2 s4))"
    "conn_state cn = TcpConnection.kConnected" "conn_fd cn = fd" "conn_channel cn = c" "conn_inv (cn, t)"
    "readable (outputBuffer cn) = []" "readable (inputBuffer cn) = []" "conn_context cn = ctx"
    "cli_connection t = Some n" "cli_closecb t n = RemoveBound n" "cli_retry t = cli_retry s"
    "threadId t = threadId s" "interest (trace t) fd = Some (kReadEvent, c)" "pendingFunctors t = pendingFunctors s"
    "tcp_client.more t = tcp_client.more s" "channels t fd = Some c"
    "trace t = trace s @ [SockKeepAlive fd, EpollCtl CTL_ADD fd kReadEvent c True]"
    "accepted_bytes t = accepted_bytes s" "consumed_bytes t = consumed_bytes s" "born t = born s"
proof -
  let ?ch = "(Channel_ctor fd)\<lparr>ch_readCallback := Some (handlers_f G n 0), ch_writeCallback := Some (handlers_f G n 1),
      ch_closeCallback := Some (handlers_f G n 2), ch_errorCallback := Some (handlers_f G n 3)\<rparr>"
  let ?peer = "getPeerAddr N fd s"
  let ?s1 = "s\<lparr>cli_nextConnId := cli_nextConnId s + 1\<rparr>"
  let ?s2 = "log_sys (SockKeepAlive fd) (new_channel c ?ch ?s1)"
  obtain cn where cn: "TcpConnection_ctor (Some ?s1)
      (cli_label (cli_name s) (toIp ?peer @ '':'' @ dec (unat (toPort ?peer))) (cli_nextConnId s))
      fd (getLocalAddr N fd ?s1) ?peer c (handlers_f G n 0) (handlers_f G n 1) (handlers_f G n 2) (handlers_f G n 3) ctx =
      Inr (cn, ?s2)" "conn_fd cn = fd" "conn_channel cn = c" "conn_context cn = ctx"
    "outputBuffer cn = Buffer_ctor kInitialSize" "inputBuffer cn = Buffer_ctor kInitialSize"
    by (simp add: TcpConnection_ctor_def Let_def)
  define cn1 where "cn1 = setWriteCompleteCallback (cli_writeComplete ?s2) cn"
  define s3 where "s3 = ?s2\<lparr>cli_conns := (cli_conns ?s2)(n \<mapsto> cn1), cli_closecb := (cli_closecb ?s2)(n := RemoveBound n),
      cli_connection := Some n\<rparr>"
  let ?s4 = "s3\<lparr>heap := (heap s3)(c \<mapsto> tie ?ch)\<rparr>"
  have h3: "heap s3 c = Some ?ch" by (simp add: s3_def log_sys_def new_channel_def)
  have ch: "ch_index (tie ?ch) = kNew" "ch_fd (tie ?ch) = fd" "ch_events (tie ?ch) = 0"
    by (simp_all add: Channel_ctor_def tie_def kNew_def)
  have "poller_inv (new_channel c (tie ?ch) s)" by (rule poller_inv_new [OF inv free(1) ch(1)])
  moreover have "poller_inv ?s4 = poller_inv (new_channel c (tie ?ch) s)"
    by (simp add: s3_def log_sys_def new_channel_def poller_inv_def channel_ok_def)
  ultimately have p4: "poller_inv ?s4" "channels ?s4 fd = None"
    using free(2) by (simp_all add: s3_def log_sys_def new_channel_def)
  let ?t = "?s4\<lparr>channels := (channels ?s4)(fd \<mapsto> c),
      heap := (heap ?s4)(c \<mapsto> (add_reading (tie ?ch))\<lparr>ch_index := kAdded\<rparr>),
      trace := trace ?s4 @ [EpollCtl CTL_ADD fd kReadEvent c True]\<rparr>"
  have op: "update_op (add_reading (tie ?ch)) = CTL_ADD" "ch_events (add_reading (tie ?ch)) = kReadEvent"
    using ch by (simp_all add: update_op_def add_reading_def)
  have er: "enableReading K c ?s4 = Inr ?t" "poller_inv ?t"
    using Channel_set_effect [OF K p4(1), of c "tie ?ch" add_reading]
      Channel_set_inv(1) [OF p4(1), of c "tie ?ch" add_reading] ch p4(2) op
    by (simp_all add: enableReading_def)
  have "cli_newConnection K N G CB n c ctx fd s = rbind (connectEstablished K (CB n) (cn1, s3)) (\<lambda>(cn2, s4). Inr (put_cli n cn2 s4))"
    using s cn(1) by (simp add: cli_newConnection_def toIpPort_fits Let_def cn1_def s3_def release_def log_sys_def new_channel_def)
  also have "connectEstablished K (CB n) (cn1, s3) = cb (setState TcpConnection.kConnected cn1, ?t)"
    using er(1) h3 cb cn(3) by (simp add: connectEstablished_def with_channel_def call_cb_def cn1_def setWriteCompleteCallback_def)
  finally have new: "cli_newConnection K N G CB n c ctx fd s =
      rbind (cb (setState TcpConnection.kConnected cn1, ?t)) (\<lambda>(cn2, s4). Inr (put_cli n cn2 s4))" .
  have i: "interest (trace ?t) fd = Some (kReadEvent, c)" by simp
  have "conn_inv (setState TcpConnection.kConnected cn1, ?t)"
    using er(2) cn ch
    by (simp add: conn_inv_def cn1_def setWriteCompleteCallback_def setState_def can_register_def add_reading_def isWriting_def
        Channel_ctor_def tie_def kReadEvent_eq kWriteEvent_def EPOLLIN_def EPOLLOUT_def)
  from that [OF new _ _ _ this _ _ _ _ _ _ _ i] cn show thesis
    by (simp add: cn1_def setWriteCompleteCallback_def setState_def s3_def log_sys_def new_channel_def)
qed

text \<open>The end of a connection that is not followed by another try.\<close>

lemma handleClose_up:
  assumes K: "ctl_sound K" and inv: "conn_inv (cn, s)" and n: "cli_conns s n = Some cn" "cli_closecb s n = RemoveBound n"
    and cb: "connectionCallback (CB n) = Some Inr" and r: "\<not> cli_retry s"
  shows "\<exists>s'. cli_handleClose K N E F G CB n s = Inr s'"
proof -
  obtain s1 where s1: "Channel_set del_all K (conn_channel cn) s = Inr s1"
    using Channel_set_returns [OF K, of s "conn_channel cn" del_all] inv by (auto simp: conn_inv_def)
  note k = loop_more_client [OF Channel_set_keeps [OF s1]]
  let ?q = "queueInLoop (env_tid E) (destroyed_f G n) (s1\<lparr>cli_connection := None\<rparr>)"
  have "cli_retry ?q = cli_retry (s1\<lparr>cli_connection := None\<rparr>)" by (rule loop_more_client(4)) simp
  then have "cli_removeConnection K N E F G n s1 = Inr ?q"
    using r k(4) by (simp add: cli_removeConnection_def)
  then show ?thesis
    using n cb s1 k(1) by (simp add: cli_handleClose_def with_cli_def handleClose_def disableAll_def call_cb_def cli_closeCallback_def)
qed

subsection \<open>A client that connects\<close>

definition demo_cli_functors :: "nat cli_functors" where
  "demo_cli_functors =
     \<lparr>destroyed_f = (\<lambda>n. 200 + n), setClose_f = (\<lambda>n. 300 + n), shutdown_f = (\<lambda>n. 400 + n), removeConnector_f = 500,
      handlers_f = (\<lambda>n k. 600 + k)\<rparr>"

definition demo_client :: "(nat, unit) tcp_client" where
  "demo_client = TcpClient_ctor demo_client_loop demo_addr ''cli''"

definition demo_cli_callbacks :: "(nat, unit, unit) cli_callbacks" where
  "demo_cli_callbacks n = \<lparr>connectionCallback = Some Inr, messageCallback = None, closeCallback = None\<rparr>"

lemma demo_client_facts:
  "poller_inv demo_client" "heap demo_client 1 = None" "channels demo_client 9 = None" "cli_connection demo_client = None"
  "cli_nextConnId demo_client = 1" "cli_retry demo_client = False" "timerQueue demo_client = None"
  "threadId demo_client = 100" "pendingFunctors demo_client = []" "callbacks_keep demo_cli_callbacks"
proof -
  show "poller_inv demo_client"
    using demo_client_loop_inv
    by (simp add: demo_client_def TcpClient_ctor_def client_loop.extend_def poller_inv_def channel_ok_def)
  show "callbacks_keep demo_cli_callbacks" by (auto simp: callbacks_keep_def demo_cli_callbacks_def)
qed (simp_all add: demo_client_def TcpClient_ctor_def client_loop.extend_def demo_client_loop_def event_loop.extend_def new_loop_def)

lemma demo_client_up:
  obtains s0 :: "(nat, unit) tcp_client" and cn where
    "cli_newConnection ideal_kernel demo_net demo_cli_functors demo_cli_callbacks 3 1 () 9 demo_client = Inr s0"
    "cli_conns s0 3 = Some cn" "conn_inv (cn, s0)" "cli_closecb s0 3 = RemoveBound 3" "cli_connection s0 = Some 3"
    "\<not> cli_retry s0" "conn_fd cn = 9" "conn_channel cn = 1" "channels s0 9 = Some 1" "threadId s0 = 100" "pendingFunctors s0 = []"
proof (rule newConnection_up [OF ideal_kernel_sound(1) demo_client_facts(1-3), of demo_cli_callbacks 3 Inr demo_net demo_cli_functors "()"])
  fix cn t
  assume a: "cli_newConnection ideal_kernel demo_net demo_cli_functors demo_cli_callbacks 3 1 () 9 demo_client =
      rbind (Inr (cn, t)) (\<lambda>(cn2, s4). Inr (put_cli 3 cn2 s4))" "conn_inv (cn, t)" "cli_closecb t 3 = RemoveBound 3"
    "cli_connection t = Some 3" "cli_retry t = cli_retry demo_client" "conn_fd cn = 9" "conn_channel cn = 1"
    "channels t 9 = Some 1" "threadId t = threadId demo_client" "pendingFunctors t = pendingFunctors demo_client"
  have "conn_inv (cn, put_cli 3 cn t)"
    using a(2) by (simp add: conn_inv_def put_cli_def poller_inv_def channel_ok_def can_register_def)
  with a show thesis
    by (intro that [of "put_cli 3 cn t" cn]) (simp_all add: put_cli_def demo_client_facts)
qed (simp_all add: demo_cli_callbacks_def demo_client_facts)



text \<open>
  C39: destroying a client that is connected, in the thread of its loop, with no other reference
  to the connection, breaks that cycle while the connection is up: the object and its channel
  are destroyed and the socket is closed, but the poller's map keeps the address of the dead
  channel. A client without a connection crashes in its destructor on every loop without a
  timer queue, as the loops of this library are.
\<close>

theorem client_dtor_leaves_channel:
  assumes "isInLoopThread (env_tid E) s"
    and "cli_connection s = Some n" "cli_conns s n = Some cn"
    and "destroyed_f G n \<notin> set (pendingFunctors s)" "setClose_f G n \<notin> set (pendingFunctors s)"
    and "channels s (conn_fd cn) = Some (conn_channel cn)"
    and "cli_connection t = None" "timerQueue t = None"
  shows "\<exists>s'. TcpClient_dtor E F G s = Inr s' \<and> cli_conns s' n = None \<and> heap s' (conn_channel cn) = None \<and>
      last (trace s') = SockClose (conn_fd cn) \<and> channels s' (conn_fd cn) = Some (conn_channel cn) \<and>
      \<not> poller_inv s' \<and> TcpClient_dtor E F G t = Inl NullDeref"
proof -
  let ?s = "s\<lparr>cli_closecb := (cli_closecb s)(n := DetailRemove), cli_connection := None\<rparr>"
  let ?s' = "TcpConnection_dtor cn (?s\<lparr>cli_conns := (cli_conns s)(n := None)\<rparr>)"
  have "TcpClient_dtor E F G s = Inr ?s'"
    using assms(1-5) by (simp add: TcpClient_dtor_def release_def owned_def Let_def)
  moreover have "channels ?s' (conn_fd cn) = Some (conn_channel cn)" "heap ?s' (conn_channel cn) = None"
    "last (trace ?s') = SockClose (conn_fd cn)" "cli_conns ?s' n = None"
    using assms(6) by (simp_all add: TcpConnection_dtor_def log_sys_def delete_channel_def)
  moreover from this(1,2) have "\<not> poller_inv ?s'" unfolding poller_inv_def channel_ok_def by fastforce
  moreover have "TcpClient_dtor E F G t = Inl NullDeref"
    using assms(7,8) by (simp add: TcpClient_dtor_def stop_def runAfter_def runAt_def addTimer_def queueInLoop_def queue_notify_def
        queue_push_def wakeup_def with_queue_def)
  ultimately show ?thesis by blast
qed

theorem client_dtor_leaves_channel_witness:
  "\<exists>s0 s'. cli_newConnection ideal_kernel demo_net demo_cli_functors demo_cli_callbacks 3 1 () 9 demo_client = Inr s0 \<and>
     TcpClient_dtor (demo_env 1) demo_functors demo_cli_functors s0 = Inr s' \<and>
     channels s' 9 = Some 1 \<and> heap s' 1 = None \<and>
     TcpClient_dtor (demo_env 1) demo_functors demo_cli_functors demo_client = Inl NullDeref"
proof (rule demo_client_up)
  fix s0 :: "(nat, unit) tcp_client" and cn
  assume s0: "cli_newConnection ideal_kernel demo_net demo_cli_functors demo_cli_callbacks 3 1 () 9 demo_client = Inr s0"
    "cli_conns s0 3 = Some cn" "cli_connection s0 = Some 3" "conn_fd cn = 9" "conn_channel cn = 1" "channels s0 9 = Some 1"
    "threadId s0 = 100" "pendingFunctors s0 = []"
  have h: "isInLoopThread (env_tid (demo_env 1)) s0" "destroyed_f demo_cli_functors 3 \<notin> set (pendingFunctors s0)"
    "setClose_f demo_cli_functors 3 \<notin> set (pendingFunctors s0)" "channels s0 (conn_fd cn) = Some (conn_channel cn)"
    using s0(4-8) by (simp_all add: isInLoopThread_def demo_env_def)
  from client_dtor_leaves_channel [OF h(1) s0(3,2) h(2-4) demo_client_facts(4,7), of demo_functors] s0(1,4,5)
  show ?thesis by auto
qed

end
