(* ===== verification/Loop.thy ===== *)
theory Loop
  imports Prelude
begin

text \<open>
  The shape of the two HTTP parsing loops, \<^verbatim>\<open>while (hasMore) { ... }\<close>: an iteration either
  sets \<^verbatim>\<open>hasMore = false\<close> and leaves a verdict (\<open>Done\<close>), or goes round again (\<open>More\<close>).
  The loop may run for ever, so its value is an option and not returning is \<^const>\<open>None\<close>.

  The locale \<open>progress_loop\<close> is the contract under which this is decided: every
  iteration that changes the state decreases a measure. Then the loop fails to return
  exactly when it reaches a state that an iteration leaves unchanged.
\<close>

datatype 's ctl = More 's | Done bool 's

partial_function (option) run_loop :: "('s \<Rightarrow> 's ctl res) \<Rightarrow> 's \<Rightarrow> (bool \<times> 's) res option" where
  "run_loop step s =
     (case step s of
        Inl e \<Rightarrow> Some (Inl e)
      | Inr c \<Rightarrow> (case c of Done ok s' \<Rightarrow> Some (Inr (ok, s')) | More s' \<Rightarrow> run_loop step s'))"

lemma run_loop_Done [simp]: "step s = Inr (Done ok s') \<Longrightarrow> run_loop step s = Some (Inr (ok, s'))"
  by (subst run_loop.simps) simp

lemma run_loop_fault [simp]: "step s = Inl e \<Longrightarrow> run_loop step s = Some (Inl e)"
  by (subst run_loop.simps) simp

lemma run_loop_More: "step s = Inr (More s') \<Longrightarrow> run_loop step s = run_loop step s'"
  by (subst run_loop.simps) simp

text \<open>An iteration that changes nothing is repeated for ever.\<close>

lemma run_loop_stuck:
  assumes "step s = Inr (More s)"
  shows "run_loop step s = None"
proof (rule ccontr)
  assume "run_loop step s \<noteq> None"
  then obtain r where r: "run_loop step s = Some r" by auto
  have "step s \<noteq> Inr (More s)"
  proof (rule run_loop.raw_induct [where P = "\<lambda>step s r. step s \<noteq> Inr (More s)", OF _ r])
    fix f :: "('a \<Rightarrow> 'a ctl res) \<Rightarrow> 'a \<Rightarrow> (bool \<times> 'a) res option" and step s r
    assume IH: "\<And>step s r. f step s = Some r \<Longrightarrow> step s \<noteq> Inr (More s)"
      and eq: "(case step s of Inl e \<Rightarrow> Some (Inl e)
        | Inr (More s') \<Rightarrow> f step s' | Inr (Done ok s') \<Rightarrow> Some (Inr (ok, s'))) = Some r"
    show "step s \<noteq> Inr (More s)"
    proof
      assume m: "step s = Inr (More s)"
      with eq have "f step s = Some r" by simp
      then show False using IH m by blast
    qed
  qed
  with assms show False by contradiction
qed

text \<open>What every iteration keeps holds of the result.\<close>

definition step_keeps :: "('s \<Rightarrow> bool) \<Rightarrow> ('s \<Rightarrow> 's ctl res) \<Rightarrow> bool" where
  "step_keeps P step \<longleftrightarrow>
     (\<forall>s s'. P s \<longrightarrow> step s = Inr (More s') \<longrightarrow> P s') \<and> (\<forall>s s' ok. P s \<longrightarrow> step s = Inr (Done ok s') \<longrightarrow> P s')"

lemma run_loop_keeps:
  assumes "run_loop step s = Some (Inr (ok, s'))" "P s" "step_keeps P step"
  shows "P s'"
proof -
  have "\<forall>ok s'. Inr (ok, s') = r \<longrightarrow> P s \<longrightarrow> step_keeps P step \<longrightarrow> P s'" if "run_loop step s = Some r" for step s r
  proof (rule run_loop.raw_induct [OF _ that])
    fix f :: "('a \<Rightarrow> 'a ctl res) \<Rightarrow> 'a \<Rightarrow> (bool \<times> 'a) res option" and step s r
    assume IH: "\<And>step s r. f step s = Some r \<Longrightarrow> \<forall>ok s'. Inr (ok, s') = r \<longrightarrow> P s \<longrightarrow> step_keeps P step \<longrightarrow> P s'"
      and eq: "(case step s of Inl e \<Rightarrow> Some (Inl e)
        | Inr (More s') \<Rightarrow> f step s' | Inr (Done ok s') \<Rightarrow> Some (Inr (ok, s'))) = Some r"
    show "\<forall>ok s'. Inr (ok, s') = r \<longrightarrow> P s \<longrightarrow> step_keeps P step \<longrightarrow> P s'"
    proof (intro allI impI)
      fix ok s'
      assume r: "Inr (ok, s') = r" and P: "P s" and k: "step_keeps P step"
      consider (last) "step s = Inr (Done ok s')" | (more) s1 where "step s = Inr (More s1)" "f step s1 = Some r"
        using eq r by (auto split: sum.splits ctl.splits)
      then show "P s'"
      proof cases
        case last
        with P k show ?thesis unfolding step_keeps_def by blast
      next
        case more
        have "P s1" using P k more(1) unfolding step_keeps_def by blast
        with IH [OF more(2)] r k show ?thesis by blast
      qed
    qed
  qed
  with assms show ?thesis by blast
qed

inductive iterates :: "('s \<Rightarrow> 's ctl res) \<Rightarrow> 's \<Rightarrow> 's \<Rightarrow> bool" for step where
  here: "iterates step s s"
| more: "step s = Inr (More s') \<Longrightarrow> iterates step s' s'' \<Longrightarrow> iterates step s s''"

lemma run_loop_iterates: "iterates step s s' \<Longrightarrow> run_loop step s = run_loop step s'"
  by (induction rule: iterates.induct) (simp_all add: run_loop_More)

lemma iterates_trans: "iterates step s s' \<Longrightarrow> iterates step s' s'' \<Longrightarrow> iterates step s s''"
  by (induction rule: iterates.induct) (auto intro: iterates.more)

locale progress_loop =
  fixes step :: "'s \<Rightarrow> 's ctl res"
    and inv :: "'s \<Rightarrow> bool"
    and mu :: "'s \<Rightarrow> nat"
  assumes inv_step: "inv s \<Longrightarrow> step s = Inr (More s') \<Longrightarrow> inv s'"
    and progress: "inv s \<Longrightarrow> step s = Inr (More s') \<Longrightarrow> s' \<noteq> s \<Longrightarrow> mu s' < mu s"
begin

lemma returns_or_stuck:
  assumes "inv s"
  shows "run_loop step s \<noteq> None \<or> (\<exists>s'. iterates step s s' \<and> step s' = Inr (More s'))"
  using assms
proof (induction "mu s" arbitrary: s rule: less_induct)
  case less
  show ?case
  proof (cases "\<exists>s'. step s = Inr (More s') \<and> s' \<noteq> s")
    case True
    then obtain s' where s': "step s = Inr (More s')" "s' \<noteq> s" by blast
    with less show ?thesis
      by (metis inv_step progress iterates.more run_loop_More)
  next
    case False
    then consider e where "step s = Inl e" | ok s' where "step s = Inr (Done ok s')"
      | "step s = Inr (More s)"
      by (metis ctl.exhaust sum.exhaust)
    then show ?thesis by cases (auto intro: iterates.here)
  qed
qed

lemma diverges_iff:
  "inv s \<Longrightarrow> run_loop step s = None \<longleftrightarrow> (\<exists>s'. iterates step s s' \<and> step s' = Inr (More s'))"
  using returns_or_stuck run_loop_iterates run_loop_stuck by metis

lemma inv_iterates: "iterates step s s' \<Longrightarrow> inv s \<Longrightarrow> inv s'"
  by (induction rule: iterates.induct) (simp_all add: inv_step)

end

end
