(* ===== verification/StdMap.thy ===== *)
theory StdMap
  imports Prelude "HOL-Library.Char_ord" "HOL-Library.List_Lexorder"
begin

text \<open>
  \<^verbatim>\<open>std::map\<close> as the sources use it for HTTP headers (\<^verbatim>\<open>operator[]\<close> assignment,
  \<^verbatim>\<open>find\<close>, iteration in key order): an association list kept strictly sorted by key.
  Keys are strings, ordered lexicographically by unsigned byte value, which is the
  order of \<^verbatim>\<open>std::string\<close>. The locale \<open>header_table\<close> is the interface that the request
  and the response class both offer.
\<close>

fun smap_put :: "'k::linorder \<Rightarrow> 'v \<Rightarrow> ('k \<times> 'v) list \<Rightarrow> ('k \<times> 'v) list" where
  "smap_put k v [] = [(k, v)]"
| "smap_put k v ((k', v') # m) =
     (if k < k' then (k, v) # (k', v') # m
      else if k = k' then (k, v) # m
      else (k', v') # smap_put k v m)"

definition smap_ok :: "('k::linorder \<times> 'v) list \<Rightarrow> bool" where
  "smap_ok m \<longleftrightarrow> sorted_wrt (<) (map fst m)"

lemma smap_ok_Nil [simp]: "smap_ok []"
  by (simp add: smap_ok_def)

lemma smap_ok_Cons: "smap_ok (kv # m) \<longleftrightarrow> (\<forall>kv' \<in> set m. fst kv < fst kv') \<and> smap_ok m"
  by (auto simp: smap_ok_def)

lemma keys_smap_put: "fst ` set (smap_put k v m) = insert k (fst ` set m)"
  by (induction k v m rule: smap_put.induct) auto

lemma smap_ok_put [simp]: "smap_ok m \<Longrightarrow> smap_ok (smap_put k v m)"
proof (induction k v m rule: smap_put.induct)
  case (2 k v k' v' m)
  have "\<And>kv. kv \<in> set (smap_put k v m) \<Longrightarrow> fst kv = k \<or> (\<exists>kv' \<in> set m. fst kv = fst kv')"
    using keys_smap_put [of k v m] by (metis (no_types, lifting) image_iff insert_iff)
  with 2 show ?case by (fastforce simp: smap_ok_Cons)
qed (simp add: smap_ok_Cons)

lemma map_of_smap_put [simp]: "map_of (smap_put k v m) = (map_of m)(k \<mapsto> v)"
  by (induction k v m rule: smap_put.induct) auto

lemma smap_put_last:
  "(\<And>k'. k' \<in> fst ` set m \<Longrightarrow> k' < k) \<Longrightarrow> smap_put k v m = m @ [(k, v)]"
proof (induction k v m rule: smap_put.induct)
  case (2 k v k' v' m)
  then show ?case by fastforce
qed simp

text \<open>Inserting the entries of a sorted table one by one rebuilds the table.\<close>

lemma smap_put_all:
  "smap_ok (m @ kvs) \<Longrightarrow> foldl (\<lambda>m kv. smap_put (fst kv) (snd kv) m) m kvs = m @ kvs"
proof (induction kvs arbitrary: m)
  case (Cons kv kvs)
  have "smap_put (fst kv) (snd kv) m = m @ [kv]"
    using Cons.prems by (subst smap_put_last) (auto simp: smap_ok_def sorted_wrt_append)
  with Cons.IH [of "m @ [kv]"] Cons.prems show ?case by simp
qed simp

locale header_table =
  fixes headers :: "'m \<Rightarrow> (string \<times> string) list"
    and add :: "string \<Rightarrow> string \<Rightarrow> 'm \<Rightarrow> 'm"
  assumes headers_add: "headers (add f v m) = smap_put f v (headers m)"
begin

lemma headers_ok_add: "smap_ok (headers m) \<Longrightarrow> smap_ok (headers (add f v m))"
  by (simp add: headers_add)

lemma lookup_add: "map_of (headers (add f v m)) g = (if g = f then Some v else map_of (headers m) g)"
  by (simp add: headers_add)

lemma headers_add_all:
  "headers (foldl (\<lambda>m kv. add (fst kv) (snd kv) m) m kvs)
     = foldl (\<lambda>t kv. smap_put (fst kv) (snd kv) t) (headers m) kvs"
  by (induction kvs arbitrary: m) (simp_all add: headers_add)

lemma headers_rebuild:
  "headers m = [] \<Longrightarrow> smap_ok kvs \<Longrightarrow>
   headers (foldl (\<lambda>m kv. add (fst kv) (snd kv) m) m kvs) = kvs"
  using smap_put_all [of "[]" kvs] by (simp add: headers_add_all)

end

end
