(* ===== verification/HttpRequest.thy ===== *)
theory HttpRequest
  imports StdMap
begin

text \<open>
  The HTTP request (\<^verbatim>\<open>src/http/HttpRequest.h\<close>). A \<^verbatim>\<open>Timestamp\<close> is its microsecond count,
  an \<^typ>\<open>int\<close>. The pointer pairs of the setters are the strings they delimit.
\<close>

datatype http_method = kInvalid | kGet | kPost | kHead | kPut | kDelete

datatype http_version = kUnknownVersion | kHttp10 | kHttp11

record http_request =
  req_method :: http_method
  req_version :: http_version
  req_path :: string
  req_query :: string
  req_body :: string
  req_receiveTime :: int
  req_headers :: "(string \<times> string) list"

definition HttpRequest_ctor :: http_request where
  "HttpRequest_ctor =
     \<lparr>req_method = kInvalid, req_version = kUnknownVersion, req_path = [], req_query = [],
      req_body = [], req_receiveTime = 0, req_headers = []\<rparr>"

definition setVersion :: "http_version \<Rightarrow> http_request \<Rightarrow> http_request" where
  "setVersion v r = r\<lparr>req_version := v\<rparr>"

text \<open>The method names accepted on a request line; anything else is \<open>kInvalid\<close>.\<close>

definition parse_method :: "string \<Rightarrow> http_method" where
  "parse_method m =
     (if m = ''GET'' then kGet
      else if m = ''POST'' then kPost
      else if m = ''HEAD'' then kHead
      else if m = ''PUT'' then kPut
      else if m = ''DELETE'' then kDelete
      else kInvalid)"

text \<open>\<^verbatim>\<open>setMethod(start, end)\<close> asserts that no method was set before.\<close>

definition setMethod :: "string \<Rightarrow> http_request \<Rightarrow> (bool \<times> http_request) res" where
  "setMethod m r =
     rbind (assert_res (req_method r = kInvalid)) (\<lambda>_.
       let r' = r\<lparr>req_method := parse_method m\<rparr>
       in Inr (req_method r' \<noteq> kInvalid, r'))"

definition setMethod_enum :: "http_method \<Rightarrow> http_request \<Rightarrow> http_request" where
  "setMethod_enum m r = r\<lparr>req_method := m\<rparr>"

definition methodString :: "http_request \<Rightarrow> string" where
  "methodString r =
     (case req_method r of
        kGet \<Rightarrow> ''GET'' | kPost \<Rightarrow> ''POST'' | kHead \<Rightarrow> ''HEAD'' | kPut \<Rightarrow> ''PUT''
      | kDelete \<Rightarrow> ''DELETE'' | kInvalid \<Rightarrow> ''UNKNOWN'')"

definition setPath :: "string \<Rightarrow> http_request \<Rightarrow> http_request" where
  "setPath p r = r\<lparr>req_path := p\<rparr>"

definition setQuery :: "string \<Rightarrow> http_request \<Rightarrow> http_request" where
  "setQuery q r = r\<lparr>req_query := q\<rparr>"

definition setBody :: "string \<Rightarrow> http_request \<Rightarrow> http_request" where
  "setBody b r = r\<lparr>req_body := b\<rparr>"

definition setReceiveTime :: "int \<Rightarrow> http_request \<Rightarrow> http_request" where
  "setReceiveTime t r = r\<lparr>req_receiveTime := t\<rparr>"

definition addHeader :: "string \<Rightarrow> string \<Rightarrow> http_request \<Rightarrow> http_request" where
  "addHeader field value r = r\<lparr>req_headers := smap_put field value (req_headers r)\<rparr>"

text \<open>The two trimming loops of \<^verbatim>\<open>addHeader(start, colon, end)\<close>.\<close>

fun skip_space :: "string \<Rightarrow> string" where
  "skip_space [] = []"
| "skip_space (c # s) = (if isspace c then skip_space s else c # s)"

function drop_trailing :: "string \<Rightarrow> string" where
  "drop_trailing value =
     (if value \<noteq> [] \<and> isspace (value ! (length value - 1))
      then drop_trailing (take (length value - 1) value) else value)"
  by pat_completeness auto
termination
  by (relation "measure length") auto

declare drop_trailing.simps [simp del]

text \<open>\<open>line\<close> is the range \<open>[start, end)\<close> and \<open>colon\<close> the offset of the colon in it.\<close>

definition addHeader_line :: "string \<Rightarrow> nat \<Rightarrow> http_request \<Rightarrow> http_request" where
  "addHeader_line line colon r =
     (let field = take colon line;
          value = drop_trailing (skip_space (drop (colon + 1) line))
      in r\<lparr>req_headers := smap_put field value (req_headers r)\<rparr>)"

definition getHeader :: "string \<Rightarrow> http_request \<Rightarrow> string" where
  "getHeader field r = (case map_of (req_headers r) field of Some v \<Rightarrow> v | None \<Rightarrow> [])"

text \<open>
  \<^verbatim>\<open>swap\<close> exchanges method, version, path, query, receive time and headers; it does not
  mention \<^verbatim>\<open>body_\<close>.
\<close>

definition swap_req :: "http_request \<Rightarrow> http_request \<Rightarrow> http_request \<times> http_request" where
  "swap_req a b =
     (a\<lparr>req_method := req_method b, req_version := req_version b, req_path := req_path b,
        req_query := req_query b, req_receiveTime := req_receiveTime b,
        req_headers := req_headers b\<rparr>,
      b\<lparr>req_method := req_method a, req_version := req_version a, req_path := req_path a,
        req_query := req_query a, req_receiveTime := req_receiveTime a,
        req_headers := req_headers a\<rparr>)"

subsection \<open>Library facts\<close>

interpretation req_table: header_table req_headers addHeader
  by unfold_locales (simp add: addHeader_def)

lemma skip_space_dropWhile: "skip_space s = dropWhile isspace s"
  by (induction s) auto

lemma drop_trailing_id: "v = [] \<or> \<not> isspace (last v) \<Longrightarrow> drop_trailing v = v"
  by (subst drop_trailing.simps) (auto simp: last_conv_nth)

lemma drop_trailing_last: "drop_trailing v = [] \<or> \<not> isspace (last (drop_trailing v))"
proof (induction v rule: drop_trailing.induct)
  case (1 v)
  then show ?case
    by (cases "v \<noteq> [] \<and> isspace (v ! (length v - 1))")
       (auto simp: drop_trailing.simps [of v] last_conv_nth)
qed

lemma drop_trailing_prefix: "\<exists>w. v = drop_trailing v @ w \<and> (\<forall>c \<in> set w. isspace c)"
proof (induction v rule: drop_trailing.induct)
  case (1 v)
  show ?case
  proof (cases "v \<noteq> [] \<and> isspace (v ! (length v - 1))")
    case True
    with 1 obtain w where w: "take (length v - 1) v = drop_trailing (take (length v - 1) v) @ w"
      "\<forall>c \<in> set w. isspace c" by blast
    moreover have "v = take (length v - 1) v @ [v ! (length v - 1)]"
      using True by (metis append_butlast_last_id butlast_conv_take last_conv_nth)
    ultimately have "v = drop_trailing (take (length v - 1) v) @ (w @ [v ! (length v - 1)])"
      by (metis append.assoc)
    with w(2) True show ?thesis
      by (subst drop_trailing.simps) (auto intro!: exI [of _ "w @ [v ! (length v - 1)]"])
  next
    case False
    then show ?thesis by (subst drop_trailing.simps) auto
  qed
qed

lemma parse_method_methodString:
  "req_method r \<noteq> kInvalid \<Longrightarrow> parse_method (methodString r) = req_method r"
  by (cases "req_method r") (auto simp: parse_method_def methodString_def)

lemma methodString_no_space [simp]: "CHR '' '' \<notin> set (methodString r)"
  and methodString_no_cr [simp]: "CHR 0x0D \<notin> set (methodString r)"
  and methodString_no_nul [simp]: "CHR 0x00 \<notin> set (methodString r)"
  by (cases "req_method r"; simp add: methodString_def)+

text \<open>A header value that carries no surrounding white space survives the trimming.\<close>

definition trimmed :: "string \<Rightarrow> bool" where
  "trimmed v \<longleftrightarrow> v = [] \<or> (\<not> isspace (hd v) \<and> \<not> isspace (last v))"

lemma trim_trimmed: "trimmed v \<Longrightarrow> drop_trailing (skip_space (CHR '' '' # v)) = v"
  by (cases v) (auto simp: trimmed_def isspace_def drop_trailing_id)

lemma trim_is_trimmed: "trimmed (drop_trailing (skip_space s))"
proof -
  obtain w where w: "skip_space s = drop_trailing (skip_space s) @ w"
    using drop_trailing_prefix by blast
  have "skip_space s = [] \<or> \<not> isspace (hd (skip_space s))"
    unfolding skip_space_dropWhile using hd_dropWhile by blast
  with w show ?thesis
    using drop_trailing_last [of "skip_space s"] unfolding trimmed_def
    by (metis append_is_Nil_conv hd_append2)
qed

text \<open>
  A header line \<open>field:value\<close> stores the value without the white space around it,
  the stored value is never padded, and every other header keeps its value.
\<close>

theorem addHeader_line_correct:
  assumes "CHR '':'' \<notin> set field"
  shows "let line = field @ CHR '':'' # value;
             r' = addHeader_line line (find_char (CHR '':'') line) r
         in trimmed (getHeader field r') \<and>
            (\<exists>pre post. value = pre @ getHeader field r' @ post \<and>
               (\<forall>c \<in> set (pre @ post). isspace c)) \<and>
            (\<forall>g. g \<noteq> field \<longrightarrow> getHeader g r' = getHeader g r)"
proof -
  let ?line = "field @ CHR '':'' # value"
  let ?r' = "addHeader_line ?line (find_char (CHR '':'') ?line) r"
  have pos: "find_char (CHR '':'') ?line = length field"
    using assms by (simp add: find_simps)
  have got: "getHeader field ?r' = drop_trailing (skip_space value)"
    by (simp add: pos getHeader_def addHeader_line_def Let_def)
  obtain post where post: "skip_space value = drop_trailing (skip_space value) @ post"
    "\<forall>c \<in> set post. isspace c"
    using drop_trailing_prefix by blast
  have "value = takeWhile isspace value @ skip_space value"
    by (simp add: skip_space_dropWhile)
  then have "value = takeWhile isspace value @ getHeader field ?r' @ post"
    using post got by metis
  moreover have "\<forall>c \<in> set (takeWhile isspace value @ post). isspace c"
    using post(2) by (auto dest: set_takeWhileD)
  moreover have "\<forall>g. g \<noteq> field \<longrightarrow> getHeader g ?r' = getHeader g r"
    by (simp add: pos getHeader_def addHeader_line_def Let_def)
  ultimately show ?thesis
    unfolding Let_def using got trim_is_trimmed by metis
qed

theorem addHeader_line_correct_witness:
  "getHeader ''Host'' (addHeader_line ''Host:  a.b '' 4 HttpRequest_ctor) = ''a.b''"
proof -
  let ?r = "addHeader_line ''Host:  a.b '' 4 HttpRequest_ctor"
  have "trimmed (getHeader ''Host'' ?r) \<and>
      (\<exists>pre post. ''  a.b '' = pre @ getHeader ''Host'' ?r @ post \<and> (\<forall>c \<in> set (pre @ post). isspace c))"
    using addHeader_line_correct [of "''Host''" "''  a.b ''" HttpRequest_ctor]
    by (simp add: Let_def eval_nat_numeral)
  then show ?thesis
    by (simp add: getHeader_def addHeader_line_def isspace_def drop_trailing.simps)
qed

end
