(* ===== verification/HttpResponse.thy ===== *)
theory HttpResponse
  imports StdMap Buffer
begin

text \<open>
  The HTTP response (\<^verbatim>\<open>src/http/HttpResponse.h\<close>, \<^verbatim>\<open>HttpResponse.cc\<close>) and its printer
  \<open>appendToBuffer\<close>, the sequence of buffer appends of the source. \<^verbatim>\<open>snprintf\<close> into a
  32-byte array keeps at most 31 characters.
\<close>

datatype http_status = kUnknown | k200Ok | k301MovedPermanently | k400BadRequest | k404NotFound

fun status_num :: "http_status \<Rightarrow> nat" where
  "status_num kUnknown = 0"
| "status_num k200Ok = 200"
| "status_num k301MovedPermanently = 301"
| "status_num k400BadRequest = 400"
| "status_num k404NotFound = 404"

record http_response =
  resp_headers :: "(string \<times> string) list"
  resp_statusCode :: http_status
  resp_statusMessage :: string
  resp_closeConnection :: bool
  resp_body :: string

definition HttpResponse_ctor :: "bool \<Rightarrow> http_response" where
  "HttpResponse_ctor close =
     \<lparr>resp_headers = [], resp_statusCode = kUnknown, resp_statusMessage = [],
      resp_closeConnection = close, resp_body = []\<rparr>"

definition HttpResponse_default :: http_response where
  "HttpResponse_default =
     \<lparr>resp_headers = [], resp_statusCode = kUnknown, resp_statusMessage = [],
      resp_closeConnection = False, resp_body = []\<rparr>"

definition setStatusCode_enum :: "http_status \<Rightarrow> http_response \<Rightarrow> http_response" where
  "setStatusCode_enum c r = r\<lparr>resp_statusCode := c\<rparr>"

definition setStatusCode :: "int \<Rightarrow> http_response \<Rightarrow> http_response" where
  "setStatusCode code r =
     r\<lparr>resp_statusCode :=
        (if code = 200 then k200Ok
         else if code = 301 then k301MovedPermanently
         else if code = 400 then k400BadRequest
         else if code = 404 then k404NotFound
         else kUnknown)\<rparr>"

definition setStatusMessage :: "string \<Rightarrow> http_response \<Rightarrow> http_response" where
  "setStatusMessage m r = r\<lparr>resp_statusMessage := m\<rparr>"

definition setCloseConnection :: "bool \<Rightarrow> http_response \<Rightarrow> http_response" where
  "setCloseConnection on r = r\<lparr>resp_closeConnection := on\<rparr>"

definition addHeader_resp :: "string \<Rightarrow> string \<Rightarrow> http_response \<Rightarrow> http_response" where
  "addHeader_resp k v r = r\<lparr>resp_headers := smap_put k v (resp_headers r)\<rparr>"

definition setContentType :: "string \<Rightarrow> http_response \<Rightarrow> http_response" where
  "setContentType t r = addHeader_resp ''Content-Type'' t r"

definition setBody_resp :: "string \<Rightarrow> http_response \<Rightarrow> http_response" where
  "setBody_resp b r = r\<lparr>resp_body := b\<rparr>"

definition snprintf32 :: "string \<Rightarrow> string" where
  "snprintf32 s = take 31 s"

definition append_header :: "buffer \<Rightarrow> string \<times> string \<Rightarrow> buffer" where
  "append_header b kv =
     append_cstr (append_buf (append_cstr (append_buf b (fst kv)) '': '') (snd kv)) kCRLF"

definition appendToBuffer :: "http_response \<Rightarrow> buffer \<Rightarrow> buffer" where
  "appendToBuffer r output =
     (let b1 = append_cstr output
                 (snprintf32 (''HTTP/1.1 '' @ dec (status_num (resp_statusCode r)) @ '' ''));
          b2 = append_buf b1 (resp_statusMessage r);
          b3 = append_cstr b2 kCRLF;
          b4 = (if resp_closeConnection r then append_cstr b3 (''Connection: close'' @ kCRLF)
                else
                  let b = append_cstr b3
                            (snprintf32 (''Content-Length: '' @ dec (length (resp_body r)) @ kCRLF))
                  in append_cstr b (''Connection: Keep-Alive'' @ kCRLF));
          b5 = foldl append_header b4 (resp_headers r);
          b6 = append_cstr b5 kCRLF
      in append_buf b6 (resp_body r))"

subsection \<open>The bytes printed\<close>

interpretation resp_table: header_table resp_headers addHeader_resp
  by unfold_locales (simp add: addHeader_resp_def)

text \<open>The wire format as a string: status line, headers, empty line, body.\<close>

definition header_line :: "string \<times> string \<Rightarrow> bytes" where
  "header_line kv = fst kv @ '': '' @ snd kv @ kCRLF"

definition status_line :: "http_response \<Rightarrow> bytes" where
  "status_line r =
     ''HTTP/1.1 '' @ dec (status_num (resp_statusCode r)) @ '' '' @ resp_statusMessage r @ kCRLF"

definition framing_headers :: "http_response \<Rightarrow> (string \<times> string) list" where
  "framing_headers r =
     (if resp_closeConnection r then [(''Connection'', ''close'')]
      else [(''Content-Length'', dec (length (resp_body r))), (''Connection'', ''Keep-Alive'')])"

definition response_bytes :: "http_response \<Rightarrow> bytes" where
  "response_bytes r =
     status_line r @ concat (map header_line (framing_headers r @ resp_headers r))
       @ kCRLF @ resp_body r"

lemma kCRLF_no_nul [simp]: "CHR 0x00 \<notin> set kCRLF"
  by (simp add: kCRLF_def)

lemma dec_no_nul [simp]: "CHR 0x00 \<notin> set (dec n)"
  using dec_digits [of "CHR 0x00" n] by (auto simp: isdigit_def)

lemma append_header_correct [simp]:
  "buffer_inv b \<Longrightarrow> buffer_inv (append_header b kv)"
  "buffer_inv b \<Longrightarrow> readable (append_header b kv) = readable b @ header_line kv"
  by (simp_all add: append_header_def header_line_def)

lemma append_headers_correct:
  "buffer_inv b \<Longrightarrow> buffer_inv (foldl append_header b kvs)"
  "buffer_inv b \<Longrightarrow>
     readable (foldl append_header b kvs) = readable b @ concat (map header_line kvs)"
  by (induction kvs arbitrary: b) simp_all

lemma length_dec_status: "length (dec (status_num s)) \<le> 3"
  by (cases s) (simp_all add: dec.simps)

lemma snprintf_status:
  "snprintf32 (''HTTP/1.1 '' @ dec (status_num s) @ '' '') = ''HTTP/1.1 '' @ dec (status_num s) @ '' ''"
  using length_dec_status [of s] by (simp add: snprintf32_def)

lemma snprintf_length:
  assumes "n < 10 ^ 13"
  shows "snprintf32 (''Content-Length: '' @ dec n @ kCRLF) = ''Content-Length: '' @ dec n @ kCRLF"
  using length_dec_le [OF assms] by (simp add: snprintf32_def kCRLF_def)

lemma appendToBuffer_bytes:
  assumes "buffer_inv b" "length (resp_body r) < 10 ^ 13"
  shows "buffer_inv (appendToBuffer r b)" "readable (appendToBuffer r b) = readable b @ response_bytes r"
  using assms(1) unfolding appendToBuffer_def Let_def snprintf_status snprintf_length [OF assms(2)]
  by (simp_all add: append_headers_correct response_bytes_def status_line_def framing_headers_def header_line_def)

text \<open>
  C15: \<open>appendToBuffer\<close> appends to the output buffer exactly the status line, the framing
  headers chosen by \<open>closeConnection\<close>, the user's headers in key order, an empty line
  and the body. (From \<open>10 ^ 13\<close> bytes of body on, the 32-byte array cuts the
  Content-Length line.)
\<close>

theorem appendToBuffer_correct:
  assumes "buffer_inv b" "length (resp_body r) < 10 ^ 13"
  shows "buffer_inv (appendToBuffer r b) \<and>
    readable (appendToBuffer r b) = readable b @ response_bytes r"
  using appendToBuffer_bytes [OF assms] by simp

theorem appendToBuffer_correct_witness:
  "readable (appendToBuffer (setBody_resp ''hi'' (setStatusCode 200 (HttpResponse_ctor True)))
      (Buffer_ctor 16))
   = ''HTTP/1.1 200 '' @ kCRLF @ ''Connection: close'' @ kCRLF @ kCRLF @ ''hi''"
  using appendToBuffer_correct
    [of "Buffer_ctor 16" "setBody_resp ''hi'' (setStatusCode 200 (HttpResponse_ctor True))"]
  by (simp add: response_bytes_def status_line_def framing_headers_def header_line_def
      setBody_resp_def setStatusCode_def HttpResponse_ctor_def dec.simps)

end
