(* ===== verification/HttpContext.thy ===== *)
theory HttpContext
  imports Loop Buffer HttpRequest HttpResponse
begin

text \<open>
  The incremental HTTP parser (\<^verbatim>\<open>src/http/HttpContext.h\<close>, \<^verbatim>\<open>HttpContext.cc\<close>). One pass of
  the \<^verbatim>\<open>while (hasMore)\<close> loop of \<open>parseRequest\<close> and \<open>parseResponse\<close> is a step function on
  the context and the buffer; the loop is \<open>run_loop\<close> over it, whose value is \<^const>\<open>None\<close>
  when the loop never ends.
\<close>

datatype parse_state = kExpectRequestLine | kExpectHeaders | kExpectBody | kGotAll

record http_context =
  ctx_state :: parse_state
  ctx_request :: http_request
  ctx_response :: http_response

definition HttpContext_ctor :: http_context where
  "HttpContext_ctor =
     \<lparr>ctx_state = kExpectRequestLine, ctx_request = HttpRequest_ctor,
      ctx_response = HttpResponse_default\<rparr>"

definition gotAll :: "http_context \<Rightarrow> bool" where
  "gotAll c \<longleftrightarrow> ctx_state c = kGotAll"

definition reset_ctx :: "http_context \<Rightarrow> http_context" where
  "reset_ctx c =
     (let c1 = c\<lparr>ctx_state := kExpectRequestLine\<rparr>; dummy = HttpRequest_ctor
      in c1\<lparr>ctx_request := fst (swap_req (ctx_request c1) dummy)\<rparr>)"

text \<open>\<open>line\<close> is the pointer range \<open>[begin, end)\<close> of the request line.\<close>

definition processRequestLine :: "string \<Rightarrow> http_request \<Rightarrow> (bool \<times> http_request) res" where
  "processRequestLine line r =
     (let space = find_char (CHR '' '') line
      in if space \<noteq> length line then
           rbind (setMethod (take space line) r) (\<lambda>(methodOk, r1).
             if methodOk then
               let rest = drop (space + 1) line;
                   space2 = find_char (CHR '' '') rest
               in if space2 \<noteq> length rest then
                    let target = take space2 rest;
                        question = find_char (CHR ''?'') target;
                        r2 = (if question \<noteq> length target
                              then setQuery (drop question target) (setPath (take question target) r1)
                              else setPath target r1);
                        ver = drop (space2 + 1) rest
                    in if length ver = 8 \<and> take 7 ver = ''HTTP/1.'' then
                         if ver ! 7 = CHR ''1'' then Inr (True, setVersion kHttp11 r2)
                         else if ver ! 7 = CHR ''0'' then Inr (True, setVersion kHttp10 r2)
                         else Inr (False, r2)
                       else Inr (False, r2)
                  else Inr (False, r1)
             else Inr (False, r1))
         else Inr (False, r))"

text \<open>
  One iteration of \<open>parseRequest\<close>. In state \<open>kExpectBody\<close> with a Content-Length larger
  than the readable bytes, and in state \<open>kGotAll\<close>, no branch changes anything.
\<close>

definition parseRequest_step ::
  "int \<Rightarrow> http_context \<times> buffer \<Rightarrow> (http_context \<times> buffer) ctl res" where
  "parseRequest_step receiveTime = (\<lambda>(c, b).
     case ctx_state c of
       kExpectRequestLine \<Rightarrow>
         (case findCRLF b of
            Some crlf \<Rightarrow>
              rbind (processRequestLine (mem b (peek b) crlf) (ctx_request c)) (\<lambda>(ok, r).
                if ok then
                  Inr (More (c\<lparr>ctx_request := setReceiveTime receiveTime r,
                               ctx_state := kExpectHeaders\<rparr>,
                             retrieveUntil b (crlf + 2)))
                else Inr (Done False (c\<lparr>ctx_request := r\<rparr>, b)))
          | None \<Rightarrow> Inr (Done True (c, b)))
     | kExpectHeaders \<Rightarrow>
         (case findCRLF b of
            Some crlf \<Rightarrow>
              let line = mem b (peek b) crlf;
                  colon = find_char (CHR '':'') line;
                  b' = retrieveUntil b (crlf + 2)
              in if colon \<noteq> length line then
                   Inr (More (c\<lparr>ctx_request := addHeader_line line colon (ctx_request c)\<rparr>, b'))
                 else if req_method (ctx_request c) = kPost \<and> readableBytes b > 0 then
                   Inr (More (c\<lparr>ctx_state := kExpectBody\<rparr>, b'))
                 else Inr (Done True (c\<lparr>ctx_state := kGotAll\<rparr>, b'))
          | None \<Rightarrow> Inr (Done True (c, b)))
     | kExpectBody \<Rightarrow>
         (let contentLength = getHeader ''Content-Length'' (ctx_request c)
          in if contentLength \<noteq> [] then
               let n = int_to_size (atoi contentLength)
               in if n \<le> readableBytes b then
                    Inr (Done True (c\<lparr>ctx_request := setBody (mem b (peek b) (peek b + n)) (ctx_request c),
                                      ctx_state := kGotAll\<rparr>,
                                    retrieve b n))
                  else Inr (More (c, b))
             else
               rbind (retrieveAllAsString b) (\<lambda>(body, b').
                 Inr (Done True (c\<lparr>ctx_request := setBody body (ctx_request c),
                                   ctx_state := kGotAll\<rparr>, b'))))
     | kGotAll \<Rightarrow> Inr (More (c, b)))"

definition parseRequest ::
  "int \<Rightarrow> http_context \<Rightarrow> buffer \<Rightarrow> (bool \<times> http_context \<times> buffer) res option" where
  "parseRequest receiveTime c b = run_loop (parseRequest_step receiveTime) (c, b)"

text \<open>
  One iteration of \<open>parseResponse\<close>. The reason phrase is extracted and dropped, and the
  header value keeps the blank after the colon.
\<close>

definition parseResponse_step :: "http_context \<times> buffer \<Rightarrow> (http_context \<times> buffer) ctl res" where
  "parseResponse_step = (\<lambda>(c, b).
     case ctx_state c of
       kExpectRequestLine \<Rightarrow>
         (case findCRLF b of
            Some crlf \<Rightarrow>
              let line = mem b (peek b) crlf;
                  space1 = find_char (CHR '' '') line
              in if space1 \<noteq> length line then
                   if space1 = 8 \<and> take 5 line = ''HTTP/'' \<and>
                      line ! 5 = CHR ''1'' \<and> line ! 6 = CHR ''.'' \<and>
                      (line ! 7 = CHR ''0'' \<or> line ! 7 = CHR ''1'')
                   then
                     let rest = drop (space1 + 1) line;
                         space2 = find_char (CHR '' '') rest
                     in if space2 \<noteq> length rest then
                          Inr (More (c\<lparr>ctx_response :=
                                         setStatusCode (atoi (take space2 rest)) (ctx_response c),
                                       ctx_state := kExpectHeaders\<rparr>,
                                     retrieveUntil b (crlf + 2)))
                        else Inr (Done False (c, b))
                   else Inr (Done False (c, b))
                 else Inr (Done False (c, b))
          | None \<Rightarrow> Inr (Done True (c, b)))
     | kExpectHeaders \<Rightarrow>
         (case findCRLF b of
            Some crlf \<Rightarrow>
              let line = mem b (peek b) crlf;
                  colon = find_char (CHR '':'') line;
                  b' = retrieveUntil b (crlf + 2)
              in if colon \<noteq> length line then
                   Inr (More (c\<lparr>ctx_response :=
                                  addHeader_resp (take colon line) (drop (colon + 1) line)
                                    (ctx_response c)\<rparr>, b'))
                 else if readableBytes b > 0 then Inr (More (c\<lparr>ctx_state := kExpectBody\<rparr>, b'))
                 else Inr (Done True (c\<lparr>ctx_state := kGotAll\<rparr>, b'))
          | None \<Rightarrow> Inr (Done True (c, b)))
     | kExpectBody \<Rightarrow>
         rbind (retrieveAllAsString b) (\<lambda>(body, b').
           Inr (Done True (c\<lparr>ctx_response := setBody_resp body (ctx_response c),
                             ctx_state := kGotAll\<rparr>, b')))
     | kGotAll \<Rightarrow> Inr (More (c, b)))"

definition parseResponse ::
  "int \<Rightarrow> http_context \<Rightarrow> buffer \<Rightarrow> (bool \<times> http_context \<times> buffer) res option" where
  "parseResponse receiveTime c b = run_loop parseResponse_step (c, b)"

lemma ctx_update_order [simp]:
  "c\<lparr>ctx_request := r, ctx_state := s\<rparr> = c\<lparr>ctx_state := s, ctx_request := r\<rparr>"
  by (cases c) simp

subsection \<open>Reading one line\<close>

lemma findCRLF_SomeE:
  assumes "findCRLF b = Some crlf" "buffer_inv b"
  obtains line rest where "readable b = line @ kCRLF @ rest"
    and "crlf = peek b + length line" and "mem b (peek b) crlf = line"
    and "readable (retrieveUntil b (crlf + 2)) = rest"
    and "buffer_inv (retrieveUntil b (crlf + 2))"
proof -
  let ?i = "search_sub kCRLF (readable b)"
  have i: "?i < length (readable b)" "crlf = peek b + ?i"
    using assms findCRLF_eq [OF assms(2)] by (auto split: if_splits)
  have split: "readable b = take ?i (readable b) @ kCRLF @ drop (?i + 2) (readable b)"
    using search_sub_decomp [OF i(1)] by (simp add: kCRLF_def)
  have rd: "retrieveUntil b (crlf + 2) = retrieve b (?i + 2)"
    using retrieveUntil_forward [of b "?i + 2"] by (simp add: i(2) add.assoc)
  have "?i \<le> writeIndex b - readerIndex b"
    using i(1) assms(2) by (simp add: readableBytes_def)
  then have "mem b (peek b) crlf = take ?i (readable b)"
    by (simp add: i(2) readable_def mem_def peek_def min_def)
  moreover have "crlf = peek b + length (take ?i (readable b))" using i by simp
  moreover have "readable (retrieveUntil b (crlf + 2)) = drop (?i + 2) (readable b)"
    and "buffer_inv (retrieveUntil b (crlf + 2))"
    unfolding rd using assms(2) by simp_all
  ultimately show ?thesis using that [OF split] by metis
qed

lemma next_line:
  assumes "buffer_inv b" "readable b = line @ kCRLF @ rest" "CHR 0x0D \<notin> set line"
  shows "findCRLF b = Some (peek b + length line)"
    and "mem b (peek b) (peek b + length line) = line"
    and "readable (retrieveUntil b (peek b + length line + 2)) = rest"
    and "buffer_inv (retrieveUntil b (peek b + length line + 2))"
    and "0 < readableBytes b"
proof -
  have i: "search_sub kCRLF (readable b) = length line"
    using assms(2,3) by (simp add: kCRLF_def find_simps starts_with_def)
  then show f: "findCRLF b = Some (peek b + length line)"
    using findCRLF_eq [OF assms(1)] assms(2) by (simp add: kCRLF_def)
  obtain line' rest' where *: "readable b = line' @ kCRLF @ rest'"
    "peek b + length line = peek b + length line'"
    "mem b (peek b) (peek b + length line) = line'"
    "readable (retrieveUntil b (peek b + length line + 2)) = rest'"
    "buffer_inv (retrieveUntil b (peek b + length line + 2))"
    using findCRLF_SomeE [OF f assms(1)] by blast
  then have "line' = line" "rest' = rest" using assms(2) by auto
  with * show "mem b (peek b) (peek b + length line) = line"
    "readable (retrieveUntil b (peek b + length line + 2)) = rest"
    "buffer_inv (retrieveUntil b (peek b + length line + 2))" by simp_all
  show "0 < readableBytes b"
    using assms(1,2) by (metis readableBytes_0 append_is_Nil_conv kCRLF_def list.distinct(1) neq0_conv)
qed

subsection \<open>Both loops make progress\<close>

definition ctx_inv :: "http_context \<times> buffer \<Rightarrow> bool" where
  "ctx_inv s \<longleftrightarrow> buffer_inv (snd s)"

definition ctx_size :: "http_context \<times> buffer \<Rightarrow> nat" where
  "ctx_size s = length (readable (snd s))"

lemma retrieveUntil_shrinks:
  assumes "findCRLF b = Some crlf" "buffer_inv b"
  shows "buffer_inv (retrieveUntil b (crlf + 2))"
    and "length (readable (retrieveUntil b (crlf + 2))) < length (readable b)"
proof -
  obtain line rest where r: "readable b = line @ kCRLF @ rest"
    "readable (retrieveUntil b (crlf + 2)) = rest" "buffer_inv (retrieveUntil b (crlf + 2))"
    using findCRLF_SomeE [OF assms] by metis
  show "buffer_inv (retrieveUntil b (crlf + 2))" by (fact r(3))
  show "length (readable (retrieveUntil b (crlf + 2))) < length (readable b)"
    unfolding r(1,2) by (simp add: kCRLF_def)
qed

lemma parseRequest_step_More:
  assumes "parseRequest_step t s = Inr (More s')" "ctx_inv s" "s' \<noteq> s"
  shows "\<exists>crlf. findCRLF (snd s) = Some crlf \<and> snd s' = retrieveUntil (snd s) (crlf + 2)"
  using assms
  by (auto simp: parseRequest_step_def res_simps Let_def
      split: prod.splits parse_state.splits option.splits if_splits)

lemma parseResponse_step_More:
  assumes "parseResponse_step s = Inr (More s')" "ctx_inv s" "s' \<noteq> s"
  shows "\<exists>crlf. findCRLF (snd s) = Some crlf \<and> snd s' = retrieveUntil (snd s) (crlf + 2)"
  using assms
  by (auto simp: parseResponse_step_def res_simps Let_def
      split: prod.splits parse_state.splits option.splits if_splits)

interpretation request_loop: progress_loop "parseRequest_step t" ctx_inv ctx_size for t
proof unfold_locales
  fix s s'
  assume s: "ctx_inv s" "parseRequest_step t s = Inr (More s')"
  then show "ctx_inv s'"
    using parseRequest_step_More [OF s(2,1)] retrieveUntil_shrinks(1)
    by (cases "s' = s") (auto simp: ctx_inv_def)
  assume "s' \<noteq> s"
  with s show "ctx_size s' < ctx_size s"
    using parseRequest_step_More [OF s(2,1)] retrieveUntil_shrinks(2)
    by (auto simp: ctx_inv_def ctx_size_def)
qed

interpretation response_loop: progress_loop parseResponse_step ctx_inv ctx_size
proof unfold_locales
  fix s s'
  assume s: "ctx_inv s" "parseResponse_step s = Inr (More s')"
  then show "ctx_inv s'"
    using parseResponse_step_More [OF s(2,1)] retrieveUntil_shrinks(1)
    by (cases "s' = s") (auto simp: ctx_inv_def)
  assume "s' \<noteq> s"
  with s show "ctx_size s' < ctx_size s"
    using parseResponse_step_More [OF s(2,1)] retrieveUntil_shrinks(2)
    by (auto simp: ctx_inv_def ctx_size_def)
qed

subsection \<open>When the loops get stuck\<close>

definition request_stuck :: "http_context \<Rightarrow> buffer \<Rightarrow> bool" where
  "request_stuck c b \<longleftrightarrow>
     ctx_state c = kGotAll \<or>
     (ctx_state c = kExpectBody \<and> getHeader ''Content-Length'' (ctx_request c) \<noteq> [] \<and>
      readableBytes b < int_to_size (atoi (getHeader ''Content-Length'' (ctx_request c))))"

lemma retrieveUntil_neq: "findCRLF b = Some crlf \<Longrightarrow> buffer_inv b \<Longrightarrow> retrieveUntil b (crlf + 2) \<noteq> b"
  using retrieveUntil_shrinks(2) by fastforce

lemma parseRequest_stuck_iff:
  assumes "buffer_inv b"
  shows "parseRequest_step t (c, b) = Inr (More (c, b)) \<longleftrightarrow> request_stuck c b"
proof (cases "ctx_state c = kGotAll \<or> ctx_state c = kExpectBody")
  case True
  then show ?thesis
    using retrieveAllAsString_ok [OF assms]
    by (auto simp: parseRequest_step_def request_stuck_def Let_def split: if_splits)
next
  case False
  then have "\<not> request_stuck c b" by (simp add: request_stuck_def)
  moreover have "parseRequest_step t (c, b) \<noteq> Inr (More (c, b))"
    using False retrieveUntil_neq [OF _ assms]
    by (auto simp: parseRequest_step_def Let_def res_simps
        split: parse_state.splits option.splits if_splits)
  ultimately show ?thesis by blast
qed

lemma parseResponse_stuck_iff:
  assumes "buffer_inv b"
  shows "parseResponse_step (c, b) = Inr (More (c, b)) \<longleftrightarrow> ctx_state c = kGotAll"
  using retrieveUntil_neq [OF _ assms] retrieveAllAsString_ok [OF assms]
  by (auto simp: parseResponse_step_def Let_def split: parse_state.splits option.splits)

lemma parseResponse_More_state:
  "parseResponse_step s = Inr (More s') \<Longrightarrow> ctx_state (fst s) \<noteq> kGotAll \<Longrightarrow> ctx_state (fst s') \<noteq> kGotAll"
  by (auto simp: parseResponse_step_def res_simps Let_def
      split: prod.splits parse_state.splits option.splits if_splits)

lemma parseResponse_iterates_state:
  "iterates parseResponse_step s s' \<Longrightarrow> ctx_state (fst s) \<noteq> kGotAll \<Longrightarrow> ctx_state (fst s') \<noteq> kGotAll"
  by (induction rule: iterates.induct) (auto dest: parseResponse_More_state)

lemma parseResponse_step_no_fault: "ctx_inv s \<Longrightarrow> parseResponse_step s \<noteq> Inl e"
  using retrieveAllAsString_ok [of "snd s"]
  by (auto simp: parseResponse_step_def ctx_inv_def Let_def
      split: prod.splits parse_state.splits option.splits)

lemma response_no_fault:
  assumes "ctx_inv s"
  shows "run_loop parseResponse_step s \<noteq> Some (Inl e)"
  using assms
proof (induction "ctx_size s" arbitrary: s rule: less_induct)
  case less
  show ?case
  proof (cases "parseResponse_step s")
    case (Inl e)
    with parseResponse_step_no_fault [OF less.prems] show ?thesis by blast
  next
    case (Inr c)
    show ?thesis
    proof (cases c)
      case (More s')
      then have m: "parseResponse_step s = Inr (More s')" using Inr by simp
      show ?thesis
      proof (cases "s' = s")
        case True
        with m show ?thesis by (simp add: run_loop_stuck)
      next
        case False
        then show ?thesis
          using less.hyps [OF response_loop.progress [OF less.prems m False]]
            response_loop.inv_step [OF less.prems m] by (simp add: run_loop_More [where step = parseResponse_step, OF m])
      qed
    qed (use Inr in simp)
  qed
qed

subsection \<open>Parsing printed headers\<close>

definition wf_header :: "string \<times> string \<Rightarrow> bool" where
  "wf_header kv \<longleftrightarrow> CHR 0x0D \<notin> set (fst kv) \<and> CHR '':'' \<notin> set (fst kv) \<and>
     CHR 0x0D \<notin> set (snd kv) \<and> trimmed (snd kv)"

lemma addHeader_line_printed:
  assumes "wf_header kv"
  shows "addHeader_line (fst kv @ '': '' @ snd kv) (length (fst kv)) r = addHeader (fst kv) (snd kv) r"
  using assms trim_trimmed [of "snd kv"]
  by (simp add: addHeader_line_def addHeader_def wf_header_def Let_def)

lemma header_line_eq: "header_line kv = (fst kv @ '': '' @ snd kv) @ kCRLF"
  by (simp add: header_line_def)

lemma header_step:
  assumes "buffer_inv b" "ctx_state c = kExpectHeaders" "wf_header kv"
    and r: "readable b = header_line kv @ rest"
  shows "\<exists>b'. parseRequest_step t (c, b)
      = Inr (More (c\<lparr>ctx_request := addHeader (fst kv) (snd kv) (ctx_request c)\<rparr>, b')) \<and>
    buffer_inv b' \<and> readable b' = rest"
proof -
  let ?line = "fst kv @ '': '' @ snd kv"
  have cr: "CHR 0x0D \<notin> set ?line" using assms(3) by (auto simp: wf_header_def)
  have "readable b = ?line @ kCRLF @ rest" using r by (simp add: header_line_eq)
  note nl = next_line [OF assms(1) this cr]
  have "find_char (CHR '':'') ?line = length (fst kv)"
    using assms(3) by (simp add: wf_header_def find_simps)
  moreover have "length (fst kv) \<noteq> length ?line" by simp
  ultimately have "parseRequest_step t (c, b)
      = Inr (More (c\<lparr>ctx_request := addHeader (fst kv) (snd kv) (ctx_request c)\<rparr>,
          retrieveUntil b (peek b + length ?line + 2)))"
    unfolding parseRequest_step_def prod.case assms(2) parse_state.case nl(1) option.case nl(2) Let_def
    by (simp only: addHeader_line_printed [OF assms(3)] simp_thms if_True if_False)
  with nl(3,4) show ?thesis by blast
qed

lemma headers_iterate:
  assumes "buffer_inv b" "ctx_state c = kExpectHeaders" "\<forall>kv \<in> set kvs. wf_header kv"
    and "readable b = concat (map header_line kvs) @ rest"
  shows "\<exists>b'. iterates (parseRequest_step t) (c, b)
      (c\<lparr>ctx_request := foldl (\<lambda>r kv. addHeader (fst kv) (snd kv) r) (ctx_request c) kvs\<rparr>, b') \<and>
    buffer_inv b' \<and> readable b' = rest"
  using assms
proof (induction kvs arbitrary: c b)
  case Nil
  then show ?case by (auto intro: iterates.here)
next
  case (Cons kv kvs)
  let ?c = "c\<lparr>ctx_request := addHeader (fst kv) (snd kv) (ctx_request c)\<rparr>"
  obtain b1 where b1: "parseRequest_step t (c, b) = Inr (More (?c, b1))" "buffer_inv b1"
    "readable b1 = concat (map header_line kvs) @ rest"
    using header_step [OF Cons.prems(1,2), of kv "concat (map header_line kvs) @ rest" t] Cons.prems
    by auto
  then obtain b' where "iterates (parseRequest_step t) (?c, b1)
      (?c\<lparr>ctx_request := foldl (\<lambda>r kv. addHeader (fst kv) (snd kv) r) (ctx_request ?c) kvs\<rparr>, b')"
    "buffer_inv b'" "readable b' = rest"
    using Cons.IH [of b1 ?c] Cons.prems by auto
  with b1(1) show ?case by (auto intro: iterates.more)
qed

lemma add_headers_eq:
  "foldl (\<lambda>r kv. addHeader (fst kv) (snd kv) r) r kvs
     = r\<lparr>req_headers := foldl (\<lambda>m kv. smap_put (fst kv) (snd kv) m) (req_headers r) kvs\<rparr>"
  by (induction kvs arbitrary: r) (simp_all add: addHeader_def)

subsection \<open>Request lines\<close>

text \<open>The grammar of request lines the parser accepts.\<close>

definition request_line :: "string \<Rightarrow> string \<Rightarrow> string \<Rightarrow> string" where
  "request_line m target ver = m @ '' '' @ target @ '' '' @ ver"

lemma line_split:
  assumes "find_char c line \<noteq> length line"
  shows "line = take (find_char c line) line @ c # drop (find_char c line + 1) line"
    and "c \<notin> set (take (find_char c line) line)"
proof -
  have l: "find_char c line < length line" using assms find_char_le [of c line] by linarith
  then show "line = take (find_char c line) line @ c # drop (find_char c line + 1) line"
    by (metis id_take_nth_drop [OF l] find_char_nth [OF l] Suc_eq_plus1)
  show "c \<notin> set (take (find_char c line) line)" by (rule find_char_take_notin)
qed

lemma processRequestLine_spec:
  assumes "CHR '' '' \<notin> set m" "CHR '' '' \<notin> set target" "req_method r = kInvalid"
    and "parse_method m \<noteq> kInvalid"
  defines "q \<equiv> find_char (CHR ''?'') target"
  defines "r2 \<equiv> r\<lparr>req_method := parse_method m, req_path := take q target,
      req_query := (if q = length target then req_query r else drop q target)\<rparr>"
  shows "processRequestLine (request_line m target ver) r =
    Inr (if ver = ''HTTP/1.1'' then (True, r2\<lparr>req_version := kHttp11\<rparr>)
         else if ver = ''HTTP/1.0'' then (True, r2\<lparr>req_version := kHttp10\<rparr>)
         else (False, r2))"
proof -
  have s1: "find_char (CHR '' '') (request_line m target ver) = length m"
    using assms(1) by (simp add: request_line_def find_simps)
  have d1: "drop (length m + 1) (request_line m target ver) = target @ CHR '' '' # ver"
    and t1: "take (length m) (request_line m target ver) = m"
    by (simp_all add: request_line_def)
  have s2: "find_char (CHR '' '') (target @ CHR '' '' # ver) = length target"
    using assms(2) by (simp add: find_simps)
  have v: "length ver = 8 \<and> take 7 ver = ''HTTP/1.'' \<longleftrightarrow> (\<exists>c. ver = ''HTTP/1.'' @ [c])"
  proof
    assume a: "length ver = 8 \<and> take 7 ver = ''HTTP/1.''"
    then have "ver = take 7 ver @ [ver ! 7]" using take_Suc_conv_app_nth [of 7 ver] by simp
    with a show "\<exists>c. ver = ''HTTP/1.'' @ [c]" by metis
  qed auto
  have "processRequestLine (request_line m target ver) r =
      (if length ver = 8 \<and> take 7 ver = ''HTTP/1.'' then
         if ver ! 7 = CHR ''1'' then Inr (True, r2\<lparr>req_version := kHttp11\<rparr>)
         else if ver ! 7 = CHR ''0'' then Inr (True, r2\<lparr>req_version := kHttp10\<rparr>)
         else Inr (False, r2)
       else Inr (False, r2))"
    using assms(3,4) unfolding processRequestLine_def Let_def s1 d1 t1
    by (simp add: s2 setMethod_def r2_def q_def setPath_def setQuery_def setVersion_def
        request_line_def Let_def)
  also have "\<dots> = Inr (if ver = ''HTTP/1.1'' then (True, r2\<lparr>req_version := kHttp11\<rparr>)
         else if ver = ''HTTP/1.0'' then (True, r2\<lparr>req_version := kHttp10\<rparr>)
         else (False, r2))"
    unfolding v by auto
  finally show ?thesis .
qed

lemma processRequestLine_reject:
  assumes "req_method r = kInvalid"
    and "\<not> (\<exists>m target ver. line = request_line m target ver \<and> CHR '' '' \<notin> set m \<and>
          CHR '' '' \<notin> set target \<and> parse_method m \<noteq> kInvalid)"
  shows "\<exists>r'. processRequestLine line r = Inr (False, r')"
proof (cases "find_char (CHR '' '') line = length line")
  case True
  then show ?thesis by (simp add: processRequestLine_def)
next
  case False
  let ?m = "take (find_char (CHR '' '') line) line"
  let ?rest = "drop (find_char (CHR '' '') line + 1) line"
  let ?target = "take (find_char (CHR '' '') ?rest) ?rest"
  note l1 = line_split [OF False]
  have "find_char (CHR '' '') ?rest = length ?rest" if "parse_method ?m \<noteq> kInvalid"
  proof (rule ccontr)
    assume "find_char (CHR '' '') ?rest \<noteq> length ?rest"
    note l2 = line_split [OF this]
    then have "line = request_line ?m ?target (drop (find_char (CHR '' '') ?rest + 1) ?rest)"
      using l1(1) by (simp add: request_line_def)
    with assms(2) l1(2) l2(2) that show False by blast
  qed
  then show ?thesis
    using False assms(1) by (auto simp: processRequestLine_def Let_def setMethod_def)
qed

text \<open>
  C30: \<open>processRequestLine\<close> accepts exactly the lines \<open>method SP target SP HTTP/1.0|HTTP/1.1\<close>
  with one of the five known methods and no blank inside method or target; a request
  whose method is still unset never makes it fault, and an accepted line sets the method,
  the path up to the first question mark, the query from it, and the version.
\<close>

theorem processRequestLine_grammar:
  assumes "req_method r = kInvalid"
  shows "(\<exists>ok r'. processRequestLine line r = Inr (ok, r')) \<and>
    ((\<exists>r'. processRequestLine line r = Inr (True, r')) \<longleftrightarrow>
     (\<exists>m target ver. line = request_line m target ver \<and> CHR '' '' \<notin> set m \<and>
        CHR '' '' \<notin> set target \<and> parse_method m \<noteq> kInvalid \<and> ver \<in> {''HTTP/1.1'', ''HTTP/1.0''})) \<and>
    (\<forall>r'. processRequestLine line r = Inr (True, r') \<longrightarrow>
       line = request_line (methodString r')
         (req_path r' @ (if CHR ''?'' \<in> set line then req_query r' else []))
         (if req_version r' = kHttp11 then ''HTTP/1.1'' else ''HTTP/1.0''))"
    (is "?A \<and> ?B \<and> ?C")
proof (cases "\<exists>m target ver. line = request_line m target ver \<and> CHR '' '' \<notin> set m \<and>
          CHR '' '' \<notin> set target \<and> parse_method m \<noteq> kInvalid")
  case False
  with processRequestLine_reject [OF assms False] show ?thesis by auto
next
  case True
  then obtain m target ver where l: "line = request_line m target ver" "CHR '' '' \<notin> set m"
    "CHR '' '' \<notin> set target" "parse_method m \<noteq> kInvalid" by blast
  note spec = processRequestLine_spec [OF l(2,3) assms l(4), of ver]
  have m: "methodString (r'::http_request) = m" if "req_method r' = parse_method m" for r'
    using l(4) that by (auto simp: parse_method_def methodString_def split: if_splits)
  have q: "CHR ''?'' \<in> set line \<longleftrightarrow> CHR ''?'' \<in> set target" if "ver \<in> {''HTTP/1.1'', ''HTTP/1.0''}"
    using l(1,4) that by (auto simp: request_line_def parse_method_def split: if_splits)
  have ver: "ver' = ver" if "line = request_line m' target' ver'" "CHR '' '' \<notin> set m'"
    "CHR '' '' \<notin> set target'" for m' target' ver'
    using that l(1-3) by (simp add: request_line_def first_sep_unique)
  have ?A using spec l(1) by auto
  moreover have "(\<exists>r'. processRequestLine line r = Inr (True, r')) \<longleftrightarrow>
      ver \<in> {''HTTP/1.1'', ''HTTP/1.0''}"
    unfolding l(1) spec by auto
  then have ?B using l ver by blast
  moreover have ?C
    using spec l(1) q m by (auto simp: find_char_eq_length split: if_splits)
  ultimately show ?thesis by blast
qed

theorem processRequestLine_grammar_witness:
  "(\<exists>r'. processRequestLine ''GET /a?b HTTP/1.1'' HttpRequest_ctor = Inr (True, r')) \<and>
   \<not> (\<exists>r'. processRequestLine ''GET /a?b HTTP/2.0'' HttpRequest_ctor = Inr (True, r'))"
  using processRequestLine_grammar [of HttpRequest_ctor "''GET /a?b HTTP/1.1''"]
    processRequestLine_spec [of "''GET''" "''/a?b''" HttpRequest_ctor "''HTTP/1.1''"]
    processRequestLine_spec [of "''GET''" "''/a?b''" HttpRequest_ctor "''HTTP/2.0''"]
  by (simp add: request_line_def parse_method_def HttpRequest_ctor_def)

subsection \<open>A whole request\<close>

text \<open>
  The head of a request as a client prints it (request line, headers in key order, empty
  line) takes the parser from the initial context through all its headers.
\<close>

definition request_head :: "http_request \<Rightarrow> bytes" where
  "request_head r =
     request_line (methodString r) (req_path r) ''HTTP/1.1'' @ kCRLF
       @ concat (map header_line (req_headers r)) @ kCRLF"

definition wf_request :: "http_request \<Rightarrow> bool" where
  "wf_request r \<longleftrightarrow>
     req_method r \<noteq> kInvalid \<and> req_version r = kHttp11 \<and> req_query r = [] \<and>
     CHR '' '' \<notin> set (req_path r) \<and> CHR ''?'' \<notin> set (req_path r) \<and> CHR 0x0D \<notin> set (req_path r) \<and>
     smap_ok (req_headers r) \<and> (\<forall>kv \<in> set (req_headers r). wf_header kv)"

text \<open>
  A context ready for a request: new, or reset after one, when the body of the last request
  is still in place.
\<close>

definition ready_ctx :: "string \<Rightarrow> http_context" where
  "ready_ctx old = HttpContext_ctor\<lparr>ctx_request := HttpRequest_ctor\<lparr>req_body := old\<rparr>\<rparr>"

lemma ready_ctx_new: "ready_ctx [] = HttpContext_ctor"
  by (simp add: ready_ctx_def HttpContext_ctor_def HttpRequest_ctor_def)

lemma ready_ctx_reset: "ctx_response c = ctx_response HttpContext_ctor \<Longrightarrow> reset_ctx c = ready_ctx (req_body (ctx_request c))"
  by (cases c) (simp add: reset_ctx_def swap_req_def ready_ctx_def HttpContext_ctor_def HttpRequest_ctor_def)

lemma request_line_step:
  assumes "wf_request r" "buffer_inv b" "ctx_state c = kExpectRequestLine"
    and "ctx_request c = HttpRequest_ctor\<lparr>req_body := old\<rparr>"
    and r: "readable b = request_line (methodString r) (req_path r) ''HTTP/1.1'' @ kCRLF @ rest"
  shows "\<exists>b'. parseRequest_step t (c, b) =
      Inr (More (c\<lparr>ctx_request := HttpRequest_ctor\<lparr>req_body := old, req_method := req_method r,
                 req_path := req_path r, req_version := kHttp11, req_receiveTime := t\<rparr>,
               ctx_state := kExpectHeaders\<rparr>, b')) \<and>
    buffer_inv b' \<and> readable b' = rest"
proof -
  let ?line = "request_line (methodString r) (req_path r) ''HTTP/1.1''"
  have "CHR 0x0D \<notin> set ?line"
    using assms(1) by (simp add: wf_request_def request_line_def)
  note nl = next_line [OF assms(2) r this]
  have "req_method r \<noteq> kInvalid" using assms(1) by (simp add: wf_request_def)
  note pm = parse_method_methodString [OF this]
  have "processRequestLine ?line (ctx_request c) = Inr (True, HttpRequest_ctor\<lparr>req_body := old, req_method := req_method r,
      req_path := req_path r, req_version := kHttp11\<rparr>)"
    using assms(1,4) processRequestLine_spec [of "methodString r" "req_path r" "ctx_request c" "''HTTP/1.1''"]
    by (simp add: wf_request_def pm find_char_eq_length HttpRequest_ctor_def)
  then have "parseRequest_step t (c, b) =
      Inr (More (c\<lparr>ctx_request := HttpRequest_ctor\<lparr>req_body := old, req_method := req_method r,
                 req_path := req_path r, req_version := kHttp11, req_receiveTime := t\<rparr>,
               ctx_state := kExpectHeaders\<rparr>, retrieveUntil b (peek b + length ?line + 2)))"
    unfolding parseRequest_step_def prod.case assms(3) parse_state.case nl(1) option.case nl(2)
    by (simp add: setReceiveTime_def)
  with nl(3,4) show ?thesis by blast
qed

lemma request_head_iterates:
  assumes "wf_request r" "buffer_inv b" "c = ready_ctx old"
    and "readable b = request_head r @ rest"
  shows "\<exists>b'. iterates (parseRequest_step t) (c, b)
      (c\<lparr>ctx_state := kExpectHeaders, ctx_request := r\<lparr>req_receiveTime := t, req_body := old\<rparr>\<rparr>, b') \<and>
    buffer_inv b' \<and> readable b' = kCRLF @ rest"
proof -
  let ?c1 = "c\<lparr>ctx_request := HttpRequest_ctor\<lparr>req_body := old, req_method := req_method r,
      req_path := req_path r, req_version := kHttp11, req_receiveTime := t\<rparr>,
    ctx_state := kExpectHeaders\<rparr>"
  have r: "readable b = request_line (methodString r) (req_path r) ''HTTP/1.1'' @ kCRLF
      @ (concat (map header_line (req_headers r)) @ kCRLF @ rest)"
    using assms(4) by (simp add: request_head_def)
  obtain b1 where b1: "parseRequest_step t (c, b) = Inr (More (?c1, b1))" "buffer_inv b1"
    "readable b1 = concat (map header_line (req_headers r)) @ kCRLF @ rest"
    using request_line_step [OF assms(1,2) _ _ r, of c old t] assms(3)
    by (auto simp: ready_ctx_def HttpContext_ctor_def)
  have wf: "\<forall>kv \<in> set (req_headers r). wf_header kv" "smap_ok (req_headers r)"
    and q: "req_query r = []" "req_version r = kHttp11"
    using assms(1) by (simp_all add: wf_request_def)
  obtain b2 where b2: "iterates (parseRequest_step t) (?c1, b1)
      (?c1\<lparr>ctx_request := foldl (\<lambda>r kv. addHeader (fst kv) (snd kv) r) (ctx_request ?c1) (req_headers r)\<rparr>, b2)"
    "buffer_inv b2" "readable b2 = kCRLF @ rest"
    using headers_iterate [OF b1(2) _ wf(1) b1(3), of ?c1 t] by auto
  have "foldl (\<lambda>r kv. addHeader (fst kv) (snd kv) r) (ctx_request ?c1) (req_headers r)
      = r\<lparr>req_receiveTime := t, req_body := old\<rparr>"
    using smap_put_all [of "[]" "req_headers r"] wf(2) q
    by (simp add: add_headers_eq HttpRequest_ctor_def)
  with b2 b1(1) show ?thesis by (auto intro: iterates.more)
qed

lemma empty_line_step:
  assumes "buffer_inv b" "ctx_state c = kExpectHeaders" "readable b = kCRLF @ rest"
  shows "\<exists>b'. parseRequest_step t (c, b) =
      Inr (if req_method (ctx_request c) = kPost then More (c\<lparr>ctx_state := kExpectBody\<rparr>, b')
           else Done True (c\<lparr>ctx_state := kGotAll\<rparr>, b')) \<and>
    buffer_inv b' \<and> readable b' = rest"
proof -
  note nl = next_line [OF assms(1), of "[]" rest, simplified, OF assms(3)]
  have "parseRequest_step t (c, b) =
      Inr (if req_method (ctx_request c) = kPost
           then More (c\<lparr>ctx_state := kExpectBody\<rparr>, retrieveUntil b (peek b + 2))
           else Done True (c\<lparr>ctx_state := kGotAll\<rparr>, retrieveUntil b (peek b + 2)))"
    using nl by (simp add: parseRequest_step_def assms(2) Let_def)
  with nl(3,4) show ?thesis by auto
qed

lemma post_head_iterates:
  assumes "wf_request r" "buffer_inv b" "req_method r = kPost" "readable b = request_head r @ rest"
  shows "\<exists>b'. iterates (parseRequest_step t) (ready_ctx old, b)
      ((ready_ctx old)\<lparr>ctx_state := kExpectBody,
         ctx_request := r\<lparr>req_receiveTime := t, req_body := old\<rparr>\<rparr>, b') \<and>
    buffer_inv b' \<and> readable b' = rest"
proof -
  let ?c = "(ready_ctx old)\<lparr>ctx_state := kExpectHeaders,
      ctx_request := r\<lparr>req_receiveTime := t, req_body := old\<rparr>\<rparr>"
  obtain b1 where b1: "iterates (parseRequest_step t) (ready_ctx old, b) (?c, b1)"
    "buffer_inv b1" "readable b1 = kCRLF @ rest"
    using request_head_iterates [OF assms(1,2) refl assms(4)] by blast
  obtain b2 where b2: "parseRequest_step t (?c, b1) = Inr (More (?c\<lparr>ctx_state := kExpectBody\<rparr>, b2))"
    "buffer_inv b2" "readable b2 = rest"
    using empty_line_step [OF b1(2) _ b1(3), of ?c t] assms(3) by auto
  have "iterates (parseRequest_step t) (?c, b1) (?c\<lparr>ctx_state := kExpectBody\<rparr>, b2)"
    by (rule iterates.more [where step = "parseRequest_step t", OF b2(1) iterates.here])
  then have "iterates (parseRequest_step t) (ready_ctx old, b) (?c\<lparr>ctx_state := kExpectBody\<rparr>, b2)"
    using iterates_trans [OF b1(1)] by blast
  with b2(2,3) show ?thesis by auto
qed

lemma atoi_size: "n < 2 ^ 31 \<Longrightarrow> int_to_size (atoi (dec n)) = n"
  by (simp add: atoi_dec int_to_size_nonneg)

lemma body_step:
  assumes "buffer_inv b" "ctx_state c = kExpectBody" "readable b = body @ rest"
    and "getHeader ''Content-Length'' (ctx_request c) = dec (length body)" "length body < 2 ^ 31"
  shows "\<exists>b'. parseRequest_step t (c, b) =
      Inr (Done True (c\<lparr>ctx_state := kGotAll, ctx_request := setBody body (ctx_request c)\<rparr>, b')) \<and>
    buffer_inv b' \<and> readable b' = rest"
proof -
  have n: "length body \<le> readableBytes b"
    using length_readable [OF assms(1)] assms(3) by simp
  moreover have "mem b (peek b) (peek b + length body) = body"
    using n assms(3) by (simp add: readable_def mem_def peek_def readableBytes_def)
       (metis append_eq_conv_conj min.absorb1 take_take)
  ultimately have "parseRequest_step t (c, b) =
      Inr (Done True (c\<lparr>ctx_state := kGotAll, ctx_request := setBody body (ctx_request c)\<rparr>,
        retrieve b (length body)))"
    using assms(2,4) atoi_size [OF assms(5)] by (simp add: parseRequest_step_def Let_def)
  with assms(1,3) show ?thesis by simp
qed

lemma parse_printed:
  assumes "wf_request r" "buffer_inv b"
    and "readable b = request_head r @ req_body r @ rest"
    and "if req_method r = kPost
         then getHeader ''Content-Length'' r = dec (length (req_body r)) \<and> length (req_body r) < 2 ^ 31
         else req_body r = []"
  shows "\<exists>b'. parseRequest t (ready_ctx old) b =
      Some (Inr (True, (ready_ctx old)\<lparr>ctx_state := kGotAll, ctx_request :=
        r\<lparr>req_receiveTime := t, req_body := if req_method r = kPost then req_body r else old\<rparr>\<rparr>, b')) \<and>
    buffer_inv b' \<and> readable b' = rest"
proof (cases "req_method r = kPost")
  case True
  let ?c = "(ready_ctx old)\<lparr>ctx_state := kExpectBody,
      ctx_request := r\<lparr>req_receiveTime := t, req_body := old\<rparr>\<rparr>"
  obtain b1 where b1: "iterates (parseRequest_step t) (ready_ctx old, b) (?c, b1)"
    "buffer_inv b1" "readable b1 = req_body r @ rest"
    using post_head_iterates [OF assms(1,2) True assms(3)] by blast
  have cl: "getHeader ''Content-Length'' (ctx_request ?c) = dec (length (req_body r))"
    "length (req_body r) < 2 ^ 31"
    using assms(4) True by (simp_all add: getHeader_def)
  obtain b2 where b2: "parseRequest_step t (?c, b1) =
      Inr (Done True (?c\<lparr>ctx_state := kGotAll, ctx_request := setBody (req_body r) (ctx_request ?c)\<rparr>, b2))"
    "buffer_inv b2" "readable b2 = rest"
    using body_step [OF b1(2) _ b1(3) cl, of t] by auto
  then show ?thesis
    using run_loop_iterates [OF b1(1)] run_loop_Done [where step = "parseRequest_step t", OF b2(1)] True
    by (auto simp: parseRequest_def setBody_def)
next
  case False
  let ?c = "(ready_ctx old)\<lparr>ctx_state := kExpectHeaders,
      ctx_request := r\<lparr>req_receiveTime := t, req_body := old\<rparr>\<rparr>"
  have body: "req_body r = []" using assms(4) False by simp
  obtain b1 where b1: "iterates (parseRequest_step t) (ready_ctx old, b) (?c, b1)"
    "buffer_inv b1" "readable b1 = kCRLF @ rest"
    using request_head_iterates [OF assms(1,2) refl] assms(3) body by fastforce
  obtain b2 where b2: "parseRequest_step t (?c, b1) = Inr (Done True (?c\<lparr>ctx_state := kGotAll\<rparr>, b2))"
    "buffer_inv b2" "readable b2 = rest"
    using empty_line_step [OF b1(2) _ b1(3), of ?c t] False by auto
  then show ?thesis
    using run_loop_iterates [OF b1(1)] run_loop_Done [where step = "parseRequest_step t", OF b2(1)] body False
    by (auto simp: parseRequest_def)
qed

text \<open>
  C4: the parser recovers a printed request. For a well-formed request (with its body
  announced by Content-Length when the method is POST, and no body otherwise) the printed
  bytes, followed by anything, parse in one call to exactly that request stamped with the
  receive time, with what follows left in the buffer for the next request.
\<close>

theorem parseRequest_roundtrip:
  assumes "wf_request r" "buffer_inv b"
    and "readable b = request_head r @ req_body r @ rest"
    and "if req_method r = kPost
         then getHeader ''Content-Length'' r = dec (length (req_body r)) \<and> length (req_body r) < 2 ^ 31
         else req_body r = []"
  shows "\<exists>b'. parseRequest t HttpContext_ctor b =
      Some (Inr (True, HttpContext_ctor\<lparr>ctx_state := kGotAll, ctx_request := r\<lparr>req_receiveTime := t\<rparr>\<rparr>, b')) \<and>
    buffer_inv b' \<and> readable b' = rest"
  using parse_printed [OF assms, of t "[]"] assms(4) by (auto simp: ready_ctx_new split: if_splits)

theorem parseRequest_roundtrip_witness:
  "\<exists>b'. parseRequest 7 HttpContext_ctor
       (append_buf (Buffer_ctor 8)
          (''POST /x HTTP/1.1'' @ kCRLF @ ''Content-Length: 2'' @ kCRLF @ kCRLF @ ''hi'' @ ''GET''))
     = Some (Inr (True, HttpContext_ctor\<lparr>ctx_state := kGotAll,
         ctx_request := \<lparr>req_method = kPost, req_version = kHttp11, req_path = ''/x'', req_query = [],
           req_body = ''hi'', req_receiveTime = 7, req_headers = [(''Content-Length'', ''2'')]\<rparr>\<rparr>, b')) \<and>
     readable b' = ''GET''"
proof -
  let ?r = "\<lparr>req_method = kPost, req_version = kHttp11, req_path = ''/x'', req_query = [],
      req_body = ''hi'', req_receiveTime = 0, req_headers = [(''Content-Length'', ''2'')]\<rparr>"
  let ?b = "append_buf (Buffer_ctor 8)
      (''POST /x HTTP/1.1'' @ kCRLF @ ''Content-Length: 2'' @ kCRLF @ kCRLF @ ''hi'' @ ''GET'')"
  have "wf_request ?r"
    by (simp add: wf_request_def wf_header_def trimmed_def isspace_def smap_ok_Cons)
  moreover have "readable ?b = request_head ?r @ req_body ?r @ ''GET''"
    by (simp add: request_head_def request_line_def methodString_def header_line_def)
  moreover have "getHeader ''Content-Length'' ?r = dec (length (req_body ?r))"
    by (simp add: getHeader_def dec.simps numeral_2_eq_2 [symmetric])
  ultimately show ?thesis
    using parseRequest_roundtrip [of ?r ?b "''GET''" 7] by auto
qed

text \<open>
  C14: \<open>parseRequest\<close> returns, with a verdict or a fault, unless it reaches one of two
  situations in which it spins for ever without consuming input: the request is already
  complete, or the body is awaited and Content-Length (as \<^verbatim>\<open>size_t\<close>) exceeds the
  readable bytes.
\<close>

theorem parseRequest_diverges_iff:
  assumes "buffer_inv b"
  shows "parseRequest t c b = None \<longleftrightarrow>
    (\<exists>c' b'. iterates (parseRequest_step t) (c, b) (c', b') \<and> request_stuck c' b')"
proof -
  have inv: "ctx_inv (c, b)" using assms by (simp add: ctx_inv_def)
  have "parseRequest_step t (c', b') = Inr (More (c', b')) \<longleftrightarrow> request_stuck c' b'"
    if "iterates (parseRequest_step t) (c, b) (c', b')" for c' b'
    using request_loop.inv_iterates [OF that inv] parseRequest_stuck_iff
    by (simp add: ctx_inv_def)
  then show ?thesis
    unfolding parseRequest_def request_loop.diverges_iff [OF inv] by auto
qed

theorem parseRequest_diverges_iff_witness:
  "parseRequest 0 (HttpContext_ctor\<lparr>ctx_state := kGotAll\<rparr>) (Buffer_ctor 8) = None"
proof -
  have "request_stuck (HttpContext_ctor\<lparr>ctx_state := kGotAll\<rparr>) (Buffer_ctor 8)"
    by (simp add: request_stuck_def)
  then show ?thesis
    using parseRequest_diverges_iff [of "Buffer_ctor 8" 0 "HttpContext_ctor\<lparr>ctx_state := kGotAll\<rparr>"]
      iterates.here [of "parseRequest_step 0"] by simp blast
qed

text \<open>
  A POST whose head has arrived but whose body is still incomplete makes
  \<open>parseRequest\<close> loop for ever, instead of returning to wait for the rest.
\<close>

theorem post_incomplete_body_hangs:
  assumes "wf_request r" "buffer_inv b" "req_method r = kPost"
    and "getHeader ''Content-Length'' r = dec n" "n < 2 ^ 31"
    and "readable b = request_head r @ part" "length part < n"
  shows "parseRequest t HttpContext_ctor b = None"
proof -
  let ?c = "HttpContext_ctor\<lparr>ctx_state := kExpectBody,
      ctx_request := r\<lparr>req_receiveTime := t, req_body := []\<rparr>\<rparr>"
  obtain b' where b': "iterates (parseRequest_step t) (HttpContext_ctor, b) (?c, b')"
    "buffer_inv b'" "readable b' = part"
    using post_head_iterates [OF assms(1-3,6), of t "[]"] unfolding ready_ctx_new by blast
  have "request_stuck ?c b'"
    using assms(4,7) atoi_size [OF assms(5)] length_readable [OF b'(2)] b'(3)
    by (simp add: request_stuck_def getHeader_def)
  then have "run_loop (parseRequest_step t) (?c, b') = None"
    using parseRequest_stuck_iff [OF b'(2)] by (intro run_loop_stuck) simp
  then show ?thesis
    using run_loop_iterates [OF b'(1)] by (simp add: parseRequest_def)
qed

theorem post_incomplete_body_hangs_witness:
  "parseRequest 7 HttpContext_ctor
     (append_buf (Buffer_ctor 8)
        (''POST /x HTTP/1.1'' @ kCRLF @ ''Content-Length: 5'' @ kCRLF @ kCRLF @ ''he'')) = None"
  using post_incomplete_body_hangs
    [of "\<lparr>req_method = kPost, req_version = kHttp11, req_path = ''/x'', req_query = [],
           req_body = [], req_receiveTime = 0, req_headers = [(''Content-Length'', ''5'')]\<rparr>"
        "append_buf (Buffer_ctor 8)
          (''POST /x HTTP/1.1'' @ kCRLF @ ''Content-Length: 5'' @ kCRLF @ kCRLF @ ''he'')" 5 "''he''" 7]
  by (auto simp: wf_request_def wf_header_def trimmed_def isspace_def request_head_def
      request_line_def methodString_def header_line_def getHeader_def smap_ok_Cons dec.simps)

text \<open>
  \<open>parseResponse\<close> always returns, without a fault, when the context does not already
  hold a complete response.
\<close>

theorem parseResponse_total:
  assumes "buffer_inv b" "ctx_state c \<noteq> kGotAll"
  shows "\<exists>ok c' b'. parseResponse t c b = Some (Inr (ok, c', b'))"
proof -
  have inv: "ctx_inv (c, b)" using assms by (simp add: ctx_inv_def)
  have "\<not> (parseResponse_step s' = Inr (More s'))" if "iterates parseResponse_step (c, b) s'" for s'
    using response_loop.inv_iterates [OF that inv] parseResponse_iterates_state [OF that] assms(2)
      parseResponse_stuck_iff [of "snd s'" "fst s'"] by (simp add: ctx_inv_def)
  then have "parseResponse t c b \<noteq> None"
    unfolding parseResponse_def response_loop.diverges_iff [OF inv] by blast
  moreover have "parseResponse t c b \<noteq> Some (Inl e)" for e
    unfolding parseResponse_def using response_no_fault [OF inv] by blast
  ultimately show ?thesis by (metis option.exhaust sum.exhaust surj_pair)
qed

theorem parseResponse_total_witness:
  "\<exists>ok c' b'. parseResponse 0 HttpContext_ctor (Buffer_ctor 8) = Some (Inr (ok, c', b'))"
  using parseResponse_total [of "Buffer_ctor 8" HttpContext_ctor] by (simp add: HttpContext_ctor_def)

subsection \<open>Repeated calls and reset\<close>

lemma request_line_findCRLF:
  assumes "buffer_inv b" "readable b = request_line m target ver @ kCRLF @ rest"
    and "CHR 0x0D \<notin> set (request_line m target ver)"
  shows "findCRLF b = Some (peek b + length (request_line m target ver))"
    and "mem b (peek b) (peek b + length (request_line m target ver)) = request_line m target ver"
  using next_line [OF assms] by simp_all

text \<open>
  A request line with a known method and a bad version is reported as an error, but the
  line stays in the buffer and the method stays set. The next call of \<open>parseRequest\<close> on
  the same context, after any further input, fails the assertion of \<open>setMethod\<close> and aborts
  the process.
\<close>

theorem bad_request_line_aborts:
  assumes "buffer_inv b" "ctx_state c = kExpectRequestLine" "req_method (ctx_request c) = kInvalid"
    and "readable b = request_line m target ver @ kCRLF @ rest"
    and "CHR 0x0D \<notin> set (request_line m target ver)"
    and "CHR '' '' \<notin> set m" "CHR '' '' \<notin> set target" "parse_method m \<noteq> kInvalid"
    and "ver \<notin> {''HTTP/1.1'', ''HTTP/1.0''}"
  shows "\<exists>c'. parseRequest t c b = Some (Inr (False, c', b)) \<and>
    (\<forall>t' more. parseRequest t' c' (append_buf b more) = Some (Inl AssertFail))"
proof -
  let ?l = "request_line m target ver"
  obtain r where r: "processRequestLine ?l (ctx_request c) = Inr (False, r)" "req_method r = parse_method m"
    using processRequestLine_spec [OF assms(6,7,3,8), of ver] assms(9) by auto
  let ?c = "c\<lparr>ctx_request := r\<rparr>"
  have "parseRequest_step t (c, b) = Inr (Done False (?c, b))"
    using request_line_findCRLF [OF assms(1,4,5)] r(1)
    by (simp add: parseRequest_step_def assms(2))
  then have one: "parseRequest t c b = Some (Inr (False, ?c, b))"
    by (simp add: parseRequest_def)
  have sp: "find_char (CHR '' '') ?l = length m"
    using assms(6) by (simp add: request_line_def find_simps)
  have fail: "processRequestLine ?l r = Inl AssertFail"
    using assms(8) r(2) sp by (simp add: processRequestLine_def setMethod_def request_line_def)
  have "parseRequest t' ?c (append_buf b more) = Some (Inl AssertFail)" for t' more
  proof -
    have "readable (append_buf b more) = ?l @ kCRLF @ (rest @ more)"
      using assms(1,4) by simp
    note f = request_line_findCRLF [OF buffer_inv_append [OF assms(1)] this assms(5)]
    then have "parseRequest_step t' (?c, append_buf b more) = Inl AssertFail"
      using fail by (simp add: parseRequest_step_def assms(2))
    then show ?thesis by (simp add: parseRequest_def)
  qed
  with one show ?thesis by blast
qed

theorem bad_request_line_aborts_witness:
  "\<exists>c'. parseRequest 0 HttpContext_ctor (append_buf (Buffer_ctor 8) (''GET / HTTP/2.0'' @ kCRLF))
        = Some (Inr (False, c', append_buf (Buffer_ctor 8) (''GET / HTTP/2.0'' @ kCRLF))) \<and>
     (\<forall>t' more. parseRequest t' c' (append_buf (append_buf (Buffer_ctor 8) (''GET / HTTP/2.0'' @ kCRLF)) more)
        = Some (Inl AssertFail))"
  using bad_request_line_aborts [of "append_buf (Buffer_ctor 8) (''GET / HTTP/2.0'' @ kCRLF)"
      HttpContext_ctor "''GET''" "''/''" "''HTTP/2.0''" "[]" 0]
  by (simp add: request_line_def parse_method_def HttpContext_ctor_def HttpRequest_ctor_def)

text \<open>
  \<open>reset\<close> restores everything but the body of the request, which \<open>swap\<close> forgets, so the
  body of one request survives into the next: a request without a body that is parsed after
  \<open>reset\<close> carries the body of the request handled before it on the connection.
\<close>

theorem next_request_inherits_body:
  assumes "wf_request r" "req_method r \<noteq> kPost" "req_body r = []" "buffer_inv b"
    and "readable b = request_head r @ rest" "ctx_response c = ctx_response HttpContext_ctor"
  shows "ctx_state (reset_ctx c) = kExpectRequestLine \<and>
    (\<exists>c' b'. parseRequest t (reset_ctx c) b = Some (Inr (True, c', b')) \<and> gotAll c' \<and>
      ctx_request c' = r\<lparr>req_receiveTime := t, req_body := req_body (ctx_request c)\<rparr> \<and> readable b' = rest)"
  using parse_printed [OF assms(1,4), of rest t "req_body (ctx_request c)"] assms(2,3,5)
  unfolding ready_ctx_reset [OF assms(6)]
  by (auto simp: gotAll_def ready_ctx_def HttpContext_ctor_def)

theorem next_request_inherits_body_witness:
  "\<exists>c' b'. parseRequest 7 (reset_ctx (HttpContext_ctor\<lparr>ctx_request := HttpRequest_ctor\<lparr>req_body := ''secret''\<rparr>\<rparr>))
       (append_buf (Buffer_ctor 8) (''GET /x HTTP/1.1'' @ kCRLF @ kCRLF)) = Some (Inr (True, c', b')) \<and>
     req_method (ctx_request c') = kGet \<and> req_body (ctx_request c') = ''secret''"
proof -
  let ?r = "\<lparr>req_method = kGet, req_version = kHttp11, req_path = ''/x'', req_query = [],
      req_body = [], req_receiveTime = 0, req_headers = []\<rparr>"
  let ?b = "append_buf (Buffer_ctor 8) (''GET /x HTTP/1.1'' @ kCRLF @ kCRLF)"
  have "wf_request ?r" by (simp add: wf_request_def)
  moreover have "readable ?b = request_head ?r @ []"
    by (simp add: request_head_def request_line_def methodString_def)
  ultimately show ?thesis
    using next_request_inherits_body [of ?r ?b "[]"
        "HttpContext_ctor\<lparr>ctx_request := HttpRequest_ctor\<lparr>req_body := ''secret''\<rparr>\<rparr>" 7]
    by auto
qed

subsection \<open>A whole response\<close>

definition wf_response :: "http_response \<Rightarrow> bool" where
  "wf_response r \<longleftrightarrow> CHR 0x0D \<notin> set (resp_statusMessage r) \<and>
     (\<forall>kv \<in> set (resp_headers r). CHR 0x0D \<notin> set (fst kv) \<and> CHR '':'' \<notin> set (fst kv) \<and>
        CHR 0x0D \<notin> set (snd kv))"

lemma dec_no_cr [simp]: "CHR 0x0D \<notin> set (dec n)" and dec_no_blank [simp]: "CHR '' '' \<notin> set (dec n)"
  using dec_digits [of "CHR 0x0D" n] dec_digits [of "CHR '' ''" n] by (auto simp: isdigit_def)

lemma setStatusCode_num:
  "setStatusCode (int (status_num s)) r = r\<lparr>resp_statusCode := s\<rparr>"
  by (cases s) (simp_all add: setStatusCode_def)

lemma status_num_small: "status_num s < 2 ^ 31"
  by (cases s) simp_all

lemma status_line_step:
  assumes "buffer_inv b" "ctx_state c = kExpectRequestLine" "wf_response r"
    and rd: "readable b = status_line r @ rest"
  shows "\<exists>b'. parseResponse_step (c, b) =
      Inr (More (c\<lparr>ctx_state := kExpectHeaders,
                   ctx_response := (ctx_response c)\<lparr>resp_statusCode := resp_statusCode r\<rparr>\<rparr>, b')) \<and>
    buffer_inv b' \<and> readable b' = rest"
proof -
  let ?tail = "dec (status_num (resp_statusCode r)) @ CHR '' '' # resp_statusMessage r"
  let ?line = "''HTTP/1.1'' @ CHR '' '' # ?tail"
  have cr: "CHR 0x0D \<notin> set ?line" using assms(3) by (simp add: wf_response_def)
  have ln: "readable b = ?line @ kCRLF @ rest" using rd by (simp add: status_line_def)
  note nl = next_line [OF assms(1) ln cr]
  have s1: "find_char (CHR '' '') ?line = 8" by simp
  have d: "drop (8 + 1) ?line = ?tail" by simp
  have s2: "find_char (CHR '' '') ?tail = length (dec (status_num (resp_statusCode r)))"
    by (simp add: find_simps)
  have code: "setStatusCode (atoi (take (length (dec (status_num (resp_statusCode r)))) ?tail)) (ctx_response c)
      = (ctx_response c)\<lparr>resp_statusCode := resp_statusCode r\<rparr>"
    by (simp add: atoi_dec [OF status_num_small] setStatusCode_num)
  have "parseResponse_step (c, b) =
      Inr (More (c\<lparr>ctx_state := kExpectHeaders,
                   ctx_response := (ctx_response c)\<lparr>resp_statusCode := resp_statusCode r\<rparr>\<rparr>,
        retrieveUntil b (peek b + length ?line + 2)))"
    unfolding parseResponse_step_def prod.case assms(2) parse_state.case nl(1) option.case nl(2)
      Let_def s1 d s2 code
    by (cases c) simp
  with nl(3,4) show ?thesis by blast
qed

lemma resp_header_step:
  assumes "buffer_inv b" "ctx_state c = kExpectHeaders"
    and "CHR 0x0D \<notin> set (fst kv)" "CHR '':'' \<notin> set (fst kv)" "CHR 0x0D \<notin> set (snd kv)"
    and rd: "readable b = header_line kv @ rest"
  shows "\<exists>b'. parseResponse_step (c, b) =
      Inr (More (c\<lparr>ctx_response := addHeader_resp (fst kv) (CHR '' '' # snd kv) (ctx_response c)\<rparr>, b')) \<and>
    buffer_inv b' \<and> readable b' = rest"
proof -
  let ?line = "fst kv @ '': '' @ snd kv"
  have cr: "CHR 0x0D \<notin> set ?line" using assms(3,5) by simp
  have ln: "readable b = ?line @ kCRLF @ rest" using rd by (simp add: header_line_eq)
  note nl = next_line [OF assms(1) ln cr]
  have f: "find_char (CHR '':'') ?line = length (fst kv)"
    using assms(4) by (simp add: find_simps)
  have "parseResponse_step (c, b) =
      Inr (More (c\<lparr>ctx_response := addHeader_resp (fst kv) (CHR '' '' # snd kv) (ctx_response c)\<rparr>,
        retrieveUntil b (peek b + length ?line + 2)))"
    unfolding parseResponse_step_def prod.case assms(2) parse_state.case nl(1) option.case nl(2) Let_def f
    by simp
  with nl(3,4) show ?thesis by blast
qed

lemma resp_headers_iterate:
  assumes "buffer_inv b" "ctx_state c = kExpectHeaders"
    and "\<forall>kv \<in> set kvs. CHR 0x0D \<notin> set (fst kv) \<and> CHR '':'' \<notin> set (fst kv) \<and> CHR 0x0D \<notin> set (snd kv)"
    and "readable b = concat (map header_line kvs) @ rest"
  shows "\<exists>b'. iterates parseResponse_step (c, b)
      (c\<lparr>ctx_response := foldl (\<lambda>r kv. addHeader_resp (fst kv) (CHR '' '' # snd kv) r) (ctx_response c) kvs\<rparr>, b') \<and>
    buffer_inv b' \<and> readable b' = rest"
  using assms
proof (induction kvs arbitrary: c b)
  case Nil
  then show ?case by (auto intro: iterates.here)
next
  case (Cons kv kvs)
  let ?c = "c\<lparr>ctx_response := addHeader_resp (fst kv) (CHR '' '' # snd kv) (ctx_response c)\<rparr>"
  obtain b1 where b1: "parseResponse_step (c, b) = Inr (More (?c, b1))" "buffer_inv b1"
    "readable b1 = concat (map header_line kvs) @ rest"
    using resp_header_step [OF Cons.prems(1,2), of kv "concat (map header_line kvs) @ rest"] Cons.prems
    by auto
  then obtain b' where "iterates parseResponse_step (?c, b1)
      (?c\<lparr>ctx_response := foldl (\<lambda>r kv. addHeader_resp (fst kv) (CHR '' '' # snd kv) r) (ctx_response ?c) kvs\<rparr>, b')"
    "buffer_inv b'" "readable b' = rest"
    using Cons.IH [of b1 ?c] Cons.prems by auto
  with b1(1) show ?case by (auto intro: iterates.more)
qed

lemma resp_body_iterates:
  assumes "buffer_inv b" "ctx_state c = kExpectHeaders" "readable b = kCRLF @ rest"
  shows "\<exists>b'. run_loop parseResponse_step (c, b) =
      Some (Inr (True, c\<lparr>ctx_state := kGotAll, ctx_response := setBody_resp rest (ctx_response c)\<rparr>, b')) \<and>
    buffer_inv b' \<and> readable b' = []"
proof -
  note nl = next_line [OF assms(1), of "[]" rest, simplified, OF assms(3)]
  let ?b = "retrieveUntil b (peek b + 2)"
  have "parseResponse_step (c, b) = Inr (More (c\<lparr>ctx_state := kExpectBody\<rparr>, ?b))"
    using nl by (simp add: parseResponse_step_def assms(2) Let_def)
  note one = run_loop_More [where step = parseResponse_step, OF this]
  have "parseResponse_step (c\<lparr>ctx_state := kExpectBody\<rparr>, ?b) =
      Inr (Done True (c\<lparr>ctx_state := kGotAll, ctx_response := setBody_resp rest (ctx_response c)\<rparr>,
        retrieveAll ?b))"
    using retrieveAllAsString_ok nl(3,4) by (cases c) (simp add: parseResponse_step_def)
  note two = run_loop_Done [where step = parseResponse_step, OF this]
  show ?thesis using one two nl(4) by auto
qed

lemma add_resp_headers_eq:
  "foldl (\<lambda>r kv. addHeader_resp (fst kv) (CHR '' '' # snd kv) r) r kvs =
     r\<lparr>resp_headers := foldl (\<lambda>m kv. smap_put (fst kv) (CHR '' '' # snd kv) m) (resp_headers r) kvs\<rparr>"
  by (induction kvs arbitrary: r) (simp_all add: addHeader_resp_def)

text \<open>
  The bytes that \<open>appendToBuffer\<close> prints for a response are parsed by \<open>parseResponse\<close>
  in one call: the status code is recovered, every header is recovered with the blank
  after the colon kept in front of its value, and the body is everything that follows
  the empty line, whatever Content-Length says.
\<close>

theorem parseResponse_printed:
  assumes "buffer_inv b" "wf_response r" "readable b = response_bytes r @ rest"
  shows "\<exists>b'. parseResponse t HttpContext_ctor b =
      Some (Inr (True, HttpContext_ctor\<lparr>ctx_state := kGotAll,
        ctx_response := HttpResponse_default\<lparr>resp_statusCode := resp_statusCode r,
          resp_headers := foldl (\<lambda>m kv. smap_put (fst kv) (CHR '' '' # snd kv) m) []
             (framing_headers r @ resp_headers r),
          resp_body := resp_body r @ rest\<rparr>\<rparr>, b')) \<and>
    buffer_inv b' \<and> readable b' = []"
proof -
  let ?hs = "framing_headers r @ resp_headers r"
  let ?c1 = "HttpContext_ctor\<lparr>ctx_state := kExpectHeaders,
      ctx_response := (ctx_response HttpContext_ctor)\<lparr>resp_statusCode := resp_statusCode r\<rparr>\<rparr>"
  let ?c2 = "?c1\<lparr>ctx_response := foldl (\<lambda>r kv. addHeader_resp (fst kv) (CHR '' '' # snd kv) r)
      (ctx_response ?c1) ?hs\<rparr>"
  obtain b1 where b1: "parseResponse_step (HttpContext_ctor, b) = Inr (More (?c1, b1))"
    "buffer_inv b1" "readable b1 = concat (map header_line ?hs) @ kCRLF @ resp_body r @ rest"
    using status_line_step [OF assms(1) _ assms(2), of HttpContext_ctor
        "concat (map header_line ?hs) @ kCRLF @ resp_body r @ rest"] assms(3)
    by (auto simp: response_bytes_def HttpContext_ctor_def)
  have wf: "\<forall>kv \<in> set ?hs. CHR 0x0D \<notin> set (fst kv) \<and> CHR '':'' \<notin> set (fst kv) \<and> CHR 0x0D \<notin> set (snd kv)"
    using assms(2) by (auto simp: wf_response_def framing_headers_def)
  obtain b2 where b2: "iterates parseResponse_step (?c1, b1) (?c2, b2)"
    "buffer_inv b2" "readable b2 = kCRLF @ resp_body r @ rest"
    using resp_headers_iterate [OF b1(2) _ wf b1(3), of ?c1] by auto
  obtain b3 where b3: "run_loop parseResponse_step (?c2, b2) =
      Some (Inr (True, ?c2\<lparr>ctx_state := kGotAll,
        ctx_response := setBody_resp (resp_body r @ rest) (ctx_response ?c2)\<rparr>, b3))"
    "buffer_inv b3" "readable b3 = []"
    using resp_body_iterates [OF b2(2) _ b2(3), of ?c2] by auto
  have "parseResponse t HttpContext_ctor b = run_loop parseResponse_step (?c2, b2)"
    unfolding parseResponse_def run_loop_More [where step = parseResponse_step, OF b1(1)]
    by (rule run_loop_iterates [OF b2(1)])
  then show ?thesis
    using b3 by (simp add: add_resp_headers_eq setBody_resp_def HttpContext_ctor_def HttpResponse_default_def)
qed

theorem parseResponse_printed_witness:
  "\<exists>c' b'. parseResponse 0 HttpContext_ctor
       (append_buf (Buffer_ctor 8)
         (response_bytes (setBody_resp ''hi'' (setStatusCode 200 (HttpResponse_ctor True)))))
     = Some (Inr (True, c', b')) \<and> resp_statusCode (ctx_response c') = k200Ok \<and>
     resp_headers (ctx_response c') = [(''Connection'', '' close'')] \<and> resp_body (ctx_response c') = ''hi''"
  using parseResponse_printed [of "append_buf (Buffer_ctor 8)
         (response_bytes (setBody_resp ''hi'' (setStatusCode 200 (HttpResponse_ctor True))))"
      "setBody_resp ''hi'' (setStatusCode 200 (HttpResponse_ctor True))" "[]" 0]
  by (auto simp: wf_response_def setBody_resp_def setStatusCode_def HttpResponse_ctor_def
      framing_headers_def)

subsection \<open>What the parsers keep\<close>

text \<open>
  A context and a buffer of the types the code means: the buffer's indices in order and both
  header maps sorted with distinct keys. \<open>parsed_from inp\<close> adds that the buffer holds the end of
  the bytes \<open>inp\<close>.
\<close>

definition ctx_ok :: "http_context \<Rightarrow> bool" where
  "ctx_ok c \<longleftrightarrow> smap_ok (req_headers (ctx_request c)) \<and> smap_ok (resp_headers (ctx_response c))"

definition rest_of :: "bytes \<Rightarrow> buffer \<Rightarrow> bool" where
  "rest_of inp b \<longleftrightarrow> (\<exists>used. inp = used @ readable b)"

definition parsed_from :: "bytes \<Rightarrow> http_context \<times> buffer \<Rightarrow> bool" where
  "parsed_from inp s \<longleftrightarrow> ctx_ok (fst s) \<and> buffer_inv (snd s) \<and> rest_of inp (snd s)"

lemma processRequestLine_headers:
  assumes "processRequestLine line r = Inr (ok, r')"
  shows "req_headers r' = req_headers r"
  using assms
  by (auto simp: processRequestLine_def setMethod_def setPath_def setQuery_def setVersion_def Let_def res_simps
      split: if_splits)

lemma parsed_line:
  assumes "buffer_inv b" "findCRLF b = Some crlf" "rest_of inp b"
  shows "rest_of inp (retrieveUntil b (crlf + 2))"
  using findCRLF_SomeE [OF assms(2,1)] assms(3) unfolding rest_of_def by (metis append.assoc)

lemma parsed_drop: "rest_of inp b \<Longrightarrow> buffer_inv b \<Longrightarrow> rest_of inp (retrieve b n)" "rest_of inp b \<Longrightarrow> rest_of inp (retrieveAll b)"
  unfolding rest_of_def by (metis append.assoc append_take_drop_id readable_retrieve) simp

lemma parseRequest_step_keeps:
  assumes "parsed_from inp s"
  shows "parseRequest_step t s = Inr (More s') \<Longrightarrow> parsed_from inp s'"
    and "parseRequest_step t s = Inr (Done ok s') \<Longrightarrow> parsed_from inp s'"
proof -
  obtain c b where s: "s = (c, b)" "ctx_ok c" "buffer_inv b" "rest_of inp b"
    using assms by (cases s) (auto simp: parsed_from_def)
  note keep = retrieveUntil_shrinks(1) [OF _ s(3)] parsed_line [OF s(3) _ s(4)] parsed_drop(1) [OF s(4,3)] parsed_drop(2) [OF s(4)]
  show "parseRequest_step t s = Inr (More s') \<Longrightarrow> parsed_from inp s'"
    using s keep
    by (auto simp: parseRequest_step_def parsed_from_def ctx_ok_def res_simps Let_def setReceiveTime_def
        addHeader_line_def dest: processRequestLine_headers split: parse_state.splits option.splits if_splits)
  show "parseRequest_step t s = Inr (Done ok s') \<Longrightarrow> parsed_from inp s'"
    using s keep retrieveAllAsString_ok [OF s(3)]
    by (auto simp: parseRequest_step_def parsed_from_def ctx_ok_def res_simps Let_def setBody_def
        dest: processRequestLine_headers split: parse_state.splits option.splits if_splits)
qed

lemma parseResponse_step_keeps:
  assumes "parsed_from inp s"
  shows "parseResponse_step s = Inr (More s') \<Longrightarrow> parsed_from inp s'"
    and "parseResponse_step s = Inr (Done ok s') \<Longrightarrow> parsed_from inp s'"
proof -
  obtain c b where s: "s = (c, b)" "ctx_ok c" "buffer_inv b" "rest_of inp b"
    using assms by (cases s) (auto simp: parsed_from_def)
  note keep = retrieveUntil_shrinks(1) [OF _ s(3)] parsed_line [OF s(3) _ s(4)] parsed_drop(2) [OF s(4)]
  show "parseResponse_step s = Inr (More s') \<Longrightarrow> parsed_from inp s'"
    using s keep
    by (auto simp: parseResponse_step_def parsed_from_def ctx_ok_def res_simps Let_def setStatusCode_def
        addHeader_resp_def split: parse_state.splits option.splits if_splits)
  show "parseResponse_step s = Inr (Done ok s') \<Longrightarrow> parsed_from inp s'"
    using s keep retrieveAllAsString_ok [OF s(3)]
    by (auto simp: parseResponse_step_def parsed_from_def ctx_ok_def res_simps Let_def setBody_resp_def
        split: parse_state.splits option.splits if_splits)
qed



end
