(* ===== verification/HttpServer.thy ===== *)
theory HttpServer
  imports HttpContext TcpConnection
begin

text \<open>
  The HTTP server's callbacks (\<^verbatim>\<open>src/http/HttpServer.h\<close>, \<^verbatim>\<open>HttpServer.cc\<close>), on the connection of
  theory \<open>TcpConnection\<close>: its context, a \<^verbatim>\<open>boost::any\<close>, is absent or holds the parser's context.
  The application's \<^verbatim>\<open>httpCallback_\<close> is a parameter from a request and a response to a
  response. A parse that never returns is the fault \<^const>\<open>Hang\<close>.

  What is shown: a well-formed request that has arrived is answered by exactly the bytes of
  the response the application makes, the rest of the input stays for the next message, and
  the connection is shut down exactly when the response says so; a malformed request is
  answered by the 400 message and a shutdown. Only one request is handled per message.
\<close>

type_synonym ('f, 'z) http_st = "('f, http_context option, 'z) conn_st"

type_synonym http_callback = "http_request \<Rightarrow> http_response \<Rightarrow> http_response res"

definition defaultHttpCallback :: http_callback where
  "defaultHttpCallback req resp =
     Inr (setCloseConnection True (setStatusMessage ''Not Found'' (setStatusCode_enum k404NotFound resp)))"

definition onConnection :: "('f, 'z) http_st \<Rightarrow> ('f, 'z) http_st res" where
  "onConnection st =
     (case st of (cn, s) \<Rightarrow>
        if connected cn then Inr (setContext (Some HttpContext_ctor) cn, s) else Inr (cn, s))"

definition wants_close :: "http_request \<Rightarrow> bool" where
  "wants_close req \<longleftrightarrow>
     (let connection = getHeader ''Connection'' req
      in connection = ''close'' \<or> (req_version req = kHttp10 \<and> connection \<noteq> ''Keep-Alive''))"

text \<open>\<open>addr\<close> is the address of the local buffer's storage, which a queued send would keep.\<close>

definition onRequest ::
  "kernel \<Rightarrow> int \<Rightarrow> (nat \<Rightarrow> nat \<Rightarrow> 'f) \<Rightarrow> 'f \<Rightarrow> nat \<Rightarrow> http_callback option \<Rightarrow> http_request \<Rightarrow>
   ('f, 'z) http_st \<Rightarrow> ('f, 'z) http_st res" where
  "onRequest K tid bnd shf addr httpCallback req st =
     rbind (case httpCallback of
              None \<Rightarrow> Inl BadFunctionCall
            | Some cb \<Rightarrow> cb req (HttpResponse_ctor (wants_close req))) (\<lambda>response.
     rbind (send_Buffer K tid bnd addr (appendToBuffer response (Buffer_ctor kInitialSize)) st) (\<lambda>(_, st1).
       if resp_closeConnection response then shutdown tid shf st1 else Inr st1))"

definition bad_request_msg :: string where
  "bad_request_msg = ''HTTP/1.1 400 Bad Request'' @ kCRLF @ kCRLF"

definition onMessage ::
  "kernel \<Rightarrow> int \<Rightarrow> (nat \<Rightarrow> nat \<Rightarrow> 'f) \<Rightarrow> 'f \<Rightarrow> nat \<Rightarrow> http_callback option \<Rightarrow> timestamp \<Rightarrow>
   ('f, 'z) http_st \<Rightarrow> ('f, 'z) http_st res" where
  "onMessage K tid bnd shf addr httpCallback receiveTime st =
     (case st of (cn, s) \<Rightarrow>
        case conn_context cn of
          None \<Rightarrow> Inl NullDeref
        | Some context \<Rightarrow>
            (case parseRequest receiveTime context (inputBuffer cn) of
               None \<Rightarrow> Inl Hang
             | Some (Inl e) \<Rightarrow> Inl e
             | Some (Inr (ok, context1, buf1)) \<Rightarrow>
                 let cn1 = cn\<lparr>inputBuffer := buf1, conn_context := Some context1\<rparr>
                 in rbind (if \<not> ok then
                             rbind (send K tid bnd addr bad_request_msg (cn1, s)) (shutdown tid shf)
                           else Inr (cn1, s)) (\<lambda>st2.
                      if gotAll context1 then
                        rbind (onRequest K tid bnd shf addr httpCallback (ctx_request context1) st2) (\<lambda>(cn3, s3).
                          Inr (setContext (Some (reset_ctx context1)) cn3, s3))
                      else Inr st2)))"

subsection \<open>What one message does to the connection's output\<close>

text \<open>Sending does not depend on the input buffer nor on the context.\<close>

lemma send_direct_frame:
  "send_direct K tid d ch (cn\<lparr>inputBuffer := b\<rparr>, s) = send_direct K tid d ch (cn, s)"
  by (simp add: send_direct_def Let_def split: write_ret.split)

lemma takes_frame: "takes K tid d (cn\<lparr>inputBuffer := b\<rparr>, s) = takes K tid d (cn, s)"
  by (simp add: takes_def send_direct_frame split: option.split)

lemma conn_update_order:
  "cn\<lparr>inputBuffer := b, outputBuffer := out\<rparr> = cn\<lparr>outputBuffer := out, inputBuffer := b\<rparr>"
  by (cases cn) simp

lemma sendInLoop_frame:
  "sendInLoop K tid d (cn\<lparr>inputBuffer := b\<rparr>, s) =
     rbind (sendInLoop K tid d (cn, s)) (\<lambda>(cn', s'). Inr (cn'\<lparr>inputBuffer := b\<rparr>, s'))"
  by (auto simp: sendInLoop_def with_channel_def send_direct_frame Let_def rbind_def conn_update_order
      split: option.splits prod.splits if_splits sum.splits)

text \<open>
  Sending on a live connection, seen from the moment it begins: the history fields of the
  loop's state start here.
\<close>

definition fresh_history :: "('f, 'c, 'z) client_st \<Rightarrow> bool" where
  "fresh_history st \<longleftrightarrow>
     (case st of (cn, s) \<Rightarrow>
        accepted_bytes s = readable (outputBuffer cn) \<and> consumed_bytes s = [] \<and> born s = length (trace s))"

lemma fresh_stream:
  assumes "conn_inv (cn, s)" "fresh_history (cn, s)" "conn_state cn = kConnected"
  shows "stream_inv (cn\<lparr>inputBuffer := Buffer_ctor 0\<rparr>, s)"
  using assms by (simp add: stream_inv_def conn_inv_def fresh_history_def io_inv_def life_def)

lemma send_output:
  assumes K: "ctl_sound K" "write_sound K" and inv: "conn_inv (cn, s)" "fresh_history (cn, s)"
    and st: "conn_state cn = kConnected" and t: "takes K (threadId s) d (cn, s)"
  obtains out s' where "sendInLoop K (threadId s) d (cn, s) = Inr (cn\<lparr>outputBuffer := out\<rparr>, s')"
    "buffer_inv out" "sent (conn_fd cn) (life s') @ readable out = readable (outputBuffer cn) @ d"
    "threadId s' = threadId s"
    "stream_inv (cn\<lparr>inputBuffer := Buffer_ctor 0, outputBuffer := out\<rparr>, s'\<lparr>accepted_bytes := accepted_bytes s @ d\<rparr>)"
proof -
  let ?cn = "cn\<lparr>inputBuffer := Buffer_ctor 0\<rparr>"
  have s0: "stream_inv (?cn, s)" by (rule fresh_stream [OF inv st])
  obtain out s' where s': "sendInLoop K (threadId s) d (?cn, s) = Inr (?cn\<lparr>outputBuffer := out\<rparr>, s')"
    "stream_inv (?cn\<lparr>outputBuffer := out\<rparr>, s'\<lparr>accepted_bytes := accepted_bytes s @ d\<rparr>)" "threadId s' = threadId s"
    using sendInLoop_inv [OF K s0, of "threadId s" d] st t by (auto simp: takes_frame)
  obtain cn' where cn': "sendInLoop K (threadId s) d (cn, s) = Inr (cn', s')"
    "cn'\<lparr>inputBuffer := Buffer_ctor 0\<rparr> = ?cn\<lparr>outputBuffer := out\<rparr>"
    using s'(1) unfolding sendInLoop_frame by (auto simp: rbind_eq_Inr)
  have "inputBuffer cn' = inputBuffer cn"
    using cn'(1) by (auto simp: sendInLoop_def with_channel_def Let_def rbind_eq_Inr
        split: option.splits prod.splits if_splits)
  with cn'(2) have "cn' = cn\<lparr>outputBuffer := out\<rparr>" by (cases cn; cases cn') simp
  moreover have "buffer_inv out" "sent (conn_fd cn) (life s') @ readable out = readable (outputBuffer cn) @ d"
    using s'(2) inv(2) by (auto simp: stream_inv_def conn_inv_def io_inv_def fresh_history_def life_def)
  ultimately show thesis using that cn'(1) s' by simp
qed

text \<open>A kernel on which the peer has not reset the connection.\<close>

definition never_reset :: "kernel \<Rightarrow> bool" where
  "never_reset K \<longleftrightarrow> (\<forall>tr fd d e. k_write K tr fd d = WriteErr e \<longrightarrow> e \<noteq> EPIPE \<and> e \<noteq> ECONNRESET)"

lemma never_reset_takes:
  assumes "never_reset K" "conn_inv (cn, s)" "conn_state cn = kConnected"
  shows "takes K tid d (cn, s)"
proof (cases "k_write K (trace s) (conn_fd cn) d")
  case (WriteErr e)
  then have "e \<noteq> EPIPE" "e \<noteq> ECONNRESET" using assms(1) by (auto simp: never_reset_def)
  with WriteErr assms show ?thesis
    by (auto simp: takes_def conn_inv_def send_direct_def Let_def split: option.split)
qed (use assms in \<open>auto simp: takes_def conn_inv_def send_direct_def Let_def split: option.split\<close>)

text \<open>When the socket takes everything at once, nothing is left to be sent later.\<close>

lemma sendInLoop_all:
  assumes "conn_inv (cn, s)" "conn_state cn = kConnected" "readable (outputBuffer cn) = []"
    "k_write K (trace s) (conn_fd cn) d = WriteDone (length d)"
    "sendInLoop K tid d (cn, s) = Inr (cn\<lparr>outputBuffer := out\<rparr>, s')"
  shows "readable out = []"
proof -
  obtain ch where ch: "heap s (conn_channel cn) = Some ch" "\<not> isWriting ch" "ch_fd ch = conn_fd cn"
    "buffer_inv (outputBuffer cn)"
    using assms(1,3) by (auto simp: conn_inv_def)
  have "readableBytes (outputBuffer cn) = 0" using assms(3) ch(4) by (simp flip: length_readable)
  with assms(2,4) ch have "\<exists>s1. sendInLoop K tid d (cn, s) = Inr (cn, s1)"
    by (simp add: sendInLoop_def with_channel_def send_direct_def Let_def)
  with assms(5) have "cn = cn\<lparr>outputBuffer := out\<rparr>" by auto
  then have "outputBuffer cn = out" by (metis tcp_connection.select_convs(12) tcp_connection.update_convs(12) tcp_connection.surjective)
  with assms(3) show ?thesis by simp
qed

text \<open>The first bytes sent on a connection that was just established.\<close>

lemma send_first:
  assumes K: "ctl_sound K" "write_sound K" "never_reset K" and inv: "conn_inv (cn, s)"
    and st: "conn_state cn = kConnected" "readable (outputBuffer cn) = []" "readable (inputBuffer cn) = []"
    and h: "accepted_bytes s = []" "consumed_bytes s = []" "born s \<le> length (trace s)"
      "life s = [SockKeepAlive fd, EpollCtl op fd ev c True]"
  obtains out s' where "sendInLoop K (threadId s) d (cn, s) = Inr (cn\<lparr>outputBuffer := out\<rparr>, s')"
    "sent (conn_fd cn) (life s') @ readable out = d" "event_loop.more s' = event_loop.more s"
    "conn_inv (cn\<lparr>outputBuffer := out\<rparr>, s')" "threadId s' = threadId s" "born s' \<le> length (trace s')"
    "k_write K (trace s) (conn_fd cn) d = WriteDone (length d) \<longrightarrow> readable out = []"
proof -
  have "stream_inv (cn, s)"
    using inv h st unfolding stream_inv_def io_inv_def by simp
  from sendInLoop_inv [OF K(1,2) this st(1), of "threadId s" d] never_reset_takes [OF K(3) inv st(1)]
  obtain out s' where s': "sendInLoop K (threadId s) d (cn, s) = Inr (cn\<lparr>outputBuffer := out\<rparr>, s')"
    "stream_inv (cn\<lparr>outputBuffer := out\<rparr>, s'\<lparr>accepted_bytes := accepted_bytes s @ d\<rparr>)" "threadId s' = threadId s" by auto
  have "sent (conn_fd cn) (life s') @ readable out = d" "conn_inv (cn\<lparr>outputBuffer := out\<rparr>, s')"
    "born s' \<le> length (trace s')"
    using s'(2) h(1)
    by (simp_all add: stream_inv_def io_inv_def life_def conn_inv_def poller_inv_def channel_ok_def can_register_def)
  with s'(1,3) sendInLoop_more [OF s'(1)] sendInLoop_all [OF inv st(1,2) _ s'(1)] show thesis by (intro that) blast+
qed

lemma shutdown_output:
  assumes inv: "stream_inv (cn, s)" and st: "conn_state cn = kConnected"
    and c: "conn_state cn' = kConnected" "conn_channel cn' = conn_channel cn" "conn_fd cn' = conn_fd cn"
    and s': "heap s' = heap s" "tid = threadId s'"
  shows "shutdown tid shf (cn', s') =
    Inr (setState kDisconnecting cn',
      if readable (outputBuffer cn) = [] then log_sys (SockShutdownWr (conn_fd cn)) s' else s')"
proof -
  obtain ch where "heap s (conn_channel cn) = Some ch" "isWriting ch \<longleftrightarrow> readable (outputBuffer cn) \<noteq> []"
    using stream_invD [OF inv] st by (metis conn_state.distinct(3))
  with st s' c show ?thesis
    by (simp add: shutdown_def isInLoopThread_def shutdownInLoop_def with_channel_def setState_def)
qed

lemma send_shutdown_output:
  assumes K: "ctl_sound K" "write_sound K" "never_reset K"
    and inv: "conn_inv (cn, s)" "fresh_history (cn, s)" and st: "conn_state cn = kConnected"
  obtains out s1 s2 where "sendInLoop K (threadId s) d (cn, s) = Inr (cn\<lparr>outputBuffer := out\<rparr>, s1)"
    "sent (conn_fd cn) (life s1) @ readable out = readable (outputBuffer cn) @ d"
    "SockShutdownWr (conn_fd cn) \<notin> set (life s1)"
    "shutdown (threadId s) shf (cn\<lparr>outputBuffer := out\<rparr>, s1) =
       Inr (setState kDisconnecting (cn\<lparr>outputBuffer := out\<rparr>), s2)"
    "sent (conn_fd cn) (life s2) @ readable out = readable (outputBuffer cn) @ d"
    "SockShutdownWr (conn_fd cn) \<in> set (life s2) \<longleftrightarrow> readable out = []"
proof -
  obtain out s1 where s1: "sendInLoop K (threadId s) d (cn, s) = Inr (cn\<lparr>outputBuffer := out\<rparr>, s1)"
    "buffer_inv out" "sent (conn_fd cn) (life s1) @ readable out = readable (outputBuffer cn) @ d"
    "threadId s1 = threadId s"
    "stream_inv (cn\<lparr>inputBuffer := Buffer_ctor 0, outputBuffer := out\<rparr>, s1\<lparr>accepted_bytes := accepted_bytes s @ d\<rparr>)"
    by (rule send_output [OF K(1,2) inv st never_reset_takes [OF K(3) inv(1) st]])
  have no: "SockShutdownWr (conn_fd cn) \<notin> set (life s1)"
    using s1(5) st by (auto simp: stream_inv_def io_inv_def life_def)
  let ?s2 = "if readable out = [] then log_sys (SockShutdownWr (conn_fd cn)) s1 else s1"
  have sh: "shutdown (threadId s) shf (cn\<lparr>outputBuffer := out\<rparr>, s1) =
      Inr (setState kDisconnecting (cn\<lparr>outputBuffer := out\<rparr>), ?s2)"
    using shutdown_output [OF s1(5), of "cn\<lparr>outputBuffer := out\<rparr>" s1 "threadId s" shf] st s1(4) by simp
  have "born s1 \<le> length (trace s1)" using s1(5) by (simp add: stream_inv_def)
  then have "sent (conn_fd cn) (life ?s2) = sent (conn_fd cn) (life s1)"
    "SockShutdownWr (conn_fd cn) \<in> set (life ?s2) \<longleftrightarrow> readable out = []"
    using no by (simp_all add: life_def log_sys_def)
  with s1(1,3) no sh show thesis by (intro that [of out s1 ?s2]) simp_all
qed

lemma answer_output:
  assumes K: "ctl_sound K" "write_sound K" "never_reset K"
    and inv: "conn_inv (cn, s)" "fresh_history (cn, s)" and st: "conn_state cn = kConnected"
    and resp: "cb req (HttpResponse_ctor (wants_close req)) = Inr resp" "length (resp_body resp) < 10 ^ 13"
  obtains cn' s' where "onRequest K (threadId s) bnd shf addr (Some cb) req (cn, s) = Inr (cn', s')"
    "sent (conn_fd cn) (life s') @ readable (outputBuffer cn') = readable (outputBuffer cn) @ response_bytes resp"
    "inputBuffer cn' = inputBuffer cn" "conn_fd cn' = conn_fd cn"
    "conn_state cn' = (if resp_closeConnection resp then kDisconnecting else kConnected)"
    "SockShutdownWr (conn_fd cn) \<in> set (life s') \<longleftrightarrow>
       resp_closeConnection resp \<and> readable (outputBuffer cn') = []"
proof -
  let ?b = "appendToBuffer resp (Buffer_ctor kInitialSize)"
  have b: "buffer_inv ?b" "readable ?b = response_bytes resp"
    using appendToBuffer_bytes [OF buffer_inv_ctor resp(2), of kInitialSize] by simp_all
  obtain out s1 s2 where s1: "sendInLoop K (threadId s) (response_bytes resp) (cn, s) = Inr (cn\<lparr>outputBuffer := out\<rparr>, s1)"
    "sent (conn_fd cn) (life s1) @ readable out = readable (outputBuffer cn) @ response_bytes resp"
    "SockShutdownWr (conn_fd cn) \<notin> set (life s1)"
    "shutdown (threadId s) shf (cn\<lparr>outputBuffer := out\<rparr>, s1) =
       Inr (setState kDisconnecting (cn\<lparr>outputBuffer := out\<rparr>), s2)"
    "sent (conn_fd cn) (life s2) @ readable out = readable (outputBuffer cn) @ response_bytes resp"
    "SockShutdownWr (conn_fd cn) \<in> set (life s2) \<longleftrightarrow> readable out = []"
    by (rule send_shutdown_output [OF K inv st])
  have send: "send_Buffer K (threadId s) bnd addr ?b (cn, s) = Inr (retrieveAll ?b, cn\<lparr>outputBuffer := out\<rparr>, s1)"
    using s1(1) st b by (simp add: send_Buffer_def isInLoopThread_def readable_mem)
  let ?cn = "cn\<lparr>outputBuffer := out\<rparr>"
  show thesis
  proof (cases "resp_closeConnection resp")
    case False
    with send resp(1) s1 st show thesis
      by (intro that [of ?cn s1]) (simp_all add: onRequest_def)
  next
    case True
    with send resp(1) s1 show thesis
      by (intro that [of "setState kDisconnecting ?cn" s2]) (simp_all add: onRequest_def setState_def)
  qed
qed

lemma refuse_output:
  assumes K: "ctl_sound K" "write_sound K" "never_reset K"
    and inv: "conn_inv (cn, s)" "fresh_history (cn, s)" and st: "conn_state cn = kConnected"
  obtains cn' s' where
    "rbind (send K (threadId s) bnd addr bad_request_msg (cn, s)) (shutdown (threadId s) shf) = Inr (cn', s')"
    "sent (conn_fd cn) (life s') @ readable (outputBuffer cn') = readable (outputBuffer cn) @ bad_request_msg"
    "inputBuffer cn' = inputBuffer cn" "conn_state cn' = kDisconnecting"
    "SockShutdownWr (conn_fd cn) \<in> set (life s') \<longleftrightarrow> readable (outputBuffer cn') = []"
proof (rule send_shutdown_output [OF K inv st])
  fix out s1 s2
  assume "sendInLoop K (threadId s) bad_request_msg (cn, s) = Inr (cn\<lparr>outputBuffer := out\<rparr>, s1)"
    "shutdown (threadId s) shf (cn\<lparr>outputBuffer := out\<rparr>, s1) =
       Inr (setState kDisconnecting (cn\<lparr>outputBuffer := out\<rparr>), s2)"
    "sent (conn_fd cn) (life s2) @ readable out = readable (outputBuffer cn) @ bad_request_msg"
    "SockShutdownWr (conn_fd cn) \<in> set (life s2) \<longleftrightarrow> readable out = []"
  then show thesis
    by (intro that [of "setState kDisconnecting (cn\<lparr>outputBuffer := out\<rparr>)" s2])
       (simp_all add: send_def isInLoopThread_def st setState_def)
qed

text \<open>A request as it is handed to the application, and the buffers it arrives in.\<close>

definition request_arrived :: "http_request \<Rightarrow> bytes \<Rightarrow> buffer \<Rightarrow> bool" where
  "request_arrived r rest b \<longleftrightarrow>
     wf_request r \<and> buffer_inv b \<and> readable b = request_head r @ req_body r @ rest \<and>
     (if req_method r = kPost
      then getHeader ''Content-Length'' r = dec (length (req_body r)) \<and> length (req_body r) < 2 ^ 31
      else req_body r = [])"

definition request_seen :: "timestamp \<Rightarrow> string \<Rightarrow> http_request \<Rightarrow> http_request" where
  "request_seen t old r = r\<lparr>req_receiveTime := t, req_body := if req_method r = kPost then req_body r else old\<rparr>"

lemma wants_close_seen [simp]: "wants_close (request_seen t old r) = wants_close r"
  by (simp add: wants_close_def request_seen_def getHeader_def)

lemma arrived_parse:
  assumes "request_arrived r rest b"
  obtains b' where
    "parseRequest t (ready_ctx old) b =
       Some (Inr (True, (ready_ctx old)\<lparr>ctx_state := kGotAll, ctx_request := request_seen t old r\<rparr>, b'))"
    "buffer_inv b'" "readable b' = rest"
  using parse_printed [of r b rest t old] assms by (auto simp: request_arrived_def request_seen_def)

lemma reset_seen:
  "reset_ctx ((ready_ctx old)\<lparr>ctx_state := kGotAll, ctx_request := request_seen t old r\<rparr>) =
     ready_ctx (req_body (request_seen t old r))"
  by (subst ready_ctx_reset) (simp_all add: ready_ctx_def HttpContext_ctor_def)

lemma conn_inv_input:
  assumes "conn_inv (cn, s)" "buffer_inv b"
  shows "conn_inv (cn\<lparr>inputBuffer := b, conn_context := c\<rparr>, s)"
  using assms by (simp add: conn_inv_def)

lemma message_answered:
  assumes "ctl_sound K" "write_sound K" "never_reset K"
    and "conn_inv (cn, s)" "fresh_history (cn, s)" "conn_state cn = kConnected"
    and "conn_context cn = Some (ready_ctx old)" "request_arrived r rest (inputBuffer cn)"
    and "cb (request_seen t old r) (HttpResponse_ctor (wants_close r)) = Inr resp"
    and "length (resp_body resp) < 10 ^ 13"
  shows "\<exists>cn' s'. onMessage K (threadId s) bnd shf addr (Some cb) t (cn, s) = Inr (cn', s') \<and>
    sent (conn_fd cn) (life s') @ readable (outputBuffer cn') =
      readable (outputBuffer cn) @ response_bytes resp \<and>
    readable (inputBuffer cn') = rest \<and>
    conn_context cn' = Some (ready_ctx (if req_method r = kPost then req_body r else old)) \<and>
    conn_state cn' = (if resp_closeConnection resp then kDisconnecting else kConnected) \<and>
    (SockShutdownWr (conn_fd cn) \<in> set (life s') \<longleftrightarrow>
       resp_closeConnection resp \<and> readable (outputBuffer cn') = [])"
proof -
  obtain b' where b': "parseRequest t (ready_ctx old) (inputBuffer cn) =
       Some (Inr (True, (ready_ctx old)\<lparr>ctx_state := kGotAll, ctx_request := request_seen t old r\<rparr>, b'))"
    "buffer_inv b'" "readable b' = rest"
    by (rule arrived_parse [OF assms(8)])
  let ?ctx = "(ready_ctx old)\<lparr>ctx_state := kGotAll, ctx_request := request_seen t old r\<rparr>"
  let ?cn = "cn\<lparr>inputBuffer := b', conn_context := Some ?ctx\<rparr>"
  have c: "conn_inv (?cn, s)" "fresh_history (?cn, s)" "conn_state ?cn = kConnected"
    using assms(5,6) conn_inv_input [OF assms(4) b'(2)] by (simp_all add: fresh_history_def)
  obtain cn' s' where r: "onRequest K (threadId s) bnd shf addr (Some cb) (request_seen t old r) (?cn, s) = Inr (cn', s')"
    "sent (conn_fd ?cn) (life s') @ readable (outputBuffer cn') = readable (outputBuffer ?cn) @ response_bytes resp"
    "inputBuffer cn' = inputBuffer ?cn" "conn_fd cn' = conn_fd ?cn"
    "conn_state cn' = (if resp_closeConnection resp then kDisconnecting else kConnected)"
    "SockShutdownWr (conn_fd ?cn) \<in> set (life s') \<longleftrightarrow> resp_closeConnection resp \<and> readable (outputBuffer cn') = []"
    by (rule answer_output [OF assms(1-3) c, of cb "request_seen t old r" resp bnd shf addr])
       (use assms(9,10) in simp_all)
  have "gotAll ?ctx" "req_body (request_seen t old r) = (if req_method r = kPost then req_body r else old)"
    by (simp_all add: gotAll_def request_seen_def)
  with assms(7) b' r show ?thesis
    by (simp add: onMessage_def reset_seen setContext_def)
qed

text \<open>
  C8: a well-formed request that has arrived completely on a live connection, whatever follows
  it in the input buffer, is handed to the application as it was printed (its body only if it
  is a POST; otherwise the body left by the request before) and answered by exactly the bytes
  of the response the application makes, in order after what waited for the socket: partly
  written, the rest in the output buffer. What follows stays in the input buffer, the parser
  starts anew, and the connection is shut down exactly when the response asks for it, the
  socket's sending side only once nothing waits.
\<close>

theorem request_answered:
  assumes "ctl_sound K" "write_sound K" "never_reset K"
    and "conn_inv (cn, s)" "fresh_history (cn, s)" "conn_state cn = kConnected"
    and "conn_context cn = Some (ready_ctx old)" "request_arrived r rest (inputBuffer cn)"
    and "cb (request_seen t old r) (HttpResponse_ctor (wants_close r)) = Inr resp"
    and "length (resp_body resp) < 10 ^ 13"
  shows "\<exists>cn' s'. onMessage K (threadId s) bnd shf addr (Some cb) t (cn, s) = Inr (cn', s') \<and>
    sent (conn_fd cn) (life s') @ readable (outputBuffer cn') =
      readable (outputBuffer cn) @ response_bytes resp \<and>
    readable (inputBuffer cn') = rest \<and>
    conn_context cn' = Some (ready_ctx (if req_method r = kPost then req_body r else old)) \<and>
    conn_state cn' = (if resp_closeConnection resp then kDisconnecting else kConnected) \<and>
    (SockShutdownWr (conn_fd cn) \<in> set (life s') \<longleftrightarrow>
       resp_closeConnection resp \<and> readable (outputBuffer cn') = [])"
  by (rule message_answered [where cb = cb and t = t and old = old, OF assms])

text \<open>A connection on which a GET request and the first byte of the next have arrived.\<close>

definition demo_get :: http_request where
  "demo_get = \<lparr>req_method = kGet, req_version = kHttp11, req_path = ''/x'', req_query = [],
     req_body = [], req_receiveTime = 0, req_headers = []\<rparr>"

definition demo_http_conn :: "bytes \<Rightarrow> (nat, http_context option) tcp_connection" where
  "demo_http_conn inp =
     \<lparr>conn_name = ''c'', conn_state = kConnected, conn_reading = True, conn_fd = 5, conn_channel = 1,
      localAddr = \<lparr>sin_family = AF_INET, sin_port = 0, s_addr = 0\<rparr>,
      peerAddr = \<lparr>sin_family = AF_INET, sin_port = 0, s_addr = 0\<rparr>,
      writeCompleteCallback = None, highWaterMarkCallback = None, highWaterMark = 67108864,
      inputBuffer = append_buf (Buffer_ctor 8) inp, outputBuffer = Buffer_ctor kInitialSize,
      conn_context = Some HttpContext_ctor\<rparr>"

definition demo_http_loop :: "nat client_loop" where
  "demo_http_loop = event_loop.extend demo_conn_loop
     \<lparr>accepted_bytes = [], consumed_bytes = [], born = length (trace demo_conn_loop)\<rparr>"

lemma demo_http_loop_sel [simp]:
  "heap demo_http_loop = heap demo_conn_loop" "trace demo_http_loop = trace demo_conn_loop"
  "accepted_bytes demo_http_loop = []" "consumed_bytes demo_http_loop = []"
  "born demo_http_loop = length (trace demo_conn_loop)" "threadId demo_http_loop = 100"
  "poller_inv demo_http_loop = poller_inv demo_conn_loop"
  "can_register demo_http_loop c = can_register demo_conn_loop c"
  using demo_conn_loop_facts(5)
  by (simp_all add: demo_http_loop_def event_loop.defs poller_inv_def channel_ok_def can_register_def)

lemma demo_http_conn_facts:
  "conn_inv (demo_http_conn inp, demo_http_loop)" "fresh_history (demo_http_conn inp, demo_http_loop)"
  using demo_conn_loop_facts
  by (simp_all add: conn_inv_def demo_http_conn_def fresh_history_def Channel_ctor_def isWriting_def)

lemma never_reset_ideal [simp]: "never_reset ideal_kernel"
  by (simp add: never_reset_def ideal_kernel_def)

lemma demo_get_arrived:
  "request_arrived demo_get ''G'' (inputBuffer (demo_http_conn (''GET /x HTTP/1.1'' @ kCRLF @ kCRLF @ ''G'')))"
  by (simp add: request_arrived_def demo_get_def demo_http_conn_def wf_request_def request_head_def
      request_line_def methodString_def)

theorem request_answered_witness:
  "\<exists>cn' s'. onMessage ideal_kernel 100 (\<lambda>a n. 50) 51 7000 (Some defaultHttpCallback) 7
      (demo_http_conn (''GET /x HTTP/1.1'' @ kCRLF @ kCRLF @ ''G''), demo_http_loop) = Inr (cn', s') \<and>
    sent 5 (life s') @ readable (outputBuffer cn') =
      ''HTTP/1.1 404 Not Found'' @ kCRLF @ ''Connection: close'' @ kCRLF @ kCRLF \<and>
    readable (inputBuffer cn') = ''G'' \<and> conn_state cn' = kDisconnecting"
proof -
  let ?cn = "demo_http_conn (''GET /x HTTP/1.1'' @ kCRLF @ kCRLF @ ''G'')"
  let ?resp = "setCloseConnection True (setStatusMessage ''Not Found''
      (setStatusCode_enum k404NotFound (HttpResponse_ctor (wants_close demo_get))))"
  have c: "conn_state ?cn = kConnected" "conn_context ?cn = Some (ready_ctx [])" "conn_fd ?cn = 5"
    "readable (outputBuffer ?cn) = []"
    by (simp_all add: demo_http_conn_def ready_ctx_new)
  have r: "length (resp_body ?resp) < 10 ^ 13" "resp_closeConnection ?resp"
    "response_bytes ?resp = ''HTTP/1.1 404 Not Found'' @ kCRLF @ ''Connection: close'' @ kCRLF @ kCRLF"
    by (simp_all add: HttpResponse_ctor_def setCloseConnection_def setStatusMessage_def setStatusCode_enum_def
        response_bytes_def status_line_def framing_headers_def header_line_def dec.simps)
  have "defaultHttpCallback (request_seen 7 [] demo_get) (HttpResponse_ctor (wants_close demo_get)) = Inr ?resp"
    by (simp add: defaultHttpCallback_def)
  with request_answered [of ideal_kernel ?cn demo_http_loop "[]" demo_get "''G''" defaultHttpCallback 7 ?resp
      "\<lambda>a n. 50" 51 7000] c r demo_http_conn_facts demo_get_arrived
  show ?thesis by auto
qed

text \<open>
  C37: a request line that is not in the grammar is answered by the 400 message, in order after
  what waited for the socket, and a shutdown; the application does not see it, and the line
  stays in the input buffer.
\<close>

theorem bad_request_refused:
  assumes "ctl_sound K" "write_sound K" "never_reset K"
    and "conn_inv (cn, s)" "fresh_history (cn, s)" "conn_state cn = kConnected"
    and "conn_context cn = Some c" "ctx_state c = kExpectRequestLine"
    and "readable (inputBuffer cn) = line @ kCRLF @ rest" "CHR 0x0D \<notin> set line"
    and "processRequestLine line (ctx_request c) = Inr (False, r)"
  shows "\<exists>cn' s'. onMessage K (threadId s) bnd shf addr httpCallback t (cn, s) = Inr (cn', s') \<and>
    sent (conn_fd cn) (life s') @ readable (outputBuffer cn') = readable (outputBuffer cn) @ bad_request_msg \<and>
    inputBuffer cn' = inputBuffer cn \<and> conn_state cn' = kDisconnecting \<and>
    (SockShutdownWr (conn_fd cn) \<in> set (life s') \<longleftrightarrow> readable (outputBuffer cn') = [])"
proof -
  have b: "buffer_inv (inputBuffer cn)" using assms(4) by (simp add: conn_inv_def)
  have "parseRequest_step t (c, inputBuffer cn) = Inr (Done False (c\<lparr>ctx_request := r\<rparr>, inputBuffer cn))"
    using next_line [OF b assms(9,10)] assms(8,11) by (simp add: parseRequest_step_def)
  then have p: "parseRequest t c (inputBuffer cn) = Some (Inr (False, c\<lparr>ctx_request := r\<rparr>, inputBuffer cn))"
    by (simp add: parseRequest_def)
  let ?cn = "cn\<lparr>inputBuffer := inputBuffer cn, conn_context := Some (c\<lparr>ctx_request := r\<rparr>)\<rparr>"
  have c: "conn_inv (?cn, s)" "fresh_history (?cn, s)" "conn_state ?cn = kConnected"
    using assms(5,6) conn_inv_input [OF assms(4) b] by (simp_all add: fresh_history_def)
  obtain cn' s' where "rbind (send K (threadId s) bnd addr bad_request_msg (?cn, s)) (shutdown (threadId s) shf) = Inr (cn', s')"
    "sent (conn_fd ?cn) (life s') @ readable (outputBuffer cn') = readable (outputBuffer ?cn) @ bad_request_msg"
    "inputBuffer cn' = inputBuffer ?cn" "conn_state cn' = kDisconnecting"
    "SockShutdownWr (conn_fd ?cn) \<in> set (life s') \<longleftrightarrow> readable (outputBuffer cn') = []"
    by (rule refuse_output [OF assms(1-3) c])
  with p assms(7,8) show ?thesis
    by (simp add: onMessage_def gotAll_def)
qed

theorem bad_request_refused_witness:
  "\<exists>cn' s'. onMessage ideal_kernel 100 (\<lambda>a n. 50) 51 7000 (Some defaultHttpCallback) 7
      (demo_http_conn (''BREW /x HTTP/1.1'' @ kCRLF), demo_http_loop) = Inr (cn', s') \<and>
    sent 5 (life s') @ readable (outputBuffer cn') = bad_request_msg \<and> conn_state cn' = kDisconnecting"
proof -
  let ?cn = "demo_http_conn (''BREW /x HTTP/1.1'' @ kCRLF)"
  have c: "conn_state ?cn = kConnected" "conn_context ?cn = Some HttpContext_ctor" "conn_fd ?cn = 5"
    "readable (outputBuffer ?cn) = []" "ctx_state HttpContext_ctor = kExpectRequestLine"
    "readable (inputBuffer ?cn) = ''BREW /x HTTP/1.1'' @ kCRLF @ []" "CHR 0x0D \<notin> set ''BREW /x HTTP/1.1''"
    by (simp_all add: demo_http_conn_def HttpContext_ctor_def)
  obtain r where "processRequestLine ''BREW /x HTTP/1.1'' (ctx_request HttpContext_ctor) = Inr (False, r)"
    by (simp add: processRequestLine_def setMethod_def parse_method_def HttpContext_ctor_def HttpRequest_ctor_def
        find_simps)
  with bad_request_refused [of ideal_kernel ?cn demo_http_loop HttpContext_ctor "''BREW /x HTTP/1.1''" "[]" r
      "\<lambda>a n. 50" 51 7000 "Some defaultHttpCallback" 7] c demo_http_conn_facts
  show ?thesis by auto
qed

end
