(* ===== verification/ThreadPool.thy ===== *)
theory ThreadPool
  imports Delivery
begin

text \<open>
  The thread pool of the HTTP client (\<^verbatim>\<open>src/http/ThreadPool.h\<close>). The members under the mutex
  are a record; each critical section is one operation on it. \<open>worker\<close> is split where it
  gives up the mutex: entering the wait, coming back from \<^verbatim>\<open>wait_for\<close>, running the task
  outside the lock. A thread id is a number; the map of threads is the list of its keys.

  What is shown: under every interleaving of submitters, workers and the destructor no
  assertion fails, the two counters count exactly the threads they are meant to, the bounds
  on threads and queued tasks are kept, tasks are started exactly once in the order they were
  submitted, and while tasks are queued there is a thread to take them, if any is allowed.
\<close>

definition SIZE_MAX :: nat where
  "SIZE_MAX = 2 ^ 64 - 1"

definition WAIT_SECONDS :: nat where
  "WAIT_SECONDS = 2"

record 'a thread_pool =
  tp_quit :: bool
  currentThreads :: nat
  idleThreads :: nat
  maxThreads :: nat
  maxTasks :: nat
  tasks :: "'a list"
  finishedThreadIDs :: "nat list"
  threads :: "nat list"

text \<open>The constructors; \<^verbatim>\<open>maxTasks_(-1)\<close> is the largest \<^verbatim>\<open>size_t\<close>, which stands for no limit.\<close>

definition ThreadPool_ctor2 :: "nat \<Rightarrow> nat \<Rightarrow> 'a thread_pool" where
  "ThreadPool_ctor2 max_threads max_tasks =
     \<lparr>tp_quit = False, currentThreads = 0, idleThreads = 0, maxThreads = max_threads, maxTasks = max_tasks,
      tasks = [], finishedThreadIDs = [], threads = []\<rparr>"

definition ThreadPool_ctor :: "nat \<Rightarrow> 'a thread_pool" where
  "ThreadPool_ctor max_threads = ThreadPool_ctor2 max_threads SIZE_MAX"

text \<open>The default constructor; \<open>hw\<close> is what \<^verbatim>\<open>hardware_concurrency\<close> returns.\<close>

definition ThreadPool_default :: "nat \<Rightarrow> 'a thread_pool" where
  "ThreadPool_default hw = ThreadPool_ctor hw"

definition setMaxThreads :: "nat \<Rightarrow> 'a thread_pool \<Rightarrow> 'a thread_pool" where
  "setMaxThreads n p = p\<lparr>maxThreads := n\<rparr>"

definition setMaxTasks :: "nat \<Rightarrow> 'a thread_pool \<Rightarrow> 'a thread_pool" where
  "setMaxTasks n p = p\<lparr>maxTasks := n\<rparr>"

definition maxTasksNum :: "'a thread_pool \<Rightarrow> nat" where
  "maxTasksNum p = maxTasks p"

definition threadsNum :: "'a thread_pool \<Rightarrow> nat" where
  "threadsNum p = currentThreads p"

definition tasksNum :: "'a thread_pool \<Rightarrow> nat" where
  "tasksNum p = length (tasks p)"

definition idleThreadsNum :: "'a thread_pool \<Rightarrow> nat" where
  "idleThreadsNum p = idleThreads p"

definition maxThreadsNum :: "'a thread_pool \<Rightarrow> nat" where
  "maxThreadsNum p = maxThreads p"

text \<open>
  \<open>submit\<close>: what became of the task, and the pool. \<open>t\<close> is the id of the thread that is started,
  if one is.
\<close>

datatype submission = Dropped | Notified | Spawned | Queued

definition submit :: "nat \<Rightarrow> 'a \<Rightarrow> 'a thread_pool \<Rightarrow> (submission \<times> 'a thread_pool) res" where
  "submit t task p =
     (if tp_quit p then Inl AssertFail
      else if maxTasks p \<noteq> SIZE_MAX \<and> length (tasks p) \<ge> maxTasks p then Inr (Dropped, p)
      else let p1 = p\<lparr>tasks := tasks p @ [task]\<rparr>
           in if idleThreads p1 > 0 then Inr (Notified, p1)
              else if currentThreads p1 < maxThreads p1 then
                if t \<in> set (threads p1) then Inl AssertFail
                else Inr (Spawned, p1\<lparr>threads := threads p1 @ [t], currentThreads := currentThreads p1 + 1\<rparr>)
              else Inr (Queued, p1))"

text \<open>Joining the threads that have finished: each must be in the map.\<close>

fun join_all :: "nat list \<Rightarrow> nat list \<Rightarrow> nat list res" where
  "join_all [] ts = Inr ts"
| "join_all (i # is) ts = (if i \<in> set ts then join_all is (remove1 i ts) else Inl AssertFail)"

definition joinFinishedThreads :: "'a thread_pool \<Rightarrow> 'a thread_pool res" where
  "joinFinishedThreads p =
     rbind (join_all (finishedThreadIDs p) (threads p)) (\<lambda>ts. Inr (p\<lparr>finishedThreadIDs := [], threads := ts\<rparr>))"

text \<open>
  The parts of \<open>worker\<close>. \<open>worker_wake\<close> is everything from the return of \<^verbatim>\<open>wait_for\<close>, which gives
  the value of the predicate, to the end of the critical section: the thread ends or takes a
  task. Taking from an empty queue is undefined.
\<close>

definition wait_done :: "'a thread_pool \<Rightarrow> bool" where
  "wait_done p \<longleftrightarrow> tp_quit p \<or> tasks p \<noteq> []"

definition worker_enter :: "'a thread_pool \<Rightarrow> 'a thread_pool" where
  "worker_enter p = p\<lparr>idleThreads := idleThreads p + 1\<rparr>"

definition worker_wake :: "nat \<Rightarrow> 'a thread_pool \<Rightarrow> ('a option \<times> 'a thread_pool) res" where
  "worker_wake self p =
     (let hasTimedout = \<not> wait_done p;
          p1 = p\<lparr>idleThreads := idleThreads p - 1\<rparr>
      in case tasks p1 of
           [] \<Rightarrow>
             if tp_quit p1 then Inr (None, p1\<lparr>currentThreads := currentThreads p1 - 1\<rparr>)
             else if hasTimedout then
               rbind (joinFinishedThreads (p1\<lparr>currentThreads := currentThreads p1 - 1\<rparr>)) (\<lambda>p2.
                 Inr (None, p2\<lparr>finishedThreadIDs := finishedThreadIDs p2 @ [self]\<rparr>))
             else Inl OutOfRange
         | task # rest \<Rightarrow> Inr (Some task, p1\<lparr>tasks := rest\<rparr>))"

text \<open>The destructor up to the joins.\<close>

definition dtor_begin :: "'a thread_pool \<Rightarrow> 'a thread_pool" where
  "dtor_begin p = p\<lparr>tp_quit := True\<rparr>"

subsection \<open>The pool and its threads\<close>

text \<open>
  Where each thread of the map is: before the critical section, in the wait, running a task,
  or ended. \<open>submitted\<close> and \<open>started\<close> are the history of accepted and of started tasks.
\<close>

datatype 'a wst = Looping | Waiting | Busy 'a | Ended

record 'a pool_run =
  pool :: "'a thread_pool"
  wst :: "nat \<Rightarrow> 'a wst"
  submitted :: "'a list"
  started :: "'a list"

definition pool_start :: "nat \<Rightarrow> nat \<Rightarrow> 'a pool_run" where
  "pool_start n k = \<lparr>pool = ThreadPool_ctor2 n k, wst = (\<lambda>_. Ended), submitted = [], started = []\<rparr>"

text \<open>
  A waiting thread may come back at any moment, by a notification, by chance or by its time
  limit, but not while the predicate is false before the limit: \<open>wait_for\<close> then goes on
  waiting, which is no step.
\<close>

inductive pool_step :: "'a pool_run \<Rightarrow> 'a pool_run \<Rightarrow> bool" where
  submits: "\<not> tp_quit (pool r) \<Longrightarrow> t \<notin> set (threads (pool r)) \<Longrightarrow> submit t a (pool r) = Inr (o', p') \<Longrightarrow>
    pool_step r (r\<lparr>pool := p', wst := if o' = Spawned then (wst r)(t := Looping) else wst r,
      submitted := if o' = Dropped then submitted r else submitted r @ [a]\<rparr>)"
| enters: "i \<in> set (threads (pool r)) \<Longrightarrow> wst r i = Looping \<Longrightarrow>
    pool_step r (r\<lparr>pool := worker_enter (pool r), wst := (wst r)(i := Waiting)\<rparr>)"
| takes_task: "i \<in> set (threads (pool r)) \<Longrightarrow> wst r i = Waiting \<Longrightarrow> worker_wake i (pool r) = Inr (Some a, p') \<Longrightarrow>
    pool_step r (r\<lparr>pool := p', wst := (wst r)(i := Busy a), started := started r @ [a]\<rparr>)"
| ends: "i \<in> set (threads (pool r)) \<Longrightarrow> wst r i = Waiting \<Longrightarrow> worker_wake i (pool r) = Inr (None, p') \<Longrightarrow>
    pool_step r (r\<lparr>pool := p', wst := (wst r)(i := Ended)\<rparr>)"
| runs: "i \<in> set (threads (pool r)) \<Longrightarrow> wst r i = Busy a \<Longrightarrow> pool_step r (r\<lparr>wst := (wst r)(i := Looping)\<rparr>)"
| quits: "pool_step r (r\<lparr>pool := dtor_begin (pool r)\<rparr>)"

inductive pool_reach :: "nat \<Rightarrow> nat \<Rightarrow> 'a pool_run \<Rightarrow> bool" for n k where
  start: "pool_reach n k (pool_start n k)"
| step: "pool_reach n k r \<Longrightarrow> pool_step r r' \<Longrightarrow> pool_reach n k r'"

text \<open>
  The joins of the destructor: the loop over the map returns from a thread only when the thread
  has ended, so it is through exactly when all have. (Each is joinable: what
  \<open>joinFinishedThreads\<close> has joined is not in the map.)
\<close>

definition dtor_joins :: "'a pool_run \<Rightarrow> bool" where
  "dtor_joins r \<longleftrightarrow> list_all (\<lambda>i. wst r i = Ended) (threads (pool r))"

definition count_st :: "('a wst \<Rightarrow> bool) \<Rightarrow> 'a pool_run \<Rightarrow> nat" where
  "count_st P r = length (filter (\<lambda>i. P (wst r i)) (threads (pool r)))"

definition pool_inv :: "nat \<Rightarrow> nat \<Rightarrow> 'a pool_run \<Rightarrow> bool" where
  "pool_inv n k r \<longleftrightarrow>
     (let p = pool r
      in maxThreads p = n \<and> maxTasks p = k \<and> distinct (threads p) \<and> distinct (finishedThreadIDs p) \<and>
         (\<forall>i \<in> set (finishedThreadIDs p). i \<in> set (threads p) \<and> wst r i = Ended) \<and>
         currentThreads p = count_st (\<lambda>w. w \<noteq> Ended) r \<and> idleThreads p = count_st (\<lambda>w. w = Waiting) r \<and>
         currentThreads p \<le> n \<and> (k \<noteq> SIZE_MAX \<longrightarrow> length (tasks p) \<le> k) \<and>
         submitted r = started r @ tasks p \<and>
         (tasks p \<noteq> [] \<and> n > 0 \<longrightarrow> currentThreads p > 0))"

subsection \<open>Counting the threads\<close>

lemma count_update:
  assumes "distinct ts" "i \<in> set ts" "\<And>j. j \<noteq> i \<Longrightarrow> g j = f j"
  shows "length (filter (\<lambda>j. P (g j)) ts) + of_bool (P (f i)) =
    length (filter (\<lambda>j. P (f j)) ts) + of_bool (P (g i))"
  using assms(1,2)
proof (induction ts)
  case (Cons t ts)
  have same: "filter (\<lambda>j. P (g j)) ts = filter (\<lambda>j. P (f j)) ts" if "i \<notin> set ts"
    using that assms(3) by (intro filter_cong) (auto, metis+)
  show ?case
  proof (cases "t = i")
    case True
    with Cons.prems same show ?thesis by simp
  next
    case False
    with Cons assms(3) [of t] show ?thesis by auto
  qed
qed simp

lemma count_pos: "i \<in> set ts \<Longrightarrow> P i \<Longrightarrow> length (filter P ts) > 0"
  by (auto simp: filter_empty_conv)

lemma count_filter_mono: "(\<And>x. P x \<Longrightarrow> Q x) \<Longrightarrow> length (filter P ts) \<le> length (filter Q ts)"
  by (induction ts) auto

lemma count_remove1:
  "\<not> P i \<Longrightarrow> length (filter P (remove1 i ts)) = length (filter P ts)"
  by (induction ts) auto

lemma join_all_effect:
  assumes "distinct is" "distinct ts" "set is \<subseteq> set ts"
  shows "\<exists>ts'. join_all is ts = Inr ts' \<and> distinct ts' \<and> set ts' = set ts - set is \<and>
    (\<forall>P. (\<forall>i \<in> set is. \<not> P i) \<longrightarrow> length (filter P ts') = length (filter P ts))"
  using assms
proof (induction "is" arbitrary: ts)
  case (Cons i "is")
  then have "distinct is" "distinct (remove1 i ts)" "set is \<subseteq> set (remove1 i ts)" by auto
  from Cons.IH [OF this] Cons.prems show ?case by (auto simp: count_remove1)
qed simp

lemma count_wst:
  assumes "distinct (threads (pool r))" "i \<in> set (threads (pool r))"
  shows "count_st P (r\<lparr>wst := (wst r)(i := v)\<rparr>) + of_bool (P (wst r i)) = count_st P r + of_bool (P v)"
  using count_update [OF assms, of "(wst r)(i := v)" "wst r" P] by (simp add: count_st_def)

lemma count_pool: "threads p = threads (pool r) \<Longrightarrow> count_st P (r\<lparr>pool := p\<rparr>) = count_st P r"
  by (simp add: count_st_def)

lemma idle_le_live: "count_st (\<lambda>w. w = Waiting) r \<le> count_st (\<lambda>w. w \<noteq> Ended) r"
  unfolding count_st_def by (rule count_filter_mono) simp

lemma count_spawn:
  assumes "t \<notin> set (threads (pool r))" "threads p = threads (pool r) @ [t]"
  shows "count_st P (r\<lparr>pool := p, wst := (wst r)(t := v)\<rparr>) = count_st P r + of_bool (P v)"
proof -
  have "filter (\<lambda>j. P (((wst r)(t := v)) j)) (threads (pool r)) = filter (\<lambda>j. P (wst r j)) (threads (pool r))"
    using assms(1) by (intro filter_cong) auto
  then show ?thesis using assms(2) by (simp add: count_st_def)
qed

lemma pool_inv_submit:
  assumes inv: "pool_inv n k r" and t: "t \<notin> set (threads (pool r))" and s: "submit t a (pool r) = Inr (out, p)"
  shows "pool_inv n k (r\<lparr>pool := p, wst := if out = Spawned then (wst r)(t := Looping) else wst r,
    submitted := if out = Dropped then submitted r else submitted r @ [a]\<rparr>)"
proof -
  let ?p = "pool r"
  let ?p1 = "?p\<lparr>tasks := tasks ?p @ [a]\<rparr>"
  have c: "count_st P (r\<lparr>pool := ?p1, submitted := xs\<rparr>) = count_st P r" for P xs by (simp add: count_st_def)
  consider "out = Dropped" "p = ?p" | "out = Notified" "p = ?p1" "idleThreads ?p > 0"
      "k \<noteq> SIZE_MAX \<longrightarrow> length (tasks ?p) < k"
    | "out = Spawned" "currentThreads ?p < n" "k \<noteq> SIZE_MAX \<longrightarrow> length (tasks ?p) < k"
      "p = ?p1\<lparr>threads := threads ?p @ [t], currentThreads := currentThreads ?p + 1\<rparr>"
    | "out = Queued" "p = ?p1" "currentThreads ?p \<ge> n" "k \<noteq> SIZE_MAX \<longrightarrow> length (tasks ?p) < k"
    using s inv by (auto simp: submit_def pool_inv_def Let_def split: if_splits)
  then show ?thesis
  proof cases
    case 1
    with inv show ?thesis by (simp add: pool_inv_def)
  next
    case 2
    with inv idle_le_live [of r] show ?thesis by (auto simp: pool_inv_def Let_def c)
  next
    case 3
    have "count_st P (r\<lparr>pool := p, wst := (wst r)(t := Looping), submitted := xs\<rparr>) = count_st P r + of_bool (P Looping)" for P xs
      using count_spawn [OF t, of p P Looping] 3(4) by (simp add: count_st_def)
    with 3 inv t show ?thesis by (auto simp: pool_inv_def Let_def)
  next
    case 4
    with inv show ?thesis by (auto simp: pool_inv_def Let_def c)
  qed
qed

subsection \<open>The workers keep the invariant\<close>

lemma count_change:
  assumes "pool_inv n k r" "i \<in> set (threads (pool r))" "threads p = threads (pool r)"
  shows "count_st P (r\<lparr>pool := p, wst := (wst r)(i := v), started := xs\<rparr>) + of_bool (P (wst r i)) =
    count_st P r + of_bool (P v)"
  using count_wst [of r i P v] assms by (simp add: pool_inv_def Let_def count_st_def)

lemma pool_inv_enter:
  assumes "pool_inv n k r" "i \<in> set (threads (pool r))" "wst r i = Looping"
  shows "pool_inv n k (r\<lparr>pool := worker_enter (pool r), wst := (wst r)(i := Waiting)\<rparr>)"
proof -
  let ?r = "r\<lparr>pool := worker_enter (pool r), wst := (wst r)(i := Waiting)\<rparr>"
  have "count_st (\<lambda>w. w \<noteq> Ended) ?r = count_st (\<lambda>w. w \<noteq> Ended) r"
    "count_st (\<lambda>w. w = Waiting) ?r = count_st (\<lambda>w. w = Waiting) r + 1"
    using count_change [OF assms(1,2), of "worker_enter (pool r)" "\<lambda>w. w \<noteq> Ended" "started r" Waiting]
      count_change [OF assms(1,2), of "worker_enter (pool r)" "\<lambda>w. w = Waiting" "started r" Waiting] assms(3)
    by (simp_all add: worker_enter_def)
  with assms show ?thesis
    unfolding pool_inv_def Let_def by (auto simp: worker_enter_def)
qed

lemma pool_inv_take:
  assumes inv: "pool_inv n k r" and i: "i \<in> set (threads (pool r))" "wst r i = Waiting"
    and w: "worker_wake i (pool r) = Inr (Some a, p)"
  shows "pool_inv n k (r\<lparr>pool := p, wst := (wst r)(i := Busy a), started := started r @ [a]\<rparr>)"
proof -
  let ?r = "r\<lparr>pool := p, wst := (wst r)(i := Busy a), started := started r @ [a]\<rparr>"
  obtain rest where t: "tasks (pool r) = a # rest"
    "p = (pool r)\<lparr>idleThreads := idleThreads (pool r) - 1, tasks := rest\<rparr>"
    using w by (auto simp: worker_wake_def Let_def rbind_eq_Inr split: list.splits if_splits)
  have cnt: "count_st (\<lambda>w. w \<noteq> Ended) ?r = count_st (\<lambda>w. w \<noteq> Ended) r"
    "count_st (\<lambda>w. w = Waiting) ?r + 1 = count_st (\<lambda>w. w = Waiting) r"
    using count_change [OF inv i(1), of p "\<lambda>w. w \<noteq> Ended" "started r @ [a]" "Busy a"]
      count_change [OF inv i(1), of p "\<lambda>w. w = Waiting" "started r @ [a]" "Busy a"] i(2) t(2)
    by simp_all
  have "currentThreads (pool r) = count_st (\<lambda>w. w \<noteq> Ended) r" "idleThreads (pool r) = count_st (\<lambda>w. w = Waiting) r"
    using inv by (simp_all add: pool_inv_def Let_def)
  moreover have "count_st (\<lambda>w. w \<noteq> Ended) r > 0"
    unfolding count_st_def by (rule count_pos [OF i(1)]) (simp add: i(2))
  ultimately have c: "currentThreads p = count_st (\<lambda>w. w \<noteq> Ended) ?r" "currentThreads p > 0"
    "idleThreads p = count_st (\<lambda>w. w = Waiting) ?r"
    using cnt t(2) by simp_all
  have f: "\<forall>j \<in> set (finishedThreadIDs (pool r)). j \<noteq> i" using inv i by (auto simp: pool_inv_def Let_def)
  show ?thesis
    using inv t c f unfolding pool_inv_def Let_def by (simp, arith)
qed

lemma join_effect:
  assumes "pool_inv n k r" "finishedThreadIDs p = finishedThreadIDs (pool r)" "threads p = threads (pool r)"
  obtains ts where "joinFinishedThreads p = Inr (p\<lparr>finishedThreadIDs := [], threads := ts\<rparr>)"
    "distinct ts" "set ts = set (threads (pool r)) - set (finishedThreadIDs (pool r))"
    "\<And>P. \<not> P Ended \<Longrightarrow> length (filter (\<lambda>j. P (wst r j)) ts) = count_st P r"
proof -
  have "distinct (finishedThreadIDs (pool r))" "distinct (threads (pool r))"
    "set (finishedThreadIDs (pool r)) \<subseteq> set (threads (pool r))"
    "\<forall>i \<in> set (finishedThreadIDs (pool r)). wst r i = Ended"
    using assms(1) by (auto simp: pool_inv_def Let_def)
  with join_all_effect [OF this(1-3)]
  obtain ts where "join_all (finishedThreadIDs (pool r)) (threads (pool r)) = Inr ts" "distinct ts"
    "set ts = set (threads (pool r)) - set (finishedThreadIDs (pool r))"
    "\<And>P. \<not> P Ended \<Longrightarrow> length (filter (\<lambda>j. P (wst r j)) ts) = length (filter (\<lambda>j. P (wst r j)) (threads (pool r)))"
    by force
  with assms(2,3) show thesis
    by (intro that [of ts]) (simp_all add: count_st_def joinFinishedThreads_def)
qed

lemma pool_inv_end:
  assumes inv: "pool_inv n k r" and i: "i \<in> set (threads (pool r))" "wst r i = Waiting"
    and w: "worker_wake i (pool r) = Inr (None, p)"
  shows "pool_inv n k (r\<lparr>pool := p, wst := (wst r)(i := Ended)\<rparr>)"
proof -
  let ?p = "(pool r)\<lparr>idleThreads := idleThreads (pool r) - 1, currentThreads := currentThreads (pool r) - 1\<rparr>"
  obtain ts where ts: "joinFinishedThreads ?p = Inr (?p\<lparr>finishedThreadIDs := [], threads := ts\<rparr>)"
    "distinct ts" "set ts = set (threads (pool r)) - set (finishedThreadIDs (pool r))"
    "\<And>P. \<not> P Ended \<Longrightarrow> length (filter (\<lambda>j. P (wst r j)) ts) = count_st P r"
    by (rule join_effect [OF inv, of ?p]) simp_all
  have idle: "i \<in> set ts" using i ts(3) inv by (auto simp: pool_inv_def Let_def)
  have dist: "distinct (threads (pool r))" using inv by (simp add: pool_inv_def Let_def)
  have t: "tasks (pool r) = []" and c: "p = ?p \<or> p = ?p\<lparr>finishedThreadIDs := [i], threads := ts\<rparr>"
    using w ts(1) by (auto simp: worker_wake_def Let_def rbind_eq_Inr split: list.splits if_splits)
  define g where "g = (wst r)(i := Ended)"
  have g: "g i = Ended" "\<And>j. j \<noteq> i \<Longrightarrow> g j = wst r j" by (simp_all add: g_def)
  let ?r = "r\<lparr>pool := p, wst := g\<rparr>"
  have cnt: "count_st P ?r + of_bool (P Waiting) = count_st P r" if "\<not> P Ended" for P
    using count_update [where P = P and g = g and f = "wst r", OF dist i(1) g(2)]
      count_update [where P = P and g = g and f = "wst r", OF ts(2) idle g(2)] g(1) c that ts(4) [of P] i(2)
    by (auto simp: count_st_def)
  have live: "currentThreads (pool r) = count_st (\<lambda>w. w \<noteq> Ended) r" "idleThreads (pool r) = count_st (\<lambda>w. w = Waiting) r"
    using inv by (simp_all add: pool_inv_def Let_def)
  have "currentThreads p = currentThreads (pool r) - 1" "idleThreads p = idleThreads (pool r) - 1" "tasks p = []"
    using c t by auto
  then have n: "currentThreads p = count_st (\<lambda>w. w \<noteq> Ended) ?r" "idleThreads p = count_st (\<lambda>w. w = Waiting) ?r"
    "tasks p = []" "currentThreads p \<le> currentThreads (pool r)"
    using cnt [of "\<lambda>w. w \<noteq> Ended"] cnt [of "\<lambda>w. w = Waiting"] live by simp_all
  have o: "distinct (finishedThreadIDs (pool r))" "maxThreads (pool r) = n" "maxTasks (pool r) = k"
    "\<forall>j \<in> set (finishedThreadIDs (pool r)). j \<in> set (threads (pool r)) \<and> g j = Ended"
    using inv by (simp_all add: pool_inv_def Let_def g_def)
  have f: "distinct (threads p) \<and> distinct (finishedThreadIDs p) \<and> maxThreads p = n \<and> maxTasks p = k \<and>
    (\<forall>j \<in> set (finishedThreadIDs p). j \<in> set (threads p) \<and> g j = Ended)"
  proof (cases "p = ?p")
    case True
    with o dist show ?thesis by simp
  next
    case False
    with c have "p = ?p\<lparr>finishedThreadIDs := [i], threads := ts\<rparr>" by blast
    with o ts(2) idle g(1) show ?thesis by simp
  qed
  show ?thesis
    unfolding g_def [symmetric] using inv t n f unfolding pool_inv_def Let_def by simp
qed

lemma pool_inv_step:
  assumes "pool_step r r'" "pool_inv n k r"
  shows "pool_inv n k r'"
  using assms(1)
proof cases
  case (runs i a)
  have "count_st P r' = count_st P r" if "P (Busy a) = P Looping" for P
    using count_wst [of r i P Looping] runs assms(2) that by (simp add: pool_inv_def Let_def)
  from this [of "\<lambda>w. w \<noteq> Ended"] this [of "\<lambda>w. w = Waiting"] runs assms(2) show ?thesis
    unfolding pool_inv_def Let_def by auto
next
  case quits
  have "count_st P r' = count_st P r" for P by (simp add: quits count_st_def dtor_begin_def)
  with quits assms(2) show ?thesis unfolding pool_inv_def Let_def by (auto simp: dtor_begin_def)
qed (use assms(2) in \<open>simp_all add: pool_inv_submit pool_inv_enter pool_inv_take pool_inv_end\<close>)

lemma pool_inv_reach: "pool_reach n k r \<Longrightarrow> pool_inv n k r"
proof (induction rule: pool_reach.induct)
  case start
  then show ?case by (simp add: pool_inv_def pool_start_def ThreadPool_ctor2_def count_st_def)
next
  case (step r r')
  then show ?case by (blast intro: pool_inv_step)
qed

text \<open>
  C23: in every run of the pool, under all interleavings of submissions, workers and the
  destructor: accepted tasks are started exactly once and in the order of submission; there are
  never more threads nor queued tasks than allowed; the counters are the numbers of threads
  that have not ended and that wait; and while tasks are queued and threads are allowed there
  is a thread that has not ended.
\<close>

theorem pool_runs_tasks:
  assumes "pool_reach n k r"
  shows "submitted r = started r @ tasks (pool r) \<and>
    currentThreads (pool r) = count_st (\<lambda>w. w \<noteq> Ended) r \<and> idleThreads (pool r) = count_st (\<lambda>w. w = Waiting) r \<and>
    currentThreads (pool r) \<le> n \<and> (k \<noteq> SIZE_MAX \<longrightarrow> length (tasks (pool r)) \<le> k) \<and>
    (tasks (pool r) \<noteq> [] \<and> n > 0 \<longrightarrow> (\<exists>i \<in> set (threads (pool r)). wst r i \<noteq> Ended))"
proof -
  note i = pool_inv_reach [OF assms, unfolded pool_inv_def Let_def]
  have "\<exists>i \<in> set (threads (pool r)). wst r i \<noteq> Ended" if "count_st (\<lambda>w. w \<noteq> Ended) r > 0"
    using that by (auto simp: count_st_def filter_empty_conv)
  with i show ?thesis by auto
qed

text \<open>A run in which a task was submitted, a thread was started for it and is about to take it.\<close>

definition demo_pool :: "nat pool_run" where
  "demo_pool =
     \<lparr>pool = \<lparr>tp_quit = False, currentThreads = 1, idleThreads = 1, maxThreads = 1, maxTasks = 5, tasks = [7],
        finishedThreadIDs = [], threads = [3]\<rparr>,
      wst = (\<lambda>_. Ended)(3 := Waiting), submitted = [7], started = []\<rparr>"

lemma demo_pool_reach: "pool_reach 1 5 demo_pool"
proof -
  let ?r0 = "pool_start 1 5 :: nat pool_run"
  let ?p1 = "(pool ?r0)\<lparr>tasks := [7], threads := [3], currentThreads := 1\<rparr>"
  let ?r1 = "?r0\<lparr>pool := ?p1, wst := (wst ?r0)(3 := Looping), submitted := [7]\<rparr>"
  have "submit 3 7 (pool ?r0) = Inr (Spawned, ?p1)"
    by (simp add: submit_def pool_start_def ThreadPool_ctor2_def)
  from pool_step.submits [OF _ _ this] have "pool_step ?r0 ?r1"
    by (simp add: pool_start_def ThreadPool_ctor2_def)
  moreover have "pool_step ?r1 demo_pool"
    using pool_step.enters [of 3 ?r1]
    by (simp add: pool_start_def ThreadPool_ctor2_def worker_enter_def demo_pool_def)
  ultimately show ?thesis by (blast intro: pool_reach.intros)
qed

theorem pool_runs_tasks_witness:
  "submitted demo_pool = started demo_pool @ tasks (pool demo_pool) \<and> tasks (pool demo_pool) = [7]"
  using pool_runs_tasks [OF demo_pool_reach] by (simp add: demo_pool_def)

text \<open>The tasks of the pool are a delivery queue.\<close>

lemma worker_wake_tasks:
  assumes "worker_wake i p = Inr (ta, p')"
  shows "tasks p = (case ta of None \<Rightarrow> [] | Some a \<Rightarrow> [a]) @ tasks p'"
  using assms
  by (auto simp: worker_wake_def joinFinishedThreads_def Let_def rbind_eq_Inr split: list.splits if_splits)

interpretation task_queue: delivery "\<lambda>r. \<exists>n k. r = pool_start n k" pool_step "\<lambda>_. True" "\<lambda>r. tasks (pool r)" started
proof unfold_locales
  fix r r' :: "'a pool_run"
  assume "pool_step r r'"
  then show "delivers (tasks (pool r), started r) (tasks (pool r'), started r')"
  proof (cases rule: pool_step.cases)
    case (submits t a o' p')
    then show ?thesis using delivers.put [of "tasks (pool r)" "started r" "[a]"]
      by (auto simp: submit_def Let_def split: if_splits)
  next
    case (takes_task i a p')
    then show ?thesis using worker_wake_tasks [of i "pool r"] by (simp add: delivers_one)
  next
    case (ends i p')
    then show ?thesis using worker_wake_tasks [of i "pool r"] by simp
  qed (simp_all add: worker_enter_def dtor_begin_def)
qed (auto simp: pool_start_def ThreadPool_ctor2_def)

lemma pool_reach_run: "pool_reach n k r \<Longrightarrow> pool_step\<^sup>*\<^sup>* (pool_start n k) r"
  by (induction rule: pool_reach.induct) (auto intro: rtranclp.rtrancl_into_rtrancl)



text \<open>
  No thread of the pool ever fails an assertion or takes from an empty queue: a submission
  before the destructor with a thread id that is not in the map returns, and so does every
  worker that comes back from its wait, whether there is a task, its time is over or the pool
  is being destroyed.
\<close>

theorem pool_never_faults:
  assumes "pool_reach n k r" "\<not> tp_quit (pool r)" "t \<notin> set (threads (pool r))"
    and "i \<in> set (threads (pool r))" "wst r i = Waiting"
  shows "(\<exists>out p. submit t a (pool r) = Inr (out, p) \<and>
      (out = Dropped \<longleftrightarrow> k \<noteq> SIZE_MAX \<and> length (tasks (pool r)) = k)) \<and>
    (\<exists>p. worker_wake i (pool r) = Inr (if tasks (pool r) = [] then None else Some (hd (tasks (pool r))), p)) \<and>
    (\<exists>p. worker_wake i (dtor_begin (pool r)) =
       Inr (if tasks (pool r) = [] then None else Some (hd (tasks (pool r))), p))"
proof -
  have inv: "pool_inv n k r" by (rule pool_inv_reach [OF assms(1)])
  have k: "maxTasks (pool r) = k" "k \<noteq> SIZE_MAX \<longrightarrow> length (tasks (pool r)) \<le> k"
    using inv by (simp_all add: pool_inv_def Let_def)
  have s: "\<exists>out p. submit t a (pool r) = Inr (out, p) \<and>
      (out = Dropped \<longleftrightarrow> k \<noteq> SIZE_MAX \<and> length (tasks (pool r)) = k)"
    using assms(2,3) k by (auto simp: submit_def Let_def)
  let ?p = "(pool r)\<lparr>idleThreads := idleThreads (pool r) - 1, currentThreads := currentThreads (pool r) - 1\<rparr>"
  obtain ts where "joinFinishedThreads ?p = Inr (?p\<lparr>finishedThreadIDs := [], threads := ts\<rparr>)"
    by (rule join_effect [OF inv, of ?p]) simp_all
  then have w: "\<exists>p. worker_wake i (pool r) = Inr (if tasks (pool r) = [] then None else Some (hd (tasks (pool r))), p)"
    "\<exists>p. worker_wake i (dtor_begin (pool r)) = Inr (if tasks (pool r) = [] then None else Some (hd (tasks (pool r))), p)"
    by (auto simp: worker_wake_def wait_done_def dtor_begin_def Let_def split: list.split)
  from s w show ?thesis by blast
qed

theorem pool_never_faults_witness:
  "(\<exists>p. submit 4 8 (pool demo_pool) = Inr (Notified, p)) \<and> (\<exists>p. worker_wake 3 (pool demo_pool) = Inr (Some 7, p))"
proof -
  have "(\<exists>p. worker_wake 3 (pool demo_pool) = Inr (Some 7, p))"
    using pool_never_faults [OF demo_pool_reach, of 4 3 8] by (simp add: demo_pool_def)
  moreover have "\<exists>p. submit 4 8 (pool demo_pool) = Inr (Notified, p)"
    by (simp add: submit_def demo_pool_def)
  ultimately show ?thesis by blast
qed

text \<open>
  A pool that is allowed no thread accepts tasks and never starts any. The HTTP client
  makes its pool so by default (its size is 0 unless given), so with the pool enabled its
  response callback is never called.
\<close>

theorem pool_without_threads_never_starts:
  assumes "pool_reach 0 k r"
  shows "started r = [] \<and> submitted r = tasks (pool r)"
proof -
  have "started r = []"
    using assms
  proof (induction rule: pool_reach.induct)
    case (step r r')
    have "pool_inv 0 k r" by (rule pool_inv_reach [OF step.hyps(1)])
    then have "count_st (\<lambda>w. w \<noteq> Ended) r = 0" by (simp add: pool_inv_def Let_def)
    then have "\<forall>i \<in> set (threads (pool r)). wst r i = Ended" by (simp add: count_st_def filter_empty_conv)
    with step.hyps(2) step.IH show ?case by (cases rule: pool_step.cases) auto
  qed (simp add: pool_start_def)
  with pool_inv_reach [OF assms] show ?thesis by (simp add: pool_inv_def Let_def)
qed

theorem pool_without_threads_never_starts_witness:
  "\<exists>r. pool_reach 0 5 r \<and> submitted r = [9 :: nat] \<and> started r = []"
proof -
  let ?r0 = "pool_start 0 5 :: nat pool_run"
  have "submit 3 9 (pool ?r0) = Inr (Queued, (pool ?r0)\<lparr>tasks := [9]\<rparr>)"
    by (simp add: submit_def pool_start_def ThreadPool_ctor2_def)
  from pool_step.submits [OF _ _ this]
  have "pool_reach 0 5 (?r0\<lparr>pool := (pool ?r0)\<lparr>tasks := [9]\<rparr>, submitted := [9]\<rparr>)" (is "pool_reach 0 5 ?r")
    by (intro pool_reach.step [OF pool_reach.start]) (simp add: pool_start_def ThreadPool_ctor2_def)
  then show ?thesis
    using pool_without_threads_never_starts [of 5 ?r] by (intro exI [of _ ?r]) simp
qed

subsection \<open>The end of the pool\<close>

text \<open>How far the workers are from their end once the pool is quitting.\<close>

fun wst_weight :: "'a wst \<Rightarrow> nat" where
  "wst_weight Looping = 2"
| "wst_weight Waiting = 1"
| "wst_weight (Busy a) = 3"
| "wst_weight Ended = 0"

definition pool_weight :: "'a pool_run \<Rightarrow> nat" where
  "pool_weight r = 3 * length (tasks (pool r)) + (\<Sum>i \<leftarrow> threads (pool r). wst_weight (wst r i))"

lemma weight_update:
  assumes "distinct ts" "i \<in> set ts"
  shows "(\<Sum>j \<leftarrow> ts. wst_weight ((f(i := v)) j)) + wst_weight (f i) = (\<Sum>j \<leftarrow> ts. wst_weight (f j)) + wst_weight v"
  using assms
proof (induction ts)
  case (Cons t ts)
  show ?case
  proof (cases "t = i")
    case True
    with Cons.prems have "map (\<lambda>j. wst_weight ((f(i := v)) j)) ts = map (\<lambda>j. wst_weight (f j)) ts"
      by (intro map_cong) auto
    then have "(\<Sum>j \<leftarrow> ts. wst_weight ((f(i := v)) j)) = (\<Sum>j \<leftarrow> ts. wst_weight (f j))" by (rule arg_cong)
    with True show ?thesis by (simp only: list.map sum_list.Cons) simp
  next
    case False
    with Cons show ?thesis by (simp only: list.map sum_list.Cons) auto
  qed
qed simp

lemma quit_wake:
  assumes "tp_quit p"
  shows "worker_wake i p = Inr (case tasks p of
      [] \<Rightarrow> (None, p\<lparr>idleThreads := idleThreads p - 1, currentThreads := currentThreads p - 1\<rparr>)
    | a # as \<Rightarrow> (Some a, p\<lparr>idleThreads := idleThreads p - 1, tasks := as\<rparr>))"
  using assms by (simp add: worker_wake_def Let_def split: list.split)

lemma quit_step:
  assumes "pool_step r r'" "tp_quit (pool r)" "distinct (threads (pool r))" "r' \<noteq> r"
  shows "pool_weight r' < pool_weight r" "tp_quit (pool r')"
proof -
  note w = weight_update [OF assms(3), of _ "wst r"]
  from assms(1) have "pool_weight r' < pool_weight r \<and> tp_quit (pool r')"
  proof cases
    case (enters i)
    with w [of i Waiting] assms(2) show ?thesis by (simp add: pool_weight_def worker_enter_def)
  next
    case (takes_task i a p')
    with w [of i "Busy a"] assms(2) show ?thesis
      by (auto simp: pool_weight_def quit_wake split: list.splits)
  next
    case (ends i p')
    with w [of i Ended] assms(2) show ?thesis
      by (auto simp: pool_weight_def quit_wake split: list.splits)
  next
    case (runs i a)
    with w [of i Looping] assms(2) show ?thesis by (simp add: pool_weight_def)
  next
    case quits
    with assms(2,4) show ?thesis by (simp add: dtor_begin_def)
  qed (use assms(2) in simp)
  then show "pool_weight r' < pool_weight r" "tp_quit (pool r')" by simp_all
qed

lemma quit_progress:
  assumes "tp_quit (pool r)" "i \<in> set (threads (pool r))" "wst r i \<noteq> Ended"
  shows "\<exists>r'. pool_step r r' \<and> wst r' i \<noteq> wst r i"
proof (cases "wst r i")
  case Looping
  from pool_step.enters [OF assms(2) this] show ?thesis using Looping by fastforce
next
  case Waiting
  show ?thesis
  proof (cases "tasks (pool r)")
    case Nil
    with pool_step.ends [OF assms(2) Waiting, of "(pool r)\<lparr>idleThreads := idleThreads (pool r) - 1,
        currentThreads := currentThreads (pool r) - 1\<rparr>"] assms(1) Waiting show ?thesis
      by (fastforce simp: quit_wake)
  next
    case (Cons a as)
    with pool_step.takes_task [OF assms(2) Waiting, of a "(pool r)\<lparr>idleThreads := idleThreads (pool r) - 1, tasks := as\<rparr>"]
      assms(1) Waiting show ?thesis
      by (fastforce simp: quit_wake)
  qed
next
  case (Busy a)
  from pool_step.runs [OF assms(2) this] show ?thesis using Busy by fastforce
qed (use assms(3) in simp)

text \<open>
  C29: destroying the pool ends. Once the destructor has set \<open>quit_\<close>, in every run the workers make
  only finitely many further steps, and they stop exactly when all threads have ended, so that
  all joins return; and then, if the pool is allowed any thread at all, every task accepted
  before has been started.
\<close>

theorem pool_dtor_joins:
  assumes "pool_reach n k r" "tp_quit (pool r)"
  shows "(\<nexists>f. f 0 = r \<and> (\<forall>j. pool_step (f j) (f (Suc j)) \<and> f (Suc j) \<noteq> f j)) \<and>
    (dtor_joins r \<longleftrightarrow> (\<forall>r'. pool_step r r' \<longrightarrow> r' = r)) \<and>
    (dtor_joins r \<and> 0 < n \<longrightarrow> started r = submitted r)"
proof (intro conjI)
  show "\<nexists>f. f 0 = r \<and> (\<forall>j. pool_step (f j) (f (Suc j)) \<and> f (Suc j) \<noteq> f j)"
  proof
    assume "\<exists>f. f 0 = r \<and> (\<forall>j. pool_step (f j) (f (Suc j)) \<and> f (Suc j) \<noteq> f j)"
    then obtain f where f: "f 0 = r" "\<And>j. pool_step (f j) (f (Suc j))" "\<And>j. f (Suc j) \<noteq> f j" by blast
    have reach: "pool_reach n k (f j) \<and> tp_quit (pool (f j))" for j
    proof (induction j)
      case (Suc j)
      then have "distinct (threads (pool (f j)))" using pool_inv_reach by (auto simp: pool_inv_def Let_def)
      with Suc quit_step(2) [OF f(2) _ _ f(3)] pool_reach.step [OF _ f(2)] show ?case by blast
    qed (use f(1) assms in simp)
    have "pool_weight (f (Suc j)) < pool_weight (f j)" for j
      using quit_step(1) [OF f(2) _ _ f(3), of j] reach [of j] pool_inv_reach [of n k "f j"] by (simp add: pool_inv_def Let_def)
    note less = this
    have down: "pool_weight (f j) + j \<le> pool_weight (f 0)" for j
    proof (induction j)
      case (Suc j)
      with less [of j] show ?case by linarith
    qed simp
    from down [of "Suc (pool_weight (f 0))"] show False by simp
  qed
  have inv: "pool_inv n k r" by (rule pool_inv_reach [OF assms(1)])
  have ended: "currentThreads (pool r) = 0" if "dtor_joins r"
    using inv that by (auto simp: pool_inv_def Let_def dtor_joins_def list_all_iff count_st_def filter_empty_conv)
  show "dtor_joins r \<longleftrightarrow> (\<forall>r'. pool_step r r' \<longrightarrow> r' = r)"
  proof
    assume "dtor_joins r"
    then have all: "\<And>i. i \<in> set (threads (pool r)) \<Longrightarrow> wst r i = Ended" by (simp add: dtor_joins_def list_all_iff)
    show "\<forall>r'. pool_step r r' \<longrightarrow> r' = r"
    proof (intro allI impI)
      fix r' assume "pool_step r r'"
      then show "r' = r" using assms(2) by cases (auto simp: all dtor_begin_def)
    qed
  next
    assume stuck: "\<forall>r'. pool_step r r' \<longrightarrow> r' = r"
    show "dtor_joins r"
      unfolding dtor_joins_def list_all_iff
      using quit_progress [OF assms(2)] stuck by blast
  qed
  show "dtor_joins r \<and> 0 < n \<longrightarrow> started r = submitted r"
    using inv ended by (auto simp: pool_inv_def Let_def)
qed

theorem pool_dtor_joins_witness:
  "\<exists>r. pool_reach 1 5 r \<and> tp_quit (pool r) \<and> tasks (pool r) = [7 :: nat] \<and> \<not> dtor_joins r \<and> (\<exists>r'. pool_step r r' \<and> r' \<noteq> r)"
proof -
  let ?r = "demo_pool\<lparr>pool := dtor_begin (pool demo_pool)\<rparr>"
  have r: "pool_reach 1 5 ?r" "tp_quit (pool ?r)"
    using pool_reach.step [OF demo_pool_reach pool_step.quits] by (simp_all add: dtor_begin_def)
  have n: "\<not> dtor_joins ?r" "tasks (pool ?r) = [7]"
    by (simp_all add: dtor_joins_def demo_pool_def dtor_begin_def)
  with pool_dtor_joins [OF r] r show ?thesis by (intro exI [of _ ?r]) blast
qed

end
