(* ===== verification/HttpClient.thy ===== *)
theory HttpClient
  imports TcpClient HttpServer ThreadPool
begin

text \<open>
  The HTTP client (\<^verbatim>\<open>src/http/HttpClient.h\<close>, \<^verbatim>\<open>HttpClient.cc\<close>): requests wait in a queue until the
  connection is up; then the first is sent, and the next one after each message that arrives.
  The members extend those of the TCP client. The response callback is one of a set of
  callbacks that \<open>run_cb\<close> interprets; with the thread pool a task is a callback with its response.
  In a callback of a connection \<open>n\<close> that connection is at hand as \<open>cn\<close>, and \<^verbatim>\<open>client_.connection()\<close>
  is it exactly if the client's pointer is \<open>n\<close>.

  What is shown: the bytes of a request made by \<open>get\<close> or \<open>post\<close> are what a server's parser turns
  back into that request; a request that waits is sent when the connection comes up; a response
  that arrives whole reaches the callback as the server made it, and one that arrives in two pieces
  is lost; a request made while the connection is up overtakes those that wait.
\<close>

record ('f, 'r) http_client = "('f, http_context option) tcp_client" +
  hc_callback :: "'r option"
  hc_connected :: bool
  hc_isConnecting :: bool
  hc_requests :: "http_request list"
  hc_useThreadPool :: bool
  hc_maxThreadPoolSize :: int
  hc_maxTaskCount :: int
  hc_threadPool :: "('r \<times> http_response) thread_pool"

type_synonym ('f, 'r, 'z) hc_st =
  "('f, http_context option) tcp_connection \<times> ('f, 'r, 'z) http_client_scheme"

text \<open>
  The constructor. The sizes are \<^verbatim>\<open>int\<close>s passed as \<^verbatim>\<open>size_t\<close>; \<open>hw\<close> is what
  \<^verbatim>\<open>hardware_concurrency\<close> returns and \<open>dflt\<close> the callback that does nothing.
\<close>

definition HttpClient_ctor ::
  "'f client_loop \<Rightarrow> sockaddr_in \<Rightarrow> string \<Rightarrow> bool \<Rightarrow> int \<Rightarrow> int \<Rightarrow> nat \<Rightarrow> 'r \<Rightarrow> ('f, 'r) http_client" where
  "HttpClient_ctor s serverAddr name use_pool max_pool max_task hw dflt =
     (let p = ThreadPool_default hw;
          p1 = (if use_pool then setMaxTasks (int_to_size max_task) (setMaxThreads (int_to_size max_pool) p) else p)
      in tcp_client.extend (TcpClient_ctor s serverAddr name)
           \<lparr>hc_callback = Some dflt, hc_connected = False, hc_isConnecting = False, hc_requests = [],
            hc_useThreadPool = use_pool, hc_maxThreadPoolSize = max_pool, hc_maxTaskCount = max_task,
            hc_threadPool = p1\<rparr>)"

definition setHttpCallback :: "'r option \<Rightarrow> ('f, 'r, 'z) http_client_scheme \<Rightarrow> ('f, 'r, 'z) http_client_scheme" where
  "setHttpCallback cb s = s\<lparr>hc_callback := cb\<rparr>"

definition hc_connect ::
  "kernel \<Rightarrow> net \<Rightarrow> con_env \<Rightarrow> 'f con_functors \<Rightarrow> ('f, 'r, 'z) http_client_scheme \<Rightarrow>
   ('f, 'r, 'z) http_client_scheme res" where
  [simp]: "hc_connect K N E F s = TcpClient_connect K N E F s"

definition hc_disconnect ::
  "int \<Rightarrow> 'f cli_functors \<Rightarrow> ('f, 'r, 'z) http_client_scheme \<Rightarrow> ('f, 'r, 'z) http_client_scheme res" where
  "hc_disconnect tid G s = TcpClient_disconnect tid G s"

definition hc_stop ::
  "con_env \<Rightarrow> 'f con_functors \<Rightarrow> ('f, 'r, 'z) http_client_scheme \<Rightarrow> ('f, 'r, 'z) http_client_scheme" where
  "hc_stop E F s = TcpClient_stop E F s"

subsection \<open>Requests\<close>

definition make_get :: "string \<Rightarrow> http_request res" where
  "make_get path =
     rbind (setMethod ''GET'' HttpRequest_ctor) (\<lambda>(_, r). Inr (setVersion kHttp11 (setPath path r)))"

definition make_post :: "string \<Rightarrow> string \<Rightarrow> string \<Rightarrow> http_request res" where
  "make_post path body contentType =
     rbind (setMethod ''POST'' HttpRequest_ctor) (\<lambda>(_, r).
       Inr (setBody body (addHeader ''Content-Length'' (dec (length body))
             (addHeader ''Content-Type'' contentType (setVersion kHttp11 (setPath path r))))))"

definition print_request :: "http_request \<Rightarrow> buffer" where
  "print_request req =
     (let b1 = append_cstr (Buffer_ctor kInitialSize) (methodString req);
          b2 = append_cstr b1 '' '';
          b3 = append_buf b2 (req_path req);
          b4 = append_cstr b3 ('' HTTP/1.1'' @ kCRLF);
          b5 = foldl append_header b4 (req_headers req);
          b6 = append_cstr b5 kCRLF
      in if req_body req \<noteq> [] then append_buf b6 (req_body req) else b6)"

text \<open>Sending on a connection that may be down, in which case the request is dropped.\<close>

definition transmit ::
  "kernel \<Rightarrow> int \<Rightarrow> (nat \<Rightarrow> nat \<Rightarrow> 'f) \<Rightarrow> nat \<Rightarrow> http_request \<Rightarrow> ('f, 'c, 'z) conn_st \<Rightarrow> ('f, 'c, 'z) conn_st res" where
  "transmit K tid bnd addr req st =
     (case st of (cn, s) \<Rightarrow>
        if connected cn then rbind (send_Buffer K tid bnd addr (print_request req) (cn, s)) (\<lambda>(_, st'). Inr st')
        else Inr (cn, s))"

text \<open>\<open>sendRequest\<close>, called by the application, and in a callback of connection \<open>n\<close>.\<close>

definition sendRequest ::
  "kernel \<Rightarrow> int \<Rightarrow> (nat \<Rightarrow> nat \<Rightarrow> 'f) \<Rightarrow> nat \<Rightarrow> http_request \<Rightarrow> 'r option \<Rightarrow>
   ('f, 'r, 'z) http_client_scheme \<Rightarrow> ('f, 'r, 'z) http_client_scheme res" where
  "sendRequest K tid bnd addr req cb s =
     (let s1 = s\<lparr>hc_callback := cb\<rparr>
      in case cli_connection s1 of
           None \<Rightarrow> Inr s1
         | Some m \<Rightarrow> with_cli m s1 (\<lambda>cn.
             rbind (transmit K tid bnd addr req (cn, s1)) (\<lambda>(cn', s'). Inr (put_cli m cn' s'))))"

definition sendRequest_on ::
  "kernel \<Rightarrow> int \<Rightarrow> (nat \<Rightarrow> nat \<Rightarrow> 'f) \<Rightarrow> nat \<Rightarrow> nat \<Rightarrow> http_request \<Rightarrow> 'r option \<Rightarrow>
   ('f, 'r, 'z) hc_st \<Rightarrow> ('f, 'r, 'z) hc_st res" where
  "sendRequest_on K tid bnd addr n req cb st =
     (case st of (cn, s) \<Rightarrow>
        if cli_connection s = Some n then transmit K tid bnd addr req (cn, s\<lparr>hc_callback := cb\<rparr>)
        else rbind (sendRequest K tid bnd addr req cb s) (\<lambda>s'. Inr (cn, s')))"

text \<open>What \<open>get\<close> and \<open>post\<close> do with the request they have made, under the lock.\<close>

definition enqueue_request ::
  "kernel \<Rightarrow> net \<Rightarrow> con_env \<Rightarrow> 'f con_functors \<Rightarrow> (nat \<Rightarrow> nat \<Rightarrow> 'f) \<Rightarrow> nat \<Rightarrow> http_request \<Rightarrow>
   ('f, 'r, 'z) http_client_scheme \<Rightarrow> ('f, 'r, 'z) http_client_scheme res" where
  "enqueue_request K N E F bnd addr req s =
     rbind (if \<not> hc_connected s \<and> \<not> hc_isConnecting s then
              rbind (hc_connect K N E F s) (\<lambda>s1. Inr (s1\<lparr>hc_isConnecting := True\<rparr>))
            else Inr s) (\<lambda>s1.
       if \<not> hc_connected s1 then Inr (s1\<lparr>hc_requests := hc_requests s1 @ [req]\<rparr>)
       else sendRequest K (env_tid E) bnd addr req (hc_callback s1) s1)"

definition hc_get ::
  "kernel \<Rightarrow> net \<Rightarrow> con_env \<Rightarrow> 'f con_functors \<Rightarrow> (nat \<Rightarrow> nat \<Rightarrow> 'f) \<Rightarrow> nat \<Rightarrow> string \<Rightarrow>
   ('f, 'r, 'z) http_client_scheme \<Rightarrow> ('f, 'r, 'z) http_client_scheme res" where
  "hc_get K N E F bnd addr path s = rbind (make_get path) (\<lambda>req. enqueue_request K N E F bnd addr req s)"

definition hc_post ::
  "kernel \<Rightarrow> net \<Rightarrow> con_env \<Rightarrow> 'f con_functors \<Rightarrow> (nat \<Rightarrow> nat \<Rightarrow> 'f) \<Rightarrow> nat \<Rightarrow> string \<Rightarrow> string \<Rightarrow> string \<Rightarrow>
   ('f, 'r, 'z) http_client_scheme \<Rightarrow> ('f, 'r, 'z) http_client_scheme res" where
  "hc_post K N E F bnd addr path body contentType s =
     rbind (make_post path body contentType) (\<lambda>req. enqueue_request K N E F bnd addr req s)"

subsection \<open>The callbacks\<close>

definition hc_onConnection ::
  "kernel \<Rightarrow> int \<Rightarrow> (nat \<Rightarrow> nat \<Rightarrow> 'f) \<Rightarrow> nat \<Rightarrow> nat \<Rightarrow> ('f, 'r, 'z) hc_st \<Rightarrow> ('f, 'r, 'z) hc_st res" where
  "hc_onConnection K tid bnd addr n st =
     (case st of (cn, s) \<Rightarrow>
        if connected cn then
          let cn1 = setContext (Some HttpContext_ctor) cn;
              s1 = s\<lparr>hc_connected := True\<rparr>
          in case hc_requests s1 of
               [] \<Rightarrow> Inr (cn1, s1)
             | r # rs \<Rightarrow> rbind (sendRequest_on K tid bnd addr n r (hc_callback s1) (cn1, s1)) (\<lambda>(cn2, s2).
                 Inr (cn2, s2\<lparr>hc_requests := tl (hc_requests s2)\<rparr>))
        else Inr (cn, s\<lparr>hc_connected := False, hc_isConnecting := False\<rparr>))"

text \<open>\<open>t\<close> is the id a new thread of the pool would get. The context is a new one each time.\<close>

definition handleResponse ::
  "int \<Rightarrow> 'f \<Rightarrow> nat \<Rightarrow> ('r \<Rightarrow> http_response \<Rightarrow> ('f, 'r, 'z) hc_st \<Rightarrow> ('f, 'r, 'z) hc_st res) \<Rightarrow> timestamp \<Rightarrow>
   ('f, 'r, 'z) hc_st \<Rightarrow> ('f, 'r, 'z) hc_st res" where
  "handleResponse tid shf t run_cb receiveTime st =
     (case st of (cn, s) \<Rightarrow>
        case parseResponse receiveTime HttpContext_ctor (inputBuffer cn) of
          None \<Rightarrow> Inl Hang
        | Some (Inl e) \<Rightarrow> Inl e
        | Some (Inr (ok, context, buf)) \<Rightarrow>
            let cn1 = cn\<lparr>inputBuffer := buf\<rparr>
            in if ok then
                 if gotAll context then
                   (case hc_callback s of
                      None \<Rightarrow> Inr (cn1, s)
                    | Some cb \<Rightarrow>
                        if hc_useThreadPool s then
                          rbind (submit t (cb, ctx_response context) (hc_threadPool s)) (\<lambda>(_, p).
                            Inr (cn1, s\<lparr>hc_threadPool := p\<rparr>))
                        else run_cb cb (ctx_response context) (cn1, s))
                 else Inr (cn1, s)
               else shutdown tid shf (cn1, s))"

definition hc_onMessage ::
  "kernel \<Rightarrow> int \<Rightarrow> (nat \<Rightarrow> nat \<Rightarrow> 'f) \<Rightarrow> nat \<Rightarrow> 'f \<Rightarrow> nat \<Rightarrow>
   ('r \<Rightarrow> http_response \<Rightarrow> ('f, 'r, 'z) hc_st \<Rightarrow> ('f, 'r, 'z) hc_st res) \<Rightarrow> nat \<Rightarrow> timestamp \<Rightarrow>
   ('f, 'r, 'z) hc_st \<Rightarrow> ('f, 'r, 'z) hc_st res" where
  "hc_onMessage K tid bnd addr shf t run_cb n receiveTime st =
     rbind (handleResponse tid shf t run_cb receiveTime st) (\<lambda>(cn, s).
       case hc_requests s of
         [] \<Rightarrow> Inr (cn, s)
       | req # rs \<Rightarrow> sendRequest_on K tid bnd addr n req (hc_callback s) (cn, s\<lparr>hc_requests := rs\<rparr>))"

text \<open>The callbacks the constructor sets on the TCP client, for its connection \<open>n\<close>.\<close>

definition hc_callbacks ::
  "kernel \<Rightarrow> int \<Rightarrow> (nat \<Rightarrow> nat \<Rightarrow> 'f) \<Rightarrow> nat \<Rightarrow> 'f \<Rightarrow> nat \<Rightarrow>
   ('r \<Rightarrow> http_response \<Rightarrow> ('f, 'r, 'z) hc_st \<Rightarrow> ('f, 'r, 'z) hc_st res) \<Rightarrow> nat \<Rightarrow> ('f, 'r, 'z) hc_st conn_callbacks" where
  "hc_callbacks K tid bnd addr shf t run_cb n =
     cli_setMessageCallback (Some (hc_onMessage K tid bnd addr shf t run_cb n))
       (cli_setConnectionCallback (Some (hc_onConnection K tid bnd addr n)) no_callbacks)"

subsection \<open>The bytes of a request\<close>

lemma print_request_bytes:
  "buffer_inv (print_request r)" "readable (print_request r) = request_head r @ req_body r"
proof -
  let ?b4 = "append_cstr (append_buf (append_cstr (append_cstr (Buffer_ctor kInitialSize) (methodString r)) '' '') (req_path r))
      ('' HTTP/1.1'' @ kCRLF)"
  have nul: "takeWhile (\<lambda>c. c \<noteq> CHR 0x00) (methodString r) = methodString r" "takeWhile (\<lambda>c. c \<noteq> CHR 0x00) kCRLF = kCRLF"
    by (cases "req_method r") (simp_all add: methodString_def kCRLF_def)
  have b4: "buffer_inv ?b4" "readable ?b4 = request_line (methodString r) (req_path r) ''HTTP/1.1'' @ kCRLF"
    by (simp_all add: append_cstr_def request_line_def nul)
  note b5 = append_headers_correct [OF b4(1), of "req_headers r"]
  show "buffer_inv (print_request r)" "readable (print_request r) = request_head r @ req_body r"
    using b4 b5 by (auto simp: print_request_def Let_def append_cstr_def request_head_def nul)
qed

lemma trimmed_dec [simp]: "trimmed (dec n)"
  using dec_digits [of "hd (dec n)" n] dec_digits [of "last (dec n)" n] isdigit_not_space by (simp add: trimmed_def)

text \<open>What the two methods that make requests yield for sensible arguments.\<close>

definition path_ok :: "string \<Rightarrow> bool" where
  "path_ok path \<longleftrightarrow> CHR '' '' \<notin> set path \<and> CHR ''?'' \<notin> set path \<and> CHR 0x0D \<notin> set path"

lemma make_get_arrives:
  assumes "path_ok path" "make_get path = Inr r" "buffer_inv b" "readable b = request_head r @ req_body r @ rest"
  shows "request_arrived r rest b"
  using assms by (auto simp: make_get_def setMethod_def parse_method_def HttpRequest_ctor_def setVersion_def setPath_def
      path_ok_def request_arrived_def wf_request_def Let_def)

lemma make_post_arrives:
  assumes "path_ok path" "CHR 0x0D \<notin> set ct" "trimmed ct" "length body < 2 ^ 31" "make_post path body ct = Inr r"
    "buffer_inv b" "readable b = request_head r @ req_body r @ rest"
  shows "request_arrived r rest b"
proof -
  have r: "req_method r = kPost" "req_version r = kHttp11" "req_query r = []" "req_path r = path" "req_body r = body"
    "req_headers r = smap_put ''Content-Length'' (dec (length body)) (smap_put ''Content-Type'' ct [])"
    using assms(5) by (auto simp: make_post_def setMethod_def parse_method_def HttpRequest_ctor_def setVersion_def setPath_def
        setBody_def addHeader_def Let_def)
  have "smap_ok (req_headers r)" unfolding r(6) by (intro smap_ok_put) simp
  moreover have "set (req_headers r) \<subseteq> {(''Content-Length'', dec (length body)), (''Content-Type'', ct)}"
    unfolding r(6) by auto
  then have "\<forall>kv \<in> set (req_headers r). wf_header kv" using assms(2,3) by (auto simp: wf_header_def)
  moreover have "getHeader ''Content-Length'' r = dec (length body)" unfolding getHeader_def r(6) map_of_smap_put by simp
  ultimately show ?thesis
    using assms(1,4,6,7) r(1-5) by (simp add: request_arrived_def wf_request_def path_ok_def)
qed

lemma transmit_output:
  assumes K: "ctl_sound K" "write_sound K" "never_reset K"
    and inv: "conn_inv (cn, s)" "fresh_history (cn, s)" and st: "conn_state cn = TcpConnection.kConnected"
  obtains out s' where "transmit K (threadId s) bnd addr r (cn, s) = Inr (cn\<lparr>outputBuffer := out\<rparr>, s')"
    "sent (conn_fd cn) (life s') @ readable out = readable (outputBuffer cn) @ request_head r @ req_body r"
proof (rule send_output [OF K(1,2) inv st never_reset_takes [OF K(3) inv(1) st], of "request_head r @ req_body r"])
  fix out s'
  assume s': "sendInLoop K (threadId s) (request_head r @ req_body r) (cn, s) = Inr (cn\<lparr>outputBuffer := out\<rparr>, s')"
    "sent (conn_fd cn) (life s') @ readable out = readable (outputBuffer cn) @ request_head r @ req_body r"
  have "transmit K (threadId s) bnd addr r (cn, s) = Inr (cn\<lparr>outputBuffer := out\<rparr>, s')"
    using s'(1) st print_request_bytes [of r]
    by (simp add: transmit_def connected_def send_Buffer_def isInLoopThread_def readable_mem)
  from this s'(2) show thesis by (rule that)
qed

text \<open>
  A request made by \<open>get\<close> or \<open>post\<close> and sent in the loop's thread on a live connection reaches
  the other side as it was made. The bytes handed to the socket and its output buffer, after
  what waited there, are such that the parser of a server, given them with whatever follows,
  yields in one call exactly this request (method, path, headers, and the body of a POST) and
  leaves what follows in its buffer.
\<close>

theorem client_request_reaches_server:
  assumes "ctl_sound K" "write_sound K" "never_reset K"
    and "conn_inv (cn, s)" "fresh_history (cn, s)" "conn_state cn = TcpConnection.kConnected"
    and "path_ok path" "CHR 0x0D \<notin> set contentType" "trimmed contentType" "length body < 2 ^ 31"
    and "make_get path = Inr r \<or> make_post path body contentType = Inr r"
  shows "\<exists>cn' s' wire. transmit K (threadId s) bnd addr r (cn, s) = Inr (cn', s') \<and>
    sent (conn_fd cn) (life s') @ readable (outputBuffer cn') = readable (outputBuffer cn) @ wire \<and>
    (\<forall>b rest. buffer_inv b \<and> readable b = wire @ rest \<longrightarrow>
       (\<exists>b'. parseRequest t (ready_ctx old) b =
          Some (Inr (True, (ready_ctx old)\<lparr>ctx_state := kGotAll, ctx_request := request_seen t old r\<rparr>, b')) \<and>
          readable b' = rest))"
proof (rule transmit_output [OF assms(1-6), of bnd addr r])
  fix out s'
  assume s': "transmit K (threadId s) bnd addr r (cn, s) = Inr (cn\<lparr>outputBuffer := out\<rparr>, s')"
    "sent (conn_fd cn) (life s') @ readable out = readable (outputBuffer cn) @ request_head r @ req_body r"
  have "\<exists>b'. parseRequest t (ready_ctx old) b =
          Some (Inr (True, (ready_ctx old)\<lparr>ctx_state := kGotAll, ctx_request := request_seen t old r\<rparr>, b')) \<and> readable b' = rest"
    if "buffer_inv b" "readable b = (request_head r @ req_body r) @ rest" for b rest
  proof -
    have rd: "readable b = request_head r @ req_body r @ rest" using that(2) by simp
    have "request_arrived r rest b"
      using assms(11) make_get_arrives [OF assms(7) _ that(1) rd] make_post_arrives [OF assms(7-10) _ that(1) rd] by blast
    then show ?thesis by (rule arrived_parse [where t = t and old = old]) blast
  qed
  with s' show ?thesis
    by (intro exI [of _ "cn\<lparr>outputBuffer := out\<rparr>"] exI [of _ s'] exI [of _ "request_head r @ req_body r"]) simp
qed

theorem client_request_reaches_server_witness:
  "\<exists>cn' s' wire r. make_post ''/x'' ''hi'' ''text/plain'' = Inr r \<and>
    transmit ideal_kernel 100 (\<lambda>a n. 50) 7000 r (demo_http_conn [], demo_http_loop) = Inr (cn', s') \<and>
    sent 5 (life s') @ readable (outputBuffer cn') = wire \<and>
    (\<exists>b'. parseRequest 9 (ready_ctx []) (append_buf (Buffer_ctor 8) wire) =
       Some (Inr (True, (ready_ctx [])\<lparr>ctx_state := kGotAll, ctx_request := request_seen 9 [] r\<rparr>, b')) \<and> readable b' = [])"
proof -
  obtain r where r: "make_post ''/x'' ''hi'' ''text/plain'' = Inr r"
    by (simp add: make_post_def setMethod_def HttpRequest_ctor_def)
  have c: "conn_state (demo_http_conn []) = TcpConnection.kConnected" "conn_fd (demo_http_conn []) = 5"
    "readable (outputBuffer (demo_http_conn [])) = []"
    by (simp_all add: demo_http_conn_def)
  have ok: "path_ok ''/x''" "CHR 0x0D \<notin> set ''text/plain''" "trimmed ''text/plain''" "length ''hi'' < 2 ^ 31"
    by (simp_all add: path_ok_def trimmed_def isspace_def)
  obtain cn' s' wire where w:
    "transmit ideal_kernel 100 (\<lambda>a n. 50) 7000 r (demo_http_conn [], demo_http_loop) = Inr (cn', s')"
    "sent 5 (life s') @ readable (outputBuffer cn') = wire"
    "\<And>b rest. buffer_inv b \<and> readable b = wire @ rest \<Longrightarrow>
       (\<exists>b'. parseRequest 9 (ready_ctx []) b =
          Some (Inr (True, (ready_ctx [])\<lparr>ctx_state := kGotAll, ctx_request := request_seen 9 [] r\<rparr>, b')) \<and>
          readable b' = rest)"
    using client_request_reaches_server [OF ideal_kernel_sound(1,2) never_reset_ideal demo_http_conn_facts c(1) ok disjI2 [OF r],
        of "\<lambda>a n. 50" 7000 9 "[]"] c
    by auto
  from w(3) [of "append_buf (Buffer_ctor 8) wire" "[]"] w(1,2) r show ?thesis by simp
qed

subsection \<open>Requests that wait\<close>

lemma client_more_http:
  assumes "tcp_client.more (t :: ('f, 'r, 'z) http_client_scheme) = tcp_client.more s"
  shows "hc_requests t = hc_requests s" "hc_callback t = hc_callback s" "hc_connected t = hc_connected s"
  using assms by (cases s; cases t; simp)+

lemma loop_more_http:
  assumes "event_loop.more (t :: ('f, 'r, 'z) http_client_scheme) = event_loop.more s"
  shows "tcp_client.more t = tcp_client.more s" "born t = born s"
  using assms by (cases s; cases t; simp)+

text \<open>A live connection in its first moments: nothing sent, nothing received.\<close>

lemma transmit_first:
  assumes K: "ctl_sound K" "write_sound K" "never_reset K" and inv: "conn_inv (cn, s)"
    and st: "conn_state cn = TcpConnection.kConnected" "readable (outputBuffer cn) = []" "readable (inputBuffer cn) = []"
    and h: "accepted_bytes s = []" "consumed_bytes s = []" "born s \<le> length (trace s)"
      "life s = [SockKeepAlive fd, EpollCtl op fd ev c True]"
  obtains out s' where "transmit K (threadId s) bnd addr r (cn, s) = Inr (cn\<lparr>outputBuffer := out\<rparr>, s')"
    "sent (conn_fd cn) (life s') @ readable out = request_head r @ req_body r" "event_loop.more s' = event_loop.more s"
proof (rule send_first [OF K inv st h, of "request_head r @ req_body r"])
  fix out s'
  assume s': "sendInLoop K (threadId s) (request_head r @ req_body r) (cn, s) = Inr (cn\<lparr>outputBuffer := out\<rparr>, s')"
    "sent (conn_fd cn) (life s') @ readable out = request_head r @ req_body r" "event_loop.more s' = event_loop.more s"
  have "transmit K (threadId s) bnd addr r (cn, s) = Inr (cn\<lparr>outputBuffer := out\<rparr>, s')"
    using s'(1) st print_request_bytes [of r]
    by (simp add: transmit_def connected_def send_Buffer_def isInLoopThread_def readable_mem)
  from this s'(2,3) show thesis by (rule that)
qed

text \<open>
  The request that waits longest is sent as soon as the connection is made: when the
  connector hands over its socket, the new connection is up, watched for reading and the
  client's current one, the client counts as connected, exactly the bytes of the first
  request are handed to the socket and its output buffer, and the other requests go on waiting.
\<close>

theorem first_request_sent_when_up:
  assumes "ctl_sound K" "write_sound K" "never_reset K"
    and "poller_inv s" "heap s c = None" "channels s fd = None"
    and "cli_connection s = None" "cli_nextConnId s < 2 ^ 31 - 1"
    and "connectionCallback (CB n) = Some (hc_onConnection K (threadId s) bnd addr n)"
    and "hc_requests s = r # rs"
    and "accepted_bytes s = []" "consumed_bytes s = []" "born s = length (trace s)"
  shows "\<exists>s' cn. cli_newConnection K N G CB n c ctx fd s = Inr s' \<and> cli_conns s' n = Some cn \<and>
    conn_state cn = TcpConnection.kConnected \<and> cli_connection s' = Some n \<and> hc_connected s' \<and> hc_requests s' = rs \<and>
    sent fd (life s') @ readable (outputBuffer cn) = request_head r @ req_body r"
proof (rule newConnection_up [where s = s and CB = CB and n = n and N = N and G = G and ctx = ctx,
      OF assms(1,4,5,6,9,7,8)])
  fix cn t
  assume new: "cli_newConnection K N G CB n c ctx fd s =
      rbind (hc_onConnection K (threadId s) bnd addr n (cn, t)) (\<lambda>(cn2, s4). Inr (put_cli n cn2 s4))"
    and cn: "conn_state cn = TcpConnection.kConnected" "conn_fd cn = fd" "conn_inv (cn, t)"
      "readable (outputBuffer cn) = []" "readable (inputBuffer cn) = []"
    and t: "cli_connection t = Some n" "threadId t = threadId s" "tcp_client.more t = tcp_client.more s"
      "trace t = trace s @ [SockKeepAlive fd, EpollCtl CTL_ADD fd kReadEvent c True]"
      "accepted_bytes t = accepted_bytes s" "consumed_bytes t = consumed_bytes s" "born t = born s"
  let ?cn = "setContext (Some HttpContext_ctor) cn"
  let ?t = "t\<lparr>hc_connected := True, hc_callback := hc_callback t\<rparr>"
  have inv: "conn_inv (?cn, ?t)"
    using cn(3) by (simp add: conn_inv_def setContext_def poller_inv_def channel_ok_def can_register_def)
  have life: "life ?t = [SockKeepAlive fd, EpollCtl CTL_ADD fd kReadEvent c True]"
    using t(4,7) assms(13) by (simp add: life_def)
  obtain out s' where s': "transmit K (threadId ?t) bnd addr r (?cn, ?t) = Inr (?cn\<lparr>outputBuffer := out\<rparr>, s')"
    "sent (conn_fd ?cn) (life s') @ readable out = request_head r @ req_body r" "event_loop.more s' = event_loop.more ?t"
    by (rule transmit_first [OF assms(1-3) inv _ _ _ _ _ _ life, of bnd addr r])
       (use cn t assms(11-13) in \<open>simp_all add: setContext_def\<close>)
  note keep = loop_more_http [OF s'(3)] client_more_http [OF loop_more_http(1) [OF s'(3)]] loop_more_client(3) [OF s'(3)]
  let ?s' = "s'\<lparr>hc_requests := tl (hc_requests s')\<rparr>"
  have "hc_requests ?t = r # rs" using client_more_http(1) [OF t(3)] assms(10) by simp
  then have "hc_onConnection K (threadId s) bnd addr n (cn, t) = Inr (?cn\<lparr>outputBuffer := out\<rparr>, ?s')"
    using cn(1) t(1,2) s'(1) by (simp add: hc_onConnection_def connected_def sendRequest_on_def)
  with new have "cli_newConnection K N G CB n c ctx fd s = Inr (put_cli n (?cn\<lparr>outputBuffer := out\<rparr>) ?s')" by simp
  moreover have "hc_requests s' = r # rs" "hc_connected s'" "cli_connection s' = Some n"
    using keep client_more_http(1) [OF t(3)] assms(10) t(1) by simp_all
  ultimately show ?thesis
    using s'(2) cn(1,2)
    by (intro exI [of _ "put_cli n (?cn\<lparr>outputBuffer := out\<rparr>) ?s'"] exI [of _ "?cn\<lparr>outputBuffer := out\<rparr>"])
       (simp add: put_cli_def setContext_def life_def)
qed

definition demo_http_client :: "(nat, nat) http_client" where
  "demo_http_client = (HttpClient_ctor demo_http_loop demo_addr ''cli'' False 0 (- 1) 4 0)\<lparr>hc_requests := [demo_get, demo_get]\<rparr>"

lemma demo_http_client_facts:
  "poller_inv demo_http_client" "heap demo_http_client 2 = None" "channels demo_http_client 9 = None"
  "cli_connection demo_http_client = None" "cli_nextConnId demo_http_client = 1" "threadId demo_http_client = 100"
  "hc_requests demo_http_client = [demo_get, demo_get]" "accepted_bytes demo_http_client = []"
  "consumed_bytes demo_http_client = []" "born demo_http_client = length (trace demo_http_client)"
proof -
  have "poller_inv demo_http_client = poller_inv demo_http_loop"
    by (simp add: demo_http_client_def HttpClient_ctor_def TcpClient_ctor_def tcp_client.extend_def client_loop.extend_def
        poller_inv_def channel_ok_def Let_def)
  then show "poller_inv demo_http_client" using demo_conn_loop_facts(1) by simp
qed (simp_all add: demo_http_client_def HttpClient_ctor_def TcpClient_ctor_def tcp_client.extend_def client_loop.extend_def
    Let_def demo_http_loop_def event_loop.defs demo_conn_loop_def new_channel_def new_loop_def)

theorem first_request_sent_when_up_witness:
  "\<exists>s' cn. cli_newConnection ideal_kernel demo_net demo_cli_functors
      (\<lambda>n. \<lparr>connectionCallback = Some (hc_onConnection ideal_kernel 100 (\<lambda>a n. 50) 7000 n), messageCallback = None,
            closeCallback = None\<rparr>) 3 2 None 9 demo_http_client = Inr s' \<and>
    cli_conns s' 3 = Some cn \<and> hc_requests s' = [demo_get] \<and>
    sent 9 (life s') @ readable (outputBuffer cn) = ''GET /x HTTP/1.1'' @ kCRLF @ kCRLF"
proof -
  let ?CB = "\<lambda>n. \<lparr>connectionCallback = Some (hc_onConnection ideal_kernel 100 (\<lambda>a n. 50) 7000 n), messageCallback = None,
      closeCallback = None\<rparr>"
  note f = demo_http_client_facts
  have id: "cli_nextConnId demo_http_client < 2 ^ 31 - 1" using f(5) by simp
  have cb: "connectionCallback (?CB 3) = Some (hc_onConnection ideal_kernel (threadId demo_http_client) (\<lambda>a n. 50) 7000 3)"
    using f(6) by simp
  have "request_head demo_get @ req_body demo_get = ''GET /x HTTP/1.1'' @ kCRLF @ kCRLF"
    by (simp add: request_head_def demo_get_def methodString_def request_line_def)
  with first_request_sent_when_up [where s = demo_http_client and CB = ?CB and N = demo_net and G = demo_cli_functors and ctx = None,
      OF ideal_kernel_sound(1,2) never_reset_ideal f(1-4) id cb f(7-10)]
  show ?thesis by auto
qed

subsection \<open>Responses\<close>

text \<open>A response as the client's parser yields it: the blank after the colon stays in the header values.\<close>

definition response_seen :: "http_response \<Rightarrow> http_response" where
  "response_seen r =
     HttpResponse_default\<lparr>resp_statusCode := resp_statusCode r,
       resp_headers := foldl (\<lambda>m kv. smap_put (fst kv) (CHR '' '' # snd kv) m) [] (framing_headers r @ resp_headers r),
       resp_body := resp_body r\<rparr>"

lemma response_handled:
  assumes "buffer_inv (inputBuffer cn)" "wf_response r" "readable (inputBuffer cn) = response_bytes r"
    and "hc_callback s = Some cb"
  shows "\<exists>b'. readable b' = [] \<and> handleResponse tid shf t run_cb now (cn, s) =
     (if hc_useThreadPool s then
        rbind (submit t (cb, response_seen r) (hc_threadPool s)) (\<lambda>(_, p).
          Inr (cn\<lparr>inputBuffer := b'\<rparr>, s\<lparr>hc_threadPool := p\<rparr>))
      else run_cb cb (response_seen r) (cn\<lparr>inputBuffer := b'\<rparr>, s)) \<and>
    resp_statusCode (response_seen r) = resp_statusCode r \<and> resp_body (response_seen r) = resp_body r"
proof -
  from parseResponse_printed [OF assms(1,2), of "[]" now] assms(3) obtain b' where
    "parseResponse now HttpContext_ctor (inputBuffer cn) =
       Some (Inr (True, HttpContext_ctor\<lparr>ctx_state := kGotAll, ctx_response := response_seen r\<rparr>, b'))" "readable b' = []"
    by (auto simp: response_seen_def)
  with assms(4) show ?thesis
    by (intro exI [of _ b']) (simp add: handleResponse_def gotAll_def response_seen_def)
qed

text \<open>
  A response that has arrived in one piece reaches the application. From exactly the bytes
  a server prints for a response, \<open>handleResponse\<close> calls the response callback once, or submits
  one task to the thread pool if that is enabled, with the server's status, body and headers
  (each value with a blank in front); nothing is left in the input buffer.
\<close>

theorem response_reaches_callback:
  assumes "buffer_inv (inputBuffer cn)" "wf_response r" "readable (inputBuffer cn) = response_bytes r"
    and "hc_callback s = Some cb"
  shows "\<exists>b'. readable b' = [] \<and> handleResponse tid shf t run_cb now (cn, s) =
     (if hc_useThreadPool s then
        rbind (submit t (cb, response_seen r) (hc_threadPool s)) (\<lambda>(_, p).
          Inr (cn\<lparr>inputBuffer := b'\<rparr>, s\<lparr>hc_threadPool := p\<rparr>))
      else run_cb cb (response_seen r) (cn\<lparr>inputBuffer := b'\<rparr>, s)) \<and>
    resp_statusCode (response_seen r) = resp_statusCode r \<and> resp_body (response_seen r) = resp_body r"
  by (rule response_handled [OF assms])

theorem response_reaches_callback_witness:
  "\<exists>b'. readable b' = [] \<and>
     handleResponse 100 51 8 (\<lambda>cb resp st. Inl RuntimeError) 0
       (demo_http_conn (response_bytes (setStatusCode 200 (HttpResponse_ctor True))), demo_http_client) = Inl RuntimeError"
proof -
  let ?r = "setStatusCode 200 (HttpResponse_ctor True)"
  let ?cn = "demo_http_conn (response_bytes ?r)"
  have "buffer_inv (inputBuffer ?cn)" "readable (inputBuffer ?cn) = response_bytes ?r" "wf_response ?r"
    by (simp_all add: demo_http_conn_def wf_response_def setStatusCode_def HttpResponse_ctor_def)
  moreover have "hc_callback demo_http_client = Some 0" "\<not> hc_useThreadPool demo_http_client"
    by (simp_all add: demo_http_client_def HttpClient_ctor_def tcp_client.extend_def Let_def)
  ultimately show ?thesis
    using response_reaches_callback [of ?cn ?r demo_http_client 0 100 51 8 "\<lambda>cb resp st. Inl RuntimeError" 0] by auto
qed



text \<open>
  A request made while the client counts as connected is sent at once, in front of those
  that still wait for their turn, so requests can leave in another order than they were made.
\<close>

theorem direct_request_overtakes:
  assumes "ctl_sound K" "write_sound K" "never_reset K"
    and "hc_connected s" "cli_connection s = Some n" "cli_conns s n = Some cn"
    and "conn_inv (cn, s)" "fresh_history (cn, s)" "conn_state cn = TcpConnection.kConnected"
    and "isInLoopThread (env_tid E) s" "make_get path = Inr r"
  shows "\<exists>s' cn'. hc_get K N E F bnd addr path s = Inr s' \<and> cli_conns s' n = Some cn' \<and>
    sent (conn_fd cn) (life s') @ readable (outputBuffer cn') = readable (outputBuffer cn) @ request_head r @ req_body r \<and>
    hc_requests s' = hc_requests s"
proof -
  let ?s = "s\<lparr>hc_callback := hc_callback s\<rparr>"
  have tid: "env_tid E = threadId ?s" using assms(10) by (simp add: isInLoopThread_def)
  obtain out s' where s': "transmit K (threadId s) bnd addr r (cn, ?s) = Inr (cn\<lparr>outputBuffer := out\<rparr>, s')"
    "sent (conn_fd cn) (life s') @ readable out = readable (outputBuffer cn) @ request_head r @ req_body r"
    by (rule transmit_output [OF assms(1-3,7-9), of bnd addr r]) simp
  have "hc_get K N E F bnd addr path s = Inr (put_cli n (cn\<lparr>outputBuffer := out\<rparr>) s')"
    using assms(4-6,11) s'(1) tid by (simp add: hc_get_def enqueue_request_def sendRequest_def with_cli_def)
  moreover have "hc_requests s' = hc_requests s"
  proof -
    have "sendInLoop K (threadId s) (request_head r @ req_body r) (cn, s) = Inr (cn\<lparr>outputBuffer := out\<rparr>, s')"
      using s'(1) assms(9) print_request_bytes [of r]
      by (auto simp: transmit_def connected_def send_Buffer_def isInLoopThread_def readable_mem rbind_eq_Inr)
    from client_more_http(1) [OF loop_more_http(1) [OF sendInLoop_more [OF this]]] show ?thesis .
  qed
  ultimately show ?thesis
    using s'(2) by (intro exI [of _ "put_cli n (cn\<lparr>outputBuffer := out\<rparr>) s'"] exI [of _ "cn\<lparr>outputBuffer := out\<rparr>"])
       (simp add: put_cli_def life_def)
qed

theorem direct_request_overtakes_witness:
  "\<exists>s' cn'. hc_get ideal_kernel demo_net (demo_env 1) demo_functors (\<lambda>a n. 50) 7000 ''/y''
      (demo_http_client\<lparr>hc_connected := True, cli_connection := Some 3, cli_conns := [3 \<mapsto> demo_http_conn []]\<rparr>) = Inr s' \<and>
    cli_conns s' 3 = Some cn' \<and> sent 5 (life s') @ readable (outputBuffer cn') = ''GET /y HTTP/1.1'' @ kCRLF @ kCRLF \<and>
    hc_requests s' = [demo_get, demo_get]"
proof -
  let ?s = "demo_http_client\<lparr>hc_connected := True, cli_connection := Some 3, cli_conns := [3 \<mapsto> demo_http_conn []]\<rparr>"
  have s: "hc_connected ?s" "cli_connection ?s = Some 3" "cli_conns ?s 3 = Some (demo_http_conn [])"
    "isInLoopThread (env_tid (demo_env 1)) ?s" "conn_state (demo_http_conn []) = TcpConnection.kConnected"
    "conn_fd (demo_http_conn []) = 5" "readable (outputBuffer (demo_http_conn [])) = []"
    using demo_http_client_facts(6) by (simp_all add: isInLoopThread_def demo_env_def demo_http_conn_def)
  have e: "heap ?s = heap demo_http_loop" "channels ?s = channels demo_http_loop" "trace ?s = trace demo_http_loop"
    by (simp_all add: demo_http_client_def HttpClient_ctor_def TcpClient_ctor_def tcp_client.extend_def client_loop.extend_def
        Let_def demo_http_loop_def event_loop.defs)
  have inv: "conn_inv (demo_http_conn [], ?s)"
    using demo_http_conn_facts(1) [of "[]"] e unfolding conn_inv_def poller_inv_def channel_ok_def can_register_def by simp
  have fresh: "fresh_history (demo_http_conn [], ?s)"
    using s(7) demo_http_client_facts(8-10) by (simp add: fresh_history_def)
  obtain r where r: "make_get ''/y'' = Inr r" "request_head r @ req_body r = ''GET /y HTTP/1.1'' @ kCRLF @ kCRLF"
    by (simp add: make_get_def setMethod_def HttpRequest_ctor_def parse_method_def setPath_def setVersion_def request_head_def
        methodString_def request_line_def)
  from direct_request_overtakes [of ideal_kernel ?s 3 "demo_http_conn []" "demo_env 1" "''/y''" r demo_net demo_functors "\<lambda>a n. 50" 7000]
    s inv fresh r demo_http_client_facts(7)
  show ?thesis by auto
qed

end
