(* ===== verification/EventLoopThreadPool.thy ===== *)
theory EventLoopThreadPool
  imports Prelude
begin

text \<open>
  The threads that run event loops (\<^verbatim>\<open>src/EventLoopThread.cpp\<close>, \<^verbatim>\<open>EventLoopThreadPool.cpp\<close>, and
  \<^verbatim>\<open>Thread.cpp\<close>). A loop is known by its address. The start of a loop's thread is a
  handshake between the starting thread and the new one, whose steps interleave; the pool
  hands its loops out in turn.

  What is shown: \<open>startLoop\<close> returns only the loop of the new thread, after the initialisation
  callback has run in it; a starter that comes too late, when the loop has already ended,
  waits for ever; the pool gives every loop the same number of connections, up to one; and what
  the destructor does at each place of the thread.
\<close>

subsection \<open>Threads\<close>

record thread =
  th_started :: bool
  th_joined :: bool
  th_tid :: int
  th_name :: string

text \<open>The constructor takes the counter of threads made and returns its new value.\<close>

definition setDefaultName :: "nat \<Rightarrow> thread \<Rightarrow> thread \<times> nat" where
  "setDefaultName numCreated th =
     (let num = numCreated + 1
      in (if th_name th = [] then th\<lparr>th_name := take 31 (''Thread'' @ dec num)\<rparr> else th, num))"

definition Thread_ctor :: "nat \<Rightarrow> string \<Rightarrow> thread \<times> nat" where
  "Thread_ctor numCreated name =
     setDefaultName numCreated \<lparr>th_started = False, th_joined = False, th_tid = 0, th_name = name\<rparr>"

text \<open>\<open>start\<close> returns when the new thread has stored its id, \<open>tid\<close>.\<close>

definition Thread_start :: "int \<Rightarrow> thread \<Rightarrow> thread" where
  "Thread_start tid th = th\<lparr>th_started := True, th_tid := tid\<rparr>"

definition Thread_join :: "thread \<Rightarrow> thread res" where
  "Thread_join th = (if th_started th then Inr (th\<lparr>th_joined := True\<rparr>) else Inl NullDeref)"

text \<open>The destructor; the result tells whether the thread is detached, that is, left running.\<close>

definition Thread_dtor :: "thread \<Rightarrow> bool" where
  "Thread_dtor th \<longleftrightarrow> th_started th \<and> \<not> th_joined th"

subsection \<open>A thread with its loop\<close>

record loop_thread =
  elt_loop :: "nat option"
  elt_exiting :: bool
  elt_thread :: thread
  elt_callback :: bool

definition EventLoopThread_ctor :: "nat \<Rightarrow> bool \<Rightarrow> string \<Rightarrow> loop_thread \<times> nat" where
  "EventLoopThread_ctor numCreated has_cb name =
     (let (th, n) = Thread_ctor numCreated name
      in (\<lparr>elt_loop = None, elt_exiting = False, elt_thread = th, elt_callback = has_cb\<rparr>, n))"

text \<open>
  The destructor, with that of the member \<^verbatim>\<open>thread_\<close>: the loop that is told to quit, whether the
  thread is left running, and the object. It reads \<open>loop_\<close> without the mutex.
\<close>

definition EventLoopThread_dtor :: "loop_thread \<Rightarrow> (nat option \<times> bool \<times> loop_thread) res" where
  "EventLoopThread_dtor e =
     (let e1 = e\<lparr>elt_exiting := True\<rparr>
      in rbind (case elt_loop e1 of
                  None \<Rightarrow> Inr (None, e1)
                | Some l \<Rightarrow> rbind (Thread_join (elt_thread e1)) (\<lambda>th. Inr (Some l, e1\<lparr>elt_thread := th\<rparr>)))
           (\<lambda>(quits, e2). Inr (quits, Thread_dtor (elt_thread e2), e2)))"

text \<open>
  The places of the new thread in \<open>threadFunc\<close>: not started, with its loop constructed, with the
  callback run, in \<open>loop()\<close>, returned from it, ended. The places of the starting thread in
  \<open>startLoop\<close>: before it, waiting, returned with a loop. \<open>calls\<close> counts the runs of the callback.
\<close>

datatype func_place = FNot | FBuilt | FCalled | FLooping | FLeft | FEnded

datatype start_place = SBefore | SWaiting | SReturned nat

record handshake =
  elt :: loop_thread
  fplace :: func_place
  splace :: start_place
  calls :: nat

definition startLoop_begin :: "int \<Rightarrow> handshake \<Rightarrow> handshake" where
  "startLoop_begin tid h =
     h\<lparr>elt := (elt h)\<lparr>elt_thread := Thread_start tid (elt_thread (elt h))\<rparr>, fplace := FBuilt, splace := SWaiting\<rparr>"

text \<open>The wait ends when \<open>loop_\<close> is not null under the mutex.\<close>

definition startLoop_check :: "handshake \<Rightarrow> handshake option" where
  "startLoop_check h = (case elt_loop (elt h) of None \<Rightarrow> None | Some l \<Rightarrow> Some (h\<lparr>splace := SReturned l\<rparr>))"

definition threadFunc_callback :: "handshake \<Rightarrow> handshake" where
  "threadFunc_callback h =
     h\<lparr>fplace := FCalled, calls := if elt_callback (elt h) then calls h + 1 else calls h\<rparr>"

definition threadFunc_publish :: "nat \<Rightarrow> handshake \<Rightarrow> handshake" where
  "threadFunc_publish l h = h\<lparr>elt := (elt h)\<lparr>elt_loop := Some l\<rparr>, fplace := FLooping\<rparr>"

definition threadFunc_end :: "handshake \<Rightarrow> handshake" where
  "threadFunc_end h = h\<lparr>elt := (elt h)\<lparr>elt_loop := None\<rparr>, fplace := FEnded\<rparr>"

text \<open>\<open>l\<close> is the address of the loop on the new thread's stack.\<close>

inductive hs_step :: "nat \<Rightarrow> handshake \<Rightarrow> handshake \<Rightarrow> bool" for l where
  begins: "splace h = SBefore \<Longrightarrow> hs_step l h (startLoop_begin tid h)"
| calls: "fplace h = FBuilt \<Longrightarrow> hs_step l h (threadFunc_callback h)"
| publishes: "fplace h = FCalled \<Longrightarrow> hs_step l h (threadFunc_publish l h)"
| loop_ends: "fplace h = FLooping \<Longrightarrow> hs_step l h (h\<lparr>fplace := FLeft\<rparr>)"
| clears: "fplace h = FLeft \<Longrightarrow> hs_step l h (threadFunc_end h)"
| returns: "splace h = SWaiting \<Longrightarrow> startLoop_check h = Some h' \<Longrightarrow> hs_step l h h'"

inductive hs_reach :: "nat \<Rightarrow> loop_thread \<Rightarrow> handshake \<Rightarrow> bool" for l e where
  start: "elt_loop e = None \<Longrightarrow> hs_reach l e \<lparr>elt = e, fplace = FNot, splace = SBefore, calls = 0\<rparr>"
| step: "hs_reach l e h \<Longrightarrow> hs_step l h h' \<Longrightarrow> hs_reach l e h'"

definition hs_inv :: "nat \<Rightarrow> loop_thread \<Rightarrow> handshake \<Rightarrow> bool" where
  "hs_inv l e h \<longleftrightarrow>
     elt_callback (elt h) = elt_callback e \<and>
     elt_loop (elt h) = (if fplace h \<in> {FLooping, FLeft} then Some l else None) \<and>
     calls h = (if elt_callback e \<and> fplace h \<notin> {FNot, FBuilt} then 1 else 0) \<and>
     (splace h = SBefore \<longleftrightarrow> fplace h = FNot) \<and>
     (\<forall>l'. splace h = SReturned l' \<longrightarrow> l' = l \<and> fplace h \<in> {FLooping, FLeft, FEnded})"

lemma hs_inv_step:
  assumes "hs_step l h h'" "hs_inv l e h"
  shows "hs_inv l e h'"
  using assms(1)
proof cases
  case returns
  then obtain l' where l': "elt_loop (elt h) = Some l'" "h' = h\<lparr>splace := SReturned l'\<rparr>"
    by (auto simp: startLoop_check_def split: option.splits)
  then have "l' = l" "fplace h \<in> {FLooping, FLeft}" using assms(2) by (simp_all add: hs_inv_def split: if_splits)
  with l' assms(2) show ?thesis by (auto simp: hs_inv_def)
qed (use assms(2) in \<open>simp_all add: hs_inv_def startLoop_begin_def threadFunc_callback_def
      threadFunc_publish_def threadFunc_end_def\<close>)

lemma hs_inv_reach: "hs_reach l e h \<Longrightarrow> hs_inv l e h"
proof (induction rule: hs_reach.induct)
  case start
  then show ?case by (simp add: hs_inv_def)
qed (blast intro: hs_inv_step)

text \<open>
  C25: the handshake that starts a loop's thread. When \<open>startLoop\<close> returns, it returns the new
  thread's loop, which is constructed and whose initialisation callback has run exactly once
  (if there is one); a waiting starter can return exactly while the loop runs. If the loop
  ends first, the pointer is null again and the starter waits for ever.
\<close>

theorem startLoop_handshake:
  assumes "hs_reach l e h"
  shows "(\<forall>l'. splace h = SReturned l' \<longrightarrow> l' = l \<and> calls h = of_bool (elt_callback e) \<and>
      fplace h \<in> {FLooping, FLeft, FEnded}) \<and>
    (splace h = SWaiting \<longrightarrow>
      (startLoop_check h \<noteq> None \<longleftrightarrow> fplace h \<in> {FLooping, FLeft})) \<and>
    (splace h = SWaiting \<and> fplace h = FEnded \<longrightarrow> \<not> (\<exists>h'. hs_step l h h'))"
proof -
  have inv: "hs_inv l e h" by (rule hs_inv_reach [OF assms])
  have "\<not> hs_step l h h'" if "splace h = SWaiting" "fplace h = FEnded" for h'
  proof
    assume "hs_step l h h'"
    then show False
      using that inv by cases (auto simp: hs_inv_def startLoop_check_def)
  qed
  with inv show ?thesis
    by (auto simp: hs_inv_def startLoop_check_def split: option.splits)
qed

text \<open>The run in which the loop ends before the starter has looked.\<close>

definition demo_late :: handshake where
  "demo_late =
     threadFunc_end ((threadFunc_publish 9 (threadFunc_callback (startLoop_begin 101
       \<lparr>elt = fst (EventLoopThread_ctor 0 True []), fplace = FNot, splace = SBefore, calls = 0\<rparr>)))\<lparr>fplace := FLeft\<rparr>)"

lemma demo_late_reach: "hs_reach 9 (fst (EventLoopThread_ctor 0 True [])) demo_late"
  unfolding demo_late_def
  by (intro hs_reach.step [OF _ hs_step.clears] hs_reach.step [OF _ hs_step.loop_ends]
      hs_reach.step [OF _ hs_step.publishes] hs_reach.step [OF _ hs_step.calls]
      hs_reach.step [OF _ hs_step.begins] hs_reach.start)
     (simp_all add: EventLoopThread_ctor_def Thread_ctor_def setDefaultName_def startLoop_begin_def
       threadFunc_callback_def threadFunc_publish_def)

theorem startLoop_handshake_witness:
  "splace demo_late = SWaiting \<and> \<not> (\<exists>h'. hs_step 9 demo_late h')"
proof -
  have "splace demo_late = SWaiting" "fplace demo_late = FEnded"
    by (simp_all add: demo_late_def startLoop_begin_def threadFunc_callback_def threadFunc_publish_def threadFunc_end_def)
  with startLoop_handshake [OF demo_late_reach] show ?thesis by blast
qed

lemma hs_thread:
  assumes "hs_reach l e h" "\<not> th_started (elt_thread e)" "\<not> th_joined (elt_thread e)"
  shows "(th_started (elt_thread (elt h)) \<longleftrightarrow> fplace h \<noteq> FNot) \<and> \<not> th_joined (elt_thread (elt h))"
  using assms(1)
proof (induction rule: hs_reach.induct)
  case (step h h')
  from step.hyps(2) show ?case
  proof cases
    case (begins tid)
    with step.IH show ?thesis by (simp add: startLoop_begin_def Thread_start_def)
  next
    case returns
    with step.IH show ?thesis by (auto simp: startLoop_check_def split: option.splits)
  qed (use step.IH in \<open>simp_all add: threadFunc_callback_def threadFunc_publish_def threadFunc_end_def\<close>)
qed (use assms(2,3) in simp)

text \<open>
  The destructor of a loop's thread at each place of that thread. While the loop is published it
  is told to quit and the thread is joined. Otherwise nothing is told to quit, and a thread that
  was started is left running: harmless after it has ended, but between its start and the
  publication of its loop it goes on to use the destroyed object.
\<close>

theorem loop_thread_dtor:
  assumes "hs_reach l (fst (EventLoopThread_ctor n has_cb name)) h"
  shows "\<exists>e. EventLoopThread_dtor (elt h) =
      Inr (if fplace h \<in> {FLooping, FLeft} then Some l else None, fplace h \<in> {FBuilt, FCalled, FEnded}, e) \<and>
    (fplace h \<in> {FLooping, FLeft} \<longrightarrow> th_joined (elt_thread e))"
proof -
  have "\<not> th_started (elt_thread (fst (EventLoopThread_ctor n has_cb name)))"
    "\<not> th_joined (elt_thread (fst (EventLoopThread_ctor n has_cb name)))"
    by (simp_all add: EventLoopThread_ctor_def Thread_ctor_def setDefaultName_def Let_def)
  from hs_thread [OF assms this] hs_inv_reach [OF assms] show ?thesis
    by (cases "fplace h")
       (auto simp: EventLoopThread_dtor_def hs_inv_def Thread_join_def Thread_dtor_def Let_def)
qed

theorem loop_thread_dtor_witness:
  "\<exists>e. EventLoopThread_dtor (elt demo_late) = Inr (None, True, e)"
proof -
  have "fplace demo_late = FEnded" by (simp add: demo_late_def threadFunc_end_def)
  with loop_thread_dtor [OF demo_late_reach] show ?thesis by auto
qed

subsection \<open>The pool of loops\<close>

record loop_pool =
  baseLoop :: nat
  elp_name :: string
  elp_started :: bool
  numThreads :: int
  elp_next :: nat
  elp_threads :: "string list"
  elp_loops :: "nat list"

definition EventLoopThreadPool_ctor :: "nat \<Rightarrow> string \<Rightarrow> loop_pool" where
  "EventLoopThreadPool_ctor base nameArg =
     \<lparr>baseLoop = base, elp_name = nameArg, elp_started = False, numThreads = 0, elp_next = 0, elp_threads = [],
      elp_loops = []\<rparr>"

definition setThreadNum :: "int \<Rightarrow> loop_pool \<Rightarrow> loop_pool" where
  "setThreadNum n p = p\<lparr>numThreads := n\<rparr>"

text \<open>
  \<open>start\<close>: \<open>new_loop_at i\<close> is the loop that the \<open>i\<close>-th thread's \<open>startLoop\<close> returns. The second result
  tells whether the callback is called on the base loop. The name of a thread is cut to its
  array of 31 characters more than the pool's name.
\<close>

definition elp_thread_name :: "string \<Rightarrow> nat \<Rightarrow> string" where
  "elp_thread_name name i = take (length name + 31) (name @ dec i)"

definition elp_start :: "(nat \<Rightarrow> nat) \<Rightarrow> bool \<Rightarrow> loop_pool \<Rightarrow> loop_pool \<times> bool" where
  "elp_start new_loop_at has_cb p =
     (let p1 = p\<lparr>elp_started := True,
                elp_threads := elp_threads p @ map (elp_thread_name (elp_name p)) [0..<nat (numThreads p)],
                elp_loops := elp_loops p @ map new_loop_at [0..<nat (numThreads p)]\<rparr>
      in (p1, numThreads p = 0 \<and> has_cb))"

definition getNextLoop :: "loop_pool \<Rightarrow> nat res \<times> loop_pool" where
  "getNextLoop p =
     (if elp_loops p \<noteq> [] then
        let loop = (if elp_next p < length (elp_loops p) then Inr (elp_loops p ! elp_next p) else Inl OutOfRange);
            n = elp_next p + 1
        in (loop, p\<lparr>elp_next := if n \<ge> length (elp_loops p) then 0 else n\<rparr>)
      else (Inr (baseLoop p), p))"

definition getAllLoops :: "loop_pool \<Rightarrow> nat list" where
  "getAllLoops p = (if elp_loops p = [] then [baseLoop p] else elp_loops p)"

text \<open>The results of the first \<open>n\<close> calls of \<open>getNextLoop\<close>.\<close>

fun next_loops :: "nat \<Rightarrow> loop_pool \<Rightarrow> nat res list \<times> loop_pool" where
  "next_loops 0 p = ([], p)"
| "next_loops (Suc n) p =
     (let (ls, p1) = next_loops n p; (l, p2) = getNextLoop p1 in (ls @ [l], p2))"

lemma next_loops_cycle:
  assumes "elp_next p = 0" "elp_loops p \<noteq> []"
  shows "next_loops n p =
    (map (\<lambda>i. Inr (elp_loops p ! (i mod length (elp_loops p)))) [0..<n], p\<lparr>elp_next := n mod length (elp_loops p)\<rparr>)"
proof (induction n)
  case 0
  then show ?case using assms(1) by simp
next
  case (Suc n)
  have "n mod length (elp_loops p) < length (elp_loops p)" using assms(2) by simp
  then consider "Suc (n mod length (elp_loops p)) = length (elp_loops p)"
    | "Suc (n mod length (elp_loops p)) < length (elp_loops p)" by linarith
  then show ?case
    using Suc assms(2) by cases (simp_all add: getNextLoop_def Let_def mod_Suc)
qed

lemma count_mod:
  assumes "0 < k" "j < k"
  shows "length (filter (\<lambda>i. i mod k = j) [0..<n]) = n div k + of_bool (j < n mod k)"
proof (induction n)
  case (Suc n)
  have "n mod k < k" using assms(1) by simp
  with Suc assms show ?case by (auto simp: mod_Suc div_Suc)
qed simp

text \<open>
  C31: the pool shares the work out evenly. Once started with \<open>k > 0\<close> loops, \<open>n\<close> calls of
  \<open>getNextLoop\<close> return the loops in turn, never anything else, and each loop \<open>n div k\<close> or
  \<open>n div k + 1\<close> times; without threads every call returns the base loop.
\<close>

theorem getNextLoop_balanced:
  assumes "distinct (map new_loop_at [0..<k])" "0 < k" "j < k"
  shows "(let p = fst (elp_start new_loop_at cb (setThreadNum (int k) (EventLoopThreadPool_ctor base name)));
        ls = fst (next_loops n p)
      in ls = map (\<lambda>i. Inr (new_loop_at (i mod k))) [0..<n] \<and>
         length (filter (\<lambda>l. l = Inr (new_loop_at j)) ls) = n div k + of_bool (j < n mod k)) \<and>
    fst (next_loops n (EventLoopThreadPool_ctor base name)) = replicate n (Inr base)"
proof -
  let ?p = "fst (elp_start new_loop_at cb (setThreadNum (int k) (EventLoopThreadPool_ctor base name)))"
  have p: "elp_next ?p = 0" "elp_loops ?p = map new_loop_at [0..<k]"
    by (simp_all add: elp_start_def setThreadNum_def EventLoopThreadPool_ctor_def)
  have ls: "fst (next_loops n ?p) = map (\<lambda>i. Inr (new_loop_at (i mod k))) [0..<n]"
    using next_loops_cycle [of ?p n] p assms(2) by simp
  have inj: "new_loop_at a = new_loop_at j \<longleftrightarrow> a = j" if "a < k" for a
    using assms(1,3) that by (auto simp: distinct_map inj_on_def)
  have "length (filter (\<lambda>l. l = Inr (new_loop_at j)) (fst (next_loops n ?p))) =
      length (filter (\<lambda>i. i mod k = j) [0..<n])"
    unfolding ls by (simp add: filter_map o_def inj assms(2))
  moreover have "next_loops n (EventLoopThreadPool_ctor base name) =
      (replicate n (Inr base), EventLoopThreadPool_ctor base name)"
    by (induction n) (simp_all add: getNextLoop_def EventLoopThreadPool_ctor_def replicate_append_same)
  ultimately show ?thesis using ls count_mod [OF assms(2,3), of n] by (simp add: Let_def)
qed

theorem getNextLoop_balanced_witness:
  "fst (next_loops 5 (fst (elp_start (\<lambda>i. 10 + i) False (setThreadNum 2 (EventLoopThreadPool_ctor 1 ''s''))))) =
     [Inr 10, Inr 11, Inr 10, Inr 11, Inr 10]"
proof -
  have "distinct (map (\<lambda>i. 10 + i) [0..<2 :: nat])" by (simp add: upt_rec)
  from getNextLoop_balanced [OF this, of 0 False 1 "''s''" 5]
  show ?thesis by (simp add: Let_def upt_rec)
qed

end
