(* ===== verification/Acceptor.thy ===== *)
theory Acceptor
  imports EventLoop SocketsOps Socket
begin

text \<open>
  The acceptor of a server (\<^verbatim>\<open>src/Acceptor.cpp\<close>, with the calls of theory \<open>Socket\<close> it makes): a listening
  socket and its channel on the base loop. The results of the system calls are arguments:
  the descriptor of the new socket, whether bind and listen succeed, and what accept returns
  (a descriptor with the peer's address, or a negative number). The callback that takes new
  connections is a parameter.

  What is shown: construction on every branch, that a listening acceptor is watched for
  reading until it is destroyed, and that every accepted descriptor is handed on or closed.
\<close>

record acceptor =
  acc_fd :: int
  acc_channel :: nat
  listenning :: bool

definition createNonblocking :: "int \<Rightarrow> int res" where
  "createNonblocking sockfd = (if sockfd < 0 then Inl ExitProcess else Inr sockfd)"

text \<open>The constructor ignores its argument \<open>reuseport\<close>. \<open>c\<close> is the channel's address, \<open>rd\<close> its read callback.\<close>

definition Acceptor_ctor ::
  "int \<Rightarrow> bool \<Rightarrow> nat \<Rightarrow> 'f \<Rightarrow> bool \<Rightarrow> ('f, 'z) event_loop_scheme \<Rightarrow>
   (acceptor \<times> ('f, 'z) event_loop_scheme) res" where
  "Acceptor_ctor sockfd bind_ok c rd reuseport s =
     rbind (createNonblocking sockfd) (\<lambda>fd.
       let s1 = new_channel c (Channel_ctor fd) s;
           s2 = setReusePort True fd (setReuseAddr True fd s1)
       in rbind (bindAddress bind_ok fd s2) (\<lambda>s3.
            Inr (\<lparr>acc_fd = fd, acc_channel = c, listenning = False\<rparr>,
                 s3\<lparr>heap := (heap s3)(c \<mapsto> (Channel_ctor fd)\<lparr>ch_readCallback := Some rd\<rparr>)\<rparr>)))"

definition Acceptor_listen ::
  "kernel \<Rightarrow> bool \<Rightarrow> acceptor \<times> ('f, 'z) event_loop_scheme \<Rightarrow> (acceptor \<times> ('f, 'z) event_loop_scheme) res" where
  "Acceptor_listen K listen_ok st =
     (case st of (a, s) \<Rightarrow>
        let a1 = a\<lparr>listenning := True\<rparr>
        in rbind (Socket_listen listen_ok (acc_fd a) s) (\<lambda>s1.
           rbind (enableReading K (acc_channel a) s1) (\<lambda>s2. Inr (a1, s2))))"

text \<open>The members are destroyed after the body: the channel, then the socket.\<close>

definition Acceptor_dtor ::
  "kernel \<Rightarrow> acceptor \<times> ('f, 'z) event_loop_scheme \<Rightarrow> ('f, 'z) event_loop_scheme res" where
  "Acceptor_dtor K st =
     (case st of (a, s) \<Rightarrow>
        rbind (disableAll K (acc_channel a) s) (\<lambda>s1.
        rbind (Channel_remove K (acc_channel a) s1) (\<lambda>s2.
          Inr (Socket_dtor (acc_fd a) (delete_channel (acc_channel a) s2)))))"

text \<open>
  \<open>handleRead\<close> accepts one connection. The state \<open>'w\<close> is the owner's, of which the base loop is a
  part read and written through \<open>get\<close> and \<open>put\<close>.
\<close>

definition acc_handleRead ::
  "('w \<Rightarrow> ('f, 'z) event_loop_scheme) \<Rightarrow> (('f, 'z) event_loop_scheme \<Rightarrow> 'w \<Rightarrow> 'w) \<Rightarrow>
   (int \<Rightarrow> sockaddr_in \<Rightarrow> 'w \<Rightarrow> 'w res) option \<Rightarrow> int \<Rightarrow> sockaddr_in \<Rightarrow> acceptor \<Rightarrow> 'w \<Rightarrow> 'w res" where
  "acc_handleRead get put newConnectionCallback connfd peerAddr a w =
     (let (fd, s) = Socket_accept connfd (acc_fd a) (get w);
          w1 = put s w
      in if fd \<ge> 0 then
           (case newConnectionCallback of
              Some cb \<Rightarrow> cb fd peerAddr w1
            | None \<Rightarrow> Inr (put (log_sys (SockClose fd) s) w1))
         else Inr w1)"

subsection \<open>The life of an acceptor\<close>

lemma acceptor_new_inv:
  assumes "poller_inv s" "heap s c = None" "Acceptor_ctor fd ok c rd reuse s = Inr (a, s')"
  shows "poller_inv s'" "heap s' c = Some ((Channel_ctor fd)\<lparr>ch_readCallback := Some rd\<rparr>)"
    "channels s' = channels s" "acc_fd a = fd" "acc_channel a = c" "interest (trace s') = interest (trace s)"
proof -
  let ?ch = "(Channel_ctor fd)\<lparr>ch_readCallback := Some rd\<rparr>"
  have n: "ch_index (Channel_ctor fd) = kNew" "ch_index ?ch = kNew" "ch_fd ?ch = ch_fd (Channel_ctor fd)"
    by (simp_all add: Channel_ctor_def kNew_def)
  have e: "s' = s\<lparr>heap := (heap s)(c \<mapsto> ?ch),
      trace := trace s @ [SockReuseAddr fd, SockReusePort fd, SockBind fd]\<rparr>" "acc_fd a = fd" "acc_channel a = c"
    using assms(3) by (auto simp: Acceptor_ctor_def createNonblocking_def bindAddress_def setReuseAddr_def
        setReusePort_def new_channel_def log_sys_def Let_def rbind_eq_Inr split: if_splits)
  have i: "interest (trace s @ [SockReuseAddr fd, SockReusePort fd, SockBind fd]) = interest (trace s)"
    by (simp add: interest_def)
  have "poller_inv (new_channel c ?ch s)" by (rule poller_inv_new [OF assms(1,2) n(2)])
  then show "poller_inv s'" using i unfolding e(1) by (simp add: poller_inv_def channel_ok_def new_channel_def)
  show "heap s' c = Some ?ch" "channels s' = channels s" "interest (trace s') = interest (trace s)"
    using i by (simp_all add: e(1))
qed (use assms(3) in \<open>auto simp: Acceptor_ctor_def createNonblocking_def bindAddress_def Let_def rbind_eq_Inr
      split: if_splits\<close>)

text \<open>Listening on a new acceptor, when the kernel agrees.\<close>

definition listening_state :: "int \<Rightarrow> nat \<Rightarrow> 'f \<Rightarrow> ('f, 'z) event_loop_scheme \<Rightarrow> ('f, 'z) event_loop_scheme" where
  "listening_state fd c rd s =
     s\<lparr>channels := (channels s)(fd \<mapsto> c),
       heap := (heap s)(c \<mapsto> (add_reading ((Channel_ctor fd)\<lparr>ch_readCallback := Some rd\<rparr>))\<lparr>ch_index := kAdded\<rparr>),
       trace := trace s @ [SockListen fd, EpollCtl CTL_ADD fd kReadEvent c True]\<rparr>"

lemma acceptor_listen_effect:
  assumes K: "ctl_sound K" "poller_inv s" "heap s c = None" "channels s fd = None"
    and new: "Acceptor_ctor fd ok c rd reuse s = Inr (a, s')"
  shows "Acceptor_listen K True (a, s') = Inr (a\<lparr>listenning := True\<rparr>, listening_state fd c rd s')"
    "poller_inv (listening_state fd c rd s')" "interest (trace (listening_state fd c rd s')) fd = Some (kReadEvent, c)"
proof -
  note n = acceptor_new_inv [OF K(2,3) new]
  let ?ch = "(Channel_ctor fd)\<lparr>ch_readCallback := Some rd\<rparr>"
  let ?l = "log_sys (SockListen fd) s'"
  have ch: "ch_index ?ch = kNew" "ch_fd ?ch = fd" "update_op (add_reading ?ch) = CTL_ADD"
    "ch_events (add_reading ?ch) = kReadEvent"
    by (simp_all add: Channel_ctor_def kNew_def kAdded_def update_op_def add_reading_def)
  have l: "poller_inv ?l" "heap ?l c = Some ?ch" "channels ?l = channels s"
    using n(1-3) by (simp_all add: log_sys_def poller_inv_def channel_ok_def)
  have "enableReading K c ?l = Inr (listening_state fd c rd s')" "poller_inv (listening_state fd c rd s')"
    using Channel_set_effect [OF K(1) l(1,2), of add_reading] Channel_set_inv(1) [OF l(1,2), of add_reading]
      ch K(4) l(3)
    by (simp_all add: enableReading_def log_sys_def listening_state_def)
  then show "Acceptor_listen K True (a, s') = Inr (a\<lparr>listenning := True\<rparr>, listening_state fd c rd s')"
    "poller_inv (listening_state fd c rd s')"
    using n(4,5) by (simp_all add: Acceptor_listen_def Socket_listen_def)
  have "trace (listening_state fd c rd s') = (trace s' @ [SockListen fd]) @ [EpollCtl CTL_ADD fd kReadEvent c True]"
    by (simp add: listening_state_def)
  then show "interest (trace (listening_state fd c rd s')) fd = Some (kReadEvent, c)"
    by (simp only: interest_snoc) simp
qed

text \<open>
  The life of an acceptor. Construction fails, ending the process, exactly when the socket
  cannot be made or bound, and does not watch the socket yet; \<open>listen\<close> on it succeeds exactly
  when the kernel agrees and then the kernel watches the listening socket for reading; the
  destructor takes it out of poller and kernel, destroys the channel and closes the socket.
\<close>

theorem acceptor_life:
  assumes "ctl_sound K" "poller_inv s" "heap s c = None" "channels s fd = None"
  shows "((\<exists>a s'. Acceptor_ctor fd bind_ok c rd reuse s = Inr (a, s')) \<longleftrightarrow> fd \<ge> 0 \<and> bind_ok) \<and>
    (\<forall>a s'. Acceptor_ctor fd bind_ok c rd reuse s = Inr (a, s') \<longrightarrow>
      interest (trace s') fd = None \<and> \<not> listenning a \<and> Acceptor_listen K False (a, s') = Inl ExitProcess \<and>
      (\<exists>a2 s2 s3. Acceptor_listen K True (a, s') = Inr (a2, s2) \<and> listenning a2 \<and>
        interest (trace s2) fd = Some (kReadEvent, c) \<and>
        Acceptor_dtor K (a2, s2) = Inr s3 \<and> interest (trace s3) fd = None \<and> channels s3 fd = None \<and>
        heap s3 c = None \<and> last (trace s3) = SockClose fd))"
proof (intro conjI allI impI)
  show "(\<exists>a s'. Acceptor_ctor fd bind_ok c rd reuse s = Inr (a, s')) \<longleftrightarrow> fd \<ge> 0 \<and> bind_ok"
    by (auto simp: Acceptor_ctor_def createNonblocking_def bindAddress_def Let_def)
next
  fix a s'
  assume new: "Acceptor_ctor fd bind_ok c rd reuse s = Inr (a, s')"
  note n = acceptor_new_inv [OF assms(2,3) new]
  let ?s2 = "listening_state fd c rd s'"
  note s2 = acceptor_listen_effect [OF assms new]
  show "interest (trace s') fd = None" using poller_inv_free [OF assms(2,4)] n(6) by simp
  show "\<not> listenning a"
    using new by (auto simp: Acceptor_ctor_def createNonblocking_def bindAddress_def Let_def rbind_eq_Inr split: if_splits)
  show "Acceptor_listen K False (a, s') = Inl ExitProcess" by (simp add: Acceptor_listen_def Socket_listen_def)
  have r: "can_register ?s2 c" by (simp add: can_register_def listening_state_def)
  obtain s3 where s3: "disableAll K c ?s2 = Inr s3" "poller_inv s3" "can_register s3 c"
    using Channel_set_returns [OF assms(1) s2(2) r, of del_all] by (auto simp: disableAll_def)
  obtain s4 where s4: "Channel_remove K c s3 = Inr s4" "poller_inv s4"
    "\<forall>fd ev. channels s4 fd \<noteq> Some c \<and> interest (trace s4) fd \<noteq> Some (ev, c)"
    using removeChannel_inv [OF assms(1) s3(2,3)] by (auto simp: Channel_remove_def)
  have "channels s4 fd = None"
    using s3(1) s4(1) by (auto simp: listening_state_def disableAll_def Channel_set_def Channel_update_def updateChannel_def
        Channel_remove_def removeChannel_def set_index_def epoll_update_def Let_def rbind_eq_Inr
        add_reading_def del_all_def Channel_ctor_def split: if_splits)
  moreover from this have "interest (trace s4) fd = None" using poller_inv_free [OF s4(2)] by simp
  moreover have "Acceptor_dtor K (a\<lparr>listenning := True\<rparr>, ?s2) =
      Inr (log_sys (SockClose fd) (delete_channel c s4))"
    using s3(1) s4(1) n(4,5) by (simp add: Acceptor_dtor_def)
  ultimately show "\<exists>a2 s2 s3. Acceptor_listen K True (a, s') = Inr (a2, s2) \<and> listenning a2 \<and>
        interest (trace s2) fd = Some (kReadEvent, c) \<and>
        Acceptor_dtor K (a2, s2) = Inr s3 \<and> interest (trace s3) fd = None \<and> channels s3 fd = None \<and>
        heap s3 c = None \<and> last (trace s3) = SockClose fd"
    using s2(1,3)
    by (intro exI [of _ "a\<lparr>listenning := True\<rparr>"] exI [of _ ?s2] exI [of _ "log_sys (SockClose fd) (delete_channel c s4)"])
       (simp add: log_sys_def delete_channel_def)
qed

theorem acceptor_life_witness:
  "\<exists>a s' a2 s2. Acceptor_ctor 9 True 1 (7 :: nat) False (new_loop 4 100 0 7) = Inr (a, s') \<and>
     Acceptor_listen ideal_kernel True (a, s') = Inr (a2, s2) \<and> interest (trace s2) 9 = Some (kReadEvent, 1)"
proof -
  let ?s = "new_loop 4 100 0 7 :: nat event_loop"
  have h: "heap ?s 1 = None" "channels ?s 9 = None" by (simp_all add: new_loop_def)
  note t = acceptor_life [OF ideal_kernel_sound(1) new_loop_inv(1) h, where bind_ok = True and rd = 7 and reuse = False]
  then obtain a s' where "Acceptor_ctor 9 True 1 7 False ?s = Inr (a, s')" by auto
  with t show ?thesis by blast
qed

end
