(* ===== verification/TcpServer.thy ===== *)
theory TcpServer
  imports TcpConnection EventLoopThreadPool Acceptor "HOL-Library.AList"
begin

text \<open>
  The TCP server (\<^verbatim>\<open>src/TcpServer.h\<close>, \<^verbatim>\<open>TcpServer.cpp\<close>): it accepts connections on its base loop, gives
  them names, hands each to a loop of the pool, and takes them out of its map when they
  close. The state is that of the server together with all its loops and connection
  objects, which are known by numbers: a \<^verbatim>\<open>shared_ptr\<close> is such a number, and the object lives
  until its destruction is run. The map \<^verbatim>\<open>connections_\<close> is an association list.

  What is shown: the names given to connections are all different, so a new connection
  never displaces another; and in every run over any number of loops and threads each
  connection is established once, removed from the map once and destroyed once, on its own
  loop, and no queued call ever refers to a connection that is gone.
\<close>

datatype srv_task =
    Established nat
  | Destroyed nat
  | RemoveInLoop nat
  | Listen
  | App nat

record 'c tcp_server =
  srv_loop :: nat
  srv_ipPort :: string
  srv_name :: string
  srv_acceptor :: acceptor
  srv_pool :: loop_pool
  srv_started :: int
  nextConnId :: nat
  connections :: "(string \<times> nat) list"
  srv_writeComplete :: "srv_task option"
  conns :: "nat \<Rightarrow> ((srv_task, 'c) tcp_connection \<times> nat) option"
  loops :: "nat \<Rightarrow> srv_task event_loop option"

type_synonym 'c srv_callbacks = "(srv_task, 'c, unit) conn_st conn_callbacks"

definition with_loop ::
  "nat \<Rightarrow> 'c tcp_server \<Rightarrow> (srv_task event_loop \<Rightarrow> 'b res) \<Rightarrow> 'b res" where
  "with_loop i w k = (case loops w i of None \<Rightarrow> Inl UseAfterFree | Some s \<Rightarrow> k s)"

definition with_conn ::
  "nat \<Rightarrow> 'c tcp_server \<Rightarrow> ((srv_task, 'c) tcp_connection \<Rightarrow> nat \<Rightarrow> 'b res) \<Rightarrow> 'b res" where
  "with_conn n w k = (case conns w n of None \<Rightarrow> Inl UseAfterFree | Some (cn, io) \<Rightarrow> k cn io)"

definition put_loop :: "nat \<Rightarrow> srv_task event_loop \<Rightarrow> 'c tcp_server \<Rightarrow> 'c tcp_server" where
  "put_loop i s w = w\<lparr>loops := (loops w)(i \<mapsto> s)\<rparr>"

definition put_conn ::
  "nat \<Rightarrow> (srv_task, 'c) tcp_connection \<times> nat \<Rightarrow> 'c tcp_server \<Rightarrow> 'c tcp_server" where
  "put_conn n cn w = w\<lparr>conns := (conns w)(n \<mapsto> cn)\<rparr>"

subsection \<open>Construction and start\<close>

definition CheckLoopNotNull :: "nat option \<Rightarrow> nat res" where
  "CheckLoopNotNull loop_ptr = (case loop_ptr of None \<Rightarrow> Inl ExitProcess | Some i \<Rightarrow> Inr i)"

definition TcpServer_ctor ::
  "nat option \<Rightarrow> (nat \<Rightarrow> srv_task event_loop option) \<Rightarrow> sockaddr_in \<Rightarrow> string \<Rightarrow> bool \<Rightarrow> int \<Rightarrow> bool \<Rightarrow> nat \<Rightarrow>
   srv_task \<Rightarrow> 'c tcp_server res" where
  "TcpServer_ctor loop_ptr ls listenAddr nameArg option sockfd bind_ok c rd =
     rbind (CheckLoopNotNull loop_ptr) (\<lambda>i.
     rbind (toIpPort listenAddr) (\<lambda>ipPort.
       case ls i of
         None \<Rightarrow> Inl UseAfterFree
       | Some s \<Rightarrow>
           rbind (Acceptor_ctor sockfd bind_ok c rd option s) (\<lambda>(a, s1).
             Inr \<lparr>srv_loop = i, srv_ipPort = ipPort, srv_name = nameArg, srv_acceptor = a,
                  srv_pool = EventLoopThreadPool_ctor i nameArg, srv_started = 0, nextConnId = 1,
                  connections = [], srv_writeComplete = None, conns = (\<lambda>_. None), loops = ls(i \<mapsto> s1)\<rparr>)))"

definition srv_setThreadNum :: "int \<Rightarrow> 'c tcp_server \<Rightarrow> 'c tcp_server" where
  "srv_setThreadNum n w = w\<lparr>srv_pool := setThreadNum n (srv_pool w)\<rparr>"

text \<open>The callbacks of connections, set before any connection is made.\<close>

definition srv_setConnectionCallback :: "('st \<Rightarrow> 'st res) option \<Rightarrow> 'st conn_callbacks \<Rightarrow> 'st conn_callbacks" where
  [simp]: "srv_setConnectionCallback cb c = c\<lparr>connectionCallback := cb\<rparr>"

definition srv_setMessageCallback ::
  "(timestamp \<Rightarrow> 'st \<Rightarrow> 'st res) option \<Rightarrow> 'st conn_callbacks \<Rightarrow> 'st conn_callbacks" where
  [simp]: "srv_setMessageCallback cb c = c\<lparr>messageCallback := cb\<rparr>"

definition srv_setWriteCompleteCallback :: "srv_task option \<Rightarrow> 'c tcp_server \<Rightarrow> 'c tcp_server" where
  "srv_setWriteCompleteCallback cb w = w\<lparr>srv_writeComplete := cb\<rparr>"

definition srv_listen :: "kernel \<Rightarrow> bool \<Rightarrow> 'c tcp_server \<Rightarrow> 'c tcp_server res" where
  "srv_listen K listen_ok w =
     with_loop (srv_loop w) w (\<lambda>s.
       rbind (Acceptor_listen K listen_ok (srv_acceptor w, s)) (\<lambda>(a, s1).
         Inr (put_loop (srv_loop w) s1 (w\<lparr>srv_acceptor := a\<rparr>))))"

text \<open>
  \<open>start\<close> acts on the first call only. The \<open>i\<close>-th new thread's loop gets the number \<open>new_at i\<close> and is
  \<open>fresh i\<close>. Listening begins at once in the base loop's thread, else it is queued there.
\<close>

definition srv_start ::
  "kernel \<Rightarrow> int \<Rightarrow> bool \<Rightarrow> (nat \<Rightarrow> nat) \<Rightarrow> (nat \<Rightarrow> srv_task event_loop) \<Rightarrow> bool \<Rightarrow>
   'c tcp_server \<Rightarrow> 'c tcp_server res" where
  "srv_start K tid listen_ok new_at fresh has_cb w =
     (let w1 = w\<lparr>srv_started := srv_started w + 1\<rparr>
      in if srv_started w = 0 then
           let n = nat (numThreads (srv_pool w));
               w2 = w1\<lparr>srv_pool := fst (elp_start new_at has_cb (srv_pool w)),
                       loops := fold (\<lambda>i ls. ls(new_at i \<mapsto> fresh i)) [0..<n] (loops w)\<rparr>
           in with_loop (srv_loop w) w2 (\<lambda>s.
                if isInLoopThread tid s then srv_listen K listen_ok w2
                else Inr (put_loop (srv_loop w) (queueInLoop tid Listen s) w2))
         else Inr w1)"

subsection \<open>Connections come and go\<close>

text \<open>The name of a connection: the text after the server's name is cut to 63 characters.\<close>

definition conn_label :: "'c tcp_server \<Rightarrow> nat \<Rightarrow> string" where
  "conn_label w i = srv_name w @ take 63 (''-'' @ srv_ipPort w @ ''#'' @ dec i)"

text \<open>
  \<open>newConnection\<close>: \<open>n\<close> is the new object, \<open>c\<close> its channel's address, \<open>local\<close> what \<^verbatim>\<open>getsockname\<close>
  gives. Incrementing the largest \<^verbatim>\<open>int\<close> is undefined.
\<close>

definition newConnection ::
  "kernel \<Rightarrow> 'c srv_callbacks \<Rightarrow> (nat \<Rightarrow> nat \<Rightarrow> srv_task) \<Rightarrow> int \<Rightarrow> nat \<Rightarrow> nat \<Rightarrow> sockaddr_in \<Rightarrow> 'c \<Rightarrow>
   int \<Rightarrow> sockaddr_in \<Rightarrow> 'c tcp_server \<Rightarrow> 'c tcp_server res" where
  "newConnection K CB handler tid n c local ctx sockfd peer w =
     (case getNextLoop (srv_pool w) of (next_loop, pool1) \<Rightarrow>
        rbind next_loop (\<lambda>io.
          if nextConnId w \<ge> 2 ^ 31 - 1 then Inl OutOfRange
          else let connName = conn_label w (nextConnId w);
                   w1 = w\<lparr>srv_pool := pool1, nextConnId := nextConnId w + 1,
                          connections := AList.update connName n (connections w)\<rparr>
               in rbind (TcpConnection_ctor (loops w io) connName sockfd local peer c
                           (handler n 0) (handler n 1) (handler n 2) (handler n 3) ctx) (\<lambda>(cn, s).
                    let cn1 = setWriteCompleteCallback (srv_writeComplete w) cn
                    in if isInLoopThread tid s then
                         rbind (connectEstablished K CB (cn1, s)) (\<lambda>(cn2, s2).
                           Inr (put_conn n (cn2, io) (put_loop io s2 w1)))
                       else Inr (put_conn n (cn1, io)
                              (put_loop io (queueInLoop tid (Established n) s) w1)))))"

definition removeConnectionInLoop :: "int \<Rightarrow> nat \<Rightarrow> 'c tcp_server \<Rightarrow> 'c tcp_server res" where
  "removeConnectionInLoop tid n w =
     with_conn n w (\<lambda>cn io.
       let w1 = w\<lparr>connections := AList.delete (conn_name cn) (connections w)\<rparr>
       in with_loop io w1 (\<lambda>s. Inr (put_loop io (queueInLoop tid (Destroyed n) s) w1)))"

definition srv_removeConnection :: "int \<Rightarrow> nat \<Rightarrow> 'c tcp_server \<Rightarrow> 'c tcp_server res" where
  "srv_removeConnection tid n w =
     with_loop (srv_loop w) w (\<lambda>s.
       if isInLoopThread tid s then removeConnectionInLoop tid n w
       else Inr (put_loop (srv_loop w) (queueInLoop tid (RemoveInLoop n) s) w))"

text \<open>
  The end of a connection in its loop: \<open>handleClose\<close>, whose last action is the close callback,
  the server's \<open>removeConnection\<close>; and the queued calls of \<open>connectEstablished\<close> and
  \<open>connectDestroyed\<close>, after the last of which the object is destroyed with the functor.
\<close>

definition srv_close :: "kernel \<Rightarrow> 'c srv_callbacks \<Rightarrow> nat \<Rightarrow> 'c tcp_server \<Rightarrow> 'c tcp_server res" where
  "srv_close K CB n w =
     with_conn n w (\<lambda>cn io. with_loop io w (\<lambda>s.
       rbind (handleClose K (CB\<lparr>closeCallback := Some Inr\<rparr>) (cn, s)) (\<lambda>(cn1, s1).
         srv_removeConnection (threadId s) n (put_conn n (cn1, io) (put_loop io s1 w)))))"

definition run_established :: "kernel \<Rightarrow> 'c srv_callbacks \<Rightarrow> nat \<Rightarrow> 'c tcp_server \<Rightarrow> 'c tcp_server res" where
  "run_established K CB n w =
     with_conn n w (\<lambda>cn io. with_loop io w (\<lambda>s.
       rbind (connectEstablished K CB (cn, s)) (\<lambda>(cn1, s1). Inr (put_conn n (cn1, io) (put_loop io s1 w)))))"

definition run_destroyed :: "kernel \<Rightarrow> 'c srv_callbacks \<Rightarrow> nat \<Rightarrow> 'c tcp_server \<Rightarrow> 'c tcp_server res" where
  "run_destroyed K CB n w =
     with_conn n w (\<lambda>cn io. with_loop io w (\<lambda>s.
       rbind (connectDestroyed K CB (cn, s)) (\<lambda>(cn1, s1).
         Inr (put_loop io (TcpConnection_dtor cn1 s1) (w\<lparr>conns := (conns w)(n := None)\<rparr>)))))"

text \<open>The destructor of the server, over the connections left in the map.\<close>

fun destroy_all :: "kernel \<Rightarrow> 'c srv_callbacks \<Rightarrow> int \<Rightarrow> nat list \<Rightarrow> 'c tcp_server \<Rightarrow> 'c tcp_server res" where
  "destroy_all K CB tid [] w = Inr w"
| "destroy_all K CB tid (n # ns) w =
     rbind (with_conn n w (\<lambda>cn io. with_loop io w (\<lambda>s.
              if isInLoopThread tid s then run_destroyed K CB n w
              else Inr (put_loop io (queueInLoop tid (Destroyed n) s) w)))) (destroy_all K CB tid ns)"

definition TcpServer_dtor :: "kernel \<Rightarrow> 'c srv_callbacks \<Rightarrow> int \<Rightarrow> 'c tcp_server \<Rightarrow> 'c tcp_server res" where
  "TcpServer_dtor K CB tid w = destroy_all K CB tid (map snd (connections w)) (w\<lparr>connections := []\<rparr>)"

subsection \<open>Runs of the server\<close>

text \<open>
  One functor of a loop, taken from the front of its queue and run in the loop's thread.
\<close>

definition run_task :: "kernel \<Rightarrow> 'c srv_callbacks \<Rightarrow> bool \<Rightarrow> nat \<Rightarrow> 'c tcp_server \<Rightarrow> 'c tcp_server res" where
  "run_task K CB listen_ok i w =
     with_loop i w (\<lambda>s.
       case pendingFunctors s of
         [] \<Rightarrow> Inr w
       | f # fs \<Rightarrow>
           let w1 = put_loop i (s\<lparr>pendingFunctors := fs\<rparr>) w
           in (case f of
                 Established n \<Rightarrow> run_established K CB n w1
               | Destroyed n \<Rightarrow> run_destroyed K CB n w1
               | RemoveInLoop n \<Rightarrow> removeConnectionInLoop (threadId s) n w1
               | Listen \<Rightarrow> srv_listen K listen_ok w1
               | App k \<Rightarrow> Inr w1))"

text \<open>The effect of a call on the connection's identity and on its loop's queue.\<close>

definition app_step :: "(srv_task, 'c, unit) conn_st \<Rightarrow> (srv_task, 'c, unit) conn_st \<Rightarrow> bool" where
  "app_step st st' \<longleftrightarrow>
     conn_name (fst st') = conn_name (fst st) \<and> threadId (snd st') = threadId (snd st) \<and>
     (\<exists>ks. pendingFunctors (snd st') = pendingFunctors (snd st) @ map App ks)"

text \<open>
  What an application may do with a connection in a callback: it keeps the connection's name,
  changes its state by shutting it down at most, and queues functors of its own only.
\<close>

definition app_call :: "(srv_task, 'c, unit) conn_st \<Rightarrow> (srv_task, 'c, unit) conn_st \<Rightarrow> bool" where
  "app_call st st' \<longleftrightarrow>
     app_step st st' \<and>
     (conn_state (fst st') = conn_state (fst st) \<or>
        conn_state (fst st) = kConnected \<and> conn_state (fst st') = kDisconnecting)"

definition app_ok ::
  "((srv_task, 'c, unit) conn_st \<Rightarrow> (srv_task, 'c, unit) conn_st res) \<Rightarrow> bool" where
  "app_ok f \<longleftrightarrow> (\<forall>cn s cn' s'. f (cn, s) = Inr (cn', s') \<longrightarrow> app_call (cn, s) (cn', s'))"

inductive srv_run :: "kernel \<Rightarrow> 'c srv_callbacks \<Rightarrow> 'c tcp_server \<Rightarrow> 'c tcp_server \<Rightarrow> bool" for K CB w0 where
  init: "srv_run K CB w0 w0"
| accepts: "srv_run K CB w0 w \<Longrightarrow> conns w n = None \<Longrightarrow> loops w (srv_loop w) = Some b \<Longrightarrow>
    newConnection K CB handler (threadId b) n c local ctx sockfd peer w = Inr w' \<Longrightarrow> srv_run K CB w0 w'"
| task: "srv_run K CB w0 w \<Longrightarrow> run_task K CB ok i w = Inr w' \<Longrightarrow> srv_run K CB w0 w'"
| owner: "srv_run K CB w0 w \<Longrightarrow> conns w n = Some (cn, io) \<Longrightarrow> loops w io = Some s \<Longrightarrow>
    app_call (cn, s) (cn', s') \<Longrightarrow> srv_run K CB w0 (put_conn n (cn', io) (put_loop io s' w))"
| closes: "srv_run K CB w0 w \<Longrightarrow> conns w n = Some (cn, io) \<Longrightarrow> conn_state cn \<in> {kConnected, kDisconnecting} \<Longrightarrow>
    srv_close K CB n w = Inr w' \<Longrightarrow> srv_run K CB w0 w'"

subsection \<open>What the parts of a step do to the queues\<close>

lemma reactor_more_queue:
  assumes "reactor.more (s' :: ('f, 'z) event_loop_scheme) = reactor.more s"
  shows "pendingFunctors s' = pendingFunctors s" "threadId s' = threadId s"
  using assms by (cases s; cases s'; simp)+

definition callbacks_ok :: "'c srv_callbacks \<Rightarrow> bool" where
  "callbacks_ok CB \<longleftrightarrow> (\<forall>f. connectionCallback CB = Some f \<longrightarrow> app_ok f)"

lemma app_step_refl: "conn_name cn' = conn_name cn \<Longrightarrow> reactor.more s' = reactor.more s \<Longrightarrow> app_step (cn, s) (cn', s')"
  using reactor_more_queue [of s' s] by (simp add: app_step_def)

lemma app_step_trans:
  assumes "app_step a b" "app_step b c"
  shows "app_step a c"
proof -
  obtain ks ks' where "pendingFunctors (snd b) = pendingFunctors (snd a) @ map App ks"
    "pendingFunctors (snd c) = pendingFunctors (snd b) @ map App ks'"
    using assms by (auto simp: app_step_def)
  then have "pendingFunctors (snd c) = pendingFunctors (snd a) @ map App (ks @ ks')" by simp
  then show ?thesis using assms unfolding app_step_def by metis
qed

lemma callback_step:
  assumes "callbacks_ok CB" "call_cb (connectionCallback CB) (cn, s) = Inr (cn', s')"
  shows "app_step (cn, s) (cn', s')"
    "conn_state cn' = conn_state cn \<or> conn_state cn = kConnected \<and> conn_state cn' = kDisconnecting"
proof -
  obtain f where f: "app_ok f" "f (cn, s) = Inr (cn', s')"
    using assms by (auto simp: callbacks_ok_def call_cb_def split: option.splits)
  from f(1) [unfolded app_ok_def app_call_def, rule_format, OF f(2)]
  show "app_step (cn, s) (cn', s')"
    "conn_state cn' = conn_state cn \<or> conn_state cn = kConnected \<and> conn_state cn' = kDisconnecting"
    by (simp_all add: app_step_def)
qed

lemma connectEstablished_step:
  assumes "callbacks_ok CB" "connectEstablished K CB (cn, s) = Inr (cn', s')"
  shows "app_step (cn, s) (cn', s')" "conn_state cn' \<in> {kConnected, kDisconnecting}"
proof -
  obtain ch s1 where s1: "enableReading K (conn_channel cn) (s\<lparr>heap := (heap s)(conn_channel cn \<mapsto> tie ch)\<rparr>) = Inr s1"
    "call_cb (connectionCallback CB) (setState kConnected cn, s1) = Inr (cn', s')"
    using assms(2) by (auto simp: connectEstablished_def with_channel_def Let_def rbind_eq_Inr split: option.splits)
  have "reactor.more s1 = reactor.more s"
    using Channel_set_more [OF s1(1) [unfolded enableReading_def]] by simp
  then have "app_step (cn, s) (setState kConnected cn, s1)"
    by (intro app_step_refl) (simp_all add: setState_def)
  with callback_step [OF assms(1) s1(2)]
  show "app_step (cn, s) (cn', s')" "conn_state cn' \<in> {kConnected, kDisconnecting}"
    by (auto intro: app_step_trans simp: setState_def)
qed

lemma handleClose_step:
  assumes "callbacks_ok CB" "handleClose K (CB\<lparr>closeCallback := Some Inr\<rparr>) (cn, s) = Inr (cn', s')"
  shows "app_step (cn, s) (cn', s')" "conn_state cn' = kDisconnected"
proof -
  obtain s1 where s1: "disableAll K (conn_channel cn) s = Inr s1"
    "call_cb (connectionCallback CB) (setState kDisconnected cn, s1) = Inr (cn', s')"
    using assms(2) by (auto simp: handleClose_def call_cb_def Let_def rbind_eq_Inr)
  have "app_step (cn, s) (setState kDisconnected cn, s1)"
    using Channel_set_more [OF s1(1) [unfolded disableAll_def]]
    by (intro app_step_refl) (simp_all add: setState_def)
  with callback_step [OF assms(1) s1(2)]
  show "app_step (cn, s) (cn', s')" "conn_state cn' = kDisconnected"
    by (auto intro: app_step_trans simp: setState_def)
qed

lemma connectDestroyed_step:
  assumes "callbacks_ok CB" "connectDestroyed K CB (cn, s) = Inr (cn', s')"
  shows "app_step (cn, s) (cn', s')"
proof -
  obtain cn2 s2 where s2: "app_step (cn, s) (cn2, s2)" "Channel_remove K (conn_channel cn2) s2 = Inr s'" "cn' = cn2"
  proof (cases "conn_state cn = kConnected")
    case False
    then have "Channel_remove K (conn_channel cn) s = Inr s'" "cn' = cn"
      using assms(2) by (auto simp: connectDestroyed_def rbind_eq_Inr)
    with app_step_refl [of cn cn s s] show thesis by (intro that [of cn s]) simp_all
  next
    case True
    then obtain s1 cn2 s2 where s1: "disableAll K (conn_channel cn) s = Inr s1"
      "call_cb (connectionCallback CB) (setState kDisconnected cn, s1) = Inr (cn2, s2)"
      "Channel_remove K (conn_channel cn2) s2 = Inr s'" "cn' = cn2"
      using assms(2) by (auto simp: connectDestroyed_def rbind_eq_Inr)
    have "app_step (cn, s) (setState kDisconnected cn, s1)"
      using Channel_set_more [OF s1(1) [unfolded disableAll_def]]
      by (intro app_step_refl) (simp_all add: setState_def)
    with callback_step(1) [OF assms(1) s1(2)] have "app_step (cn, s) (cn2, s2)" by (blast intro: app_step_trans)
    with s1(3,4) show thesis by (intro that [of cn2 s2])
  qed
  from app_step_trans [OF s2(1) app_step_refl [OF refl Channel_remove_more [OF s2(2)]]] s2(3)
  show ?thesis by simp
qed

lemma queueInLoop_pending [simp]:
  "pendingFunctors (queueInLoop tid f s) = pendingFunctors s @ [f]" "threadId (queueInLoop tid f s) = threadId s"
  by (simp_all add: queueInLoop_def queue_notify_def queue_push_def wakeup_def)

subsection \<open>The stages of a connection\<close>

text \<open>
  A connection object is absent, new (its establishment is queued on its loop), up, closing
  (its removal is queued on the base loop) or dying (its destruction is queued on its loop). The
  stage determines how many calls that refer to it wait in which queue, and whether it is in the
  server's map.
\<close>

datatype stage = Absent | New | Up | Closing | Dying

fun stage_state :: "stage \<Rightarrow> conn_state \<Rightarrow> bool" where
  "stage_state Absent st \<longleftrightarrow> False"
| "stage_state New st \<longleftrightarrow> st = kConnecting"
| "stage_state Up st \<longleftrightarrow> st = kConnected \<or> st = kDisconnecting"
| "stage_state Closing st \<longleftrightarrow> st = kDisconnected"
| "stage_state Dying st \<longleftrightarrow> st = kDisconnected"

definition cnt :: "'c tcp_server \<Rightarrow> nat \<Rightarrow> srv_task \<Rightarrow> nat" where
  "cnt w i f = (case loops w i of None \<Rightarrow> 0 | Some s \<Rightarrow> count_list (pendingFunctors s) f)"

definition home :: "'c tcp_server \<Rightarrow> nat \<Rightarrow> nat option" where
  "home w n = map_option snd (conns w n)"

definition has_stage :: "'c tcp_server \<Rightarrow> nat \<Rightarrow> stage \<Rightarrow> bool" where
  "has_stage w n st \<longleftrightarrow>
     (case conns w n of
        None \<Rightarrow> st = Absent
      | Some (cn, io) \<Rightarrow> stage_state st (conn_state cn) \<and> loops w io \<noteq> None) \<and>
     (\<forall>i. cnt w i (Established n) = of_bool (st = New \<and> home w n = Some i) \<and>
          cnt w i (RemoveInLoop n) = of_bool (st = Closing \<and> i = srv_loop w) \<and>
          cnt w i (Destroyed n) = of_bool (st = Dying \<and> home w n = Some i)) \<and>
     (\<forall>nm. (nm, n) \<in> set (connections w) \<longleftrightarrow>
        st \<in> {New, Up, Closing} \<and> (\<exists>cn io. conns w n = Some (cn, io) \<and> nm = conn_name cn))"

definition srv_inv :: "'c tcp_server \<Rightarrow> bool" where
  "srv_inv w \<longleftrightarrow>
     (\<forall>n. \<exists>st. has_stage w n st) \<and> distinct (map fst (connections w)) \<and>
     (\<forall>nm \<in> fst ` set (connections w). \<exists>i < nextConnId w. nm = conn_label w i) \<and>
     length (srv_ipPort w) \<le> 21 \<and> nextConnId w < 2 ^ 31"

text \<open>The names are different, because the counter's digits are never cut off.\<close>

lemma conn_label_inject:
  assumes "length (srv_ipPort w) \<le> 21" "i < 2 ^ 31" "j < 2 ^ 31"
  shows "conn_label w i = conn_label w j \<longleftrightarrow> i = j"
proof -
  have "length (dec k) \<le> 10" if "k < 2 ^ 31" for k
    using that by (intro length_dec_le) simp_all
  then have "take 63 (''-'' @ srv_ipPort w @ ''#'' @ dec k) = ''-'' @ srv_ipPort w @ ''#'' @ dec k" if "k < 2 ^ 31" for k
    using that assms(1) by (intro take_all) force
  with assms(2,3) show ?thesis by (simp add: conn_label_def)
qed

subsection \<open>Every step keeps the stages\<close>

definition about :: "nat \<Rightarrow> srv_task \<Rightarrow> bool" where
  "about n f \<longleftrightarrow> f \<in> {Established n, RemoveInLoop n, Destroyed n}"

text \<open>What happens to the counts when a queue is popped, pushed to, or extended by the application.\<close>

lemma cnt_frame [simp]:
  "cnt (put_conn n x w) i f = cnt w i f" "cnt (w\<lparr>connections := cs\<rparr>) i f = cnt w i f"
  "cnt (w\<lparr>conns := c\<rparr>) i f = cnt w i f" "cnt (w\<lparr>srv_acceptor := a\<rparr>) i f = cnt w i f"
  "cnt (w\<lparr>srv_pool := p, nextConnId := k, connections := cs\<rparr>) i f = cnt w i f"
  by (simp_all add: cnt_def put_conn_def)

lemma cnt_pop:
  "loops w i = Some s \<Longrightarrow> pendingFunctors s = g # fs \<Longrightarrow>
   cnt (put_loop i (s\<lparr>pendingFunctors := fs\<rparr>) w) j f = cnt w j f - of_bool (j = i \<and> f = g)"
  by (auto simp: cnt_def put_loop_def)

lemma cnt_push:
  "loops w i = Some s \<Longrightarrow>
   cnt (put_loop i (queueInLoop tid g s) w) j f = cnt w j f + of_bool (j = i \<and> f = g)"
  by (simp add: cnt_def put_loop_def)

lemma cnt_app:
  assumes "loops w i = Some s" "app_step (cn, s) (cn', s')" "f \<notin> range App"
  shows "cnt (put_loop i s' w) j f = cnt w j f"
proof -
  have "count_list (map App ks) f = 0" for ks
    using assms(3) by (induction ks) auto
  with assms(1,2) show ?thesis by (auto simp: cnt_def put_loop_def app_step_def)
qed

lemma cnt_about [simp]: "about n (Established n)" "about n (RemoveInLoop n)" "about n (Destroyed n)"
  by (simp_all add: about_def)

lemma about_not_App: "about n f \<Longrightarrow> f \<notin> range App"
  by (auto simp: about_def)

lemma put_sel [simp]:
  "srv_loop (put_loop i s w) = srv_loop w" "srv_loop (put_conn n x w) = srv_loop w"
  "srv_name (put_loop i s w) = srv_name w" "srv_name (put_conn n x w) = srv_name w"
  "srv_ipPort (put_loop i s w) = srv_ipPort w" "srv_ipPort (put_conn n x w) = srv_ipPort w"
  "nextConnId (put_loop i s w) = nextConnId w" "nextConnId (put_conn n x w) = nextConnId w"
  "connections (put_loop i s w) = connections w" "connections (put_conn n x w) = connections w"
  "conns (put_loop i s w) = conns w" "conns (put_conn n x w) = (conns w)(n \<mapsto> x)"
  "loops (put_loop i s w) = (loops w)(i \<mapsto> s)" "loops (put_conn n x w) = loops w"
  by (simp_all add: put_loop_def put_conn_def)

text \<open>A step that touches one connection only keeps the stages of the others.\<close>

definition others_same :: "nat \<Rightarrow> 'c tcp_server \<Rightarrow> 'c tcp_server \<Rightarrow> bool" where
  "others_same n w w' \<longleftrightarrow>
     srv_loop w' = srv_loop w \<and> (\<forall>i. loops w i \<noteq> None \<longrightarrow> loops w' i \<noteq> None) \<and>
     (\<forall>m. m \<noteq> n \<longrightarrow> conns w' m = conns w m \<and>
        (\<forall>i f. about m f \<longrightarrow> cnt w' i f = cnt w i f) \<and>
        (\<forall>nm. (nm, m) \<in> set (connections w') \<longleftrightarrow> (nm, m) \<in> set (connections w)))"

lemma others_stage:
  assumes "others_same n w w'" "m \<noteq> n" "has_stage w m st"
  shows "has_stage w' m st"
proof -
  have e: "conns w' m = conns w m" "home w' m = home w m" "srv_loop w' = srv_loop w"
    "\<And>i. cnt w' i (Established m) = cnt w i (Established m)"
    "\<And>i. cnt w' i (RemoveInLoop m) = cnt w i (RemoveInLoop m)"
    "\<And>i. cnt w' i (Destroyed m) = cnt w i (Destroyed m)"
    "\<And>nm. (nm, m) \<in> set (connections w') \<longleftrightarrow> (nm, m) \<in> set (connections w)"
    "\<And>i. loops w i \<noteq> None \<Longrightarrow> loops w' i \<noteq> None"
    using assms(1,2) by (simp_all add: others_same_def home_def)
  show ?thesis
    using assms(3) e(8) unfolding has_stage_def e(1-7) by (auto split: option.splits)
qed

lemma srv_inv_update:
  assumes "srv_inv w" "has_stage w' n st" "others_same n w w'"
    and "srv_name w' = srv_name w" "srv_ipPort w' = srv_ipPort w"
    and "nextConnId w \<le> nextConnId w'" "nextConnId w' < 2 ^ 31"
    and "distinct (map fst (connections w'))"
    and "fst ` set (connections w') \<subseteq> fst ` set (connections w) \<union> conn_label w ` {nextConnId w..<nextConnId w'}"
  shows "srv_inv w'"
proof -
  have "\<exists>st. has_stage w' m st" for m
    using assms(1-3) others_stage [of n w w' m] unfolding srv_inv_def by (cases "m = n") blast+
  moreover have "conn_label w' = conn_label w" using assms(4,5) by (simp add: conn_label_def fun_eq_iff)
  moreover have "\<exists>i < nextConnId w'. nm = conn_label w i" if "nm \<in> fst ` set (connections w')" for nm
  proof (cases "nm \<in> fst ` set (connections w)")
    case True
    with assms(1) obtain i where "i < nextConnId w" "nm = conn_label w i" unfolding srv_inv_def by blast
    with assms(6) show ?thesis by (intro exI [of _ i]) simp
  next
    case False
    with that assms(9) have "nm \<in> conn_label w ` {nextConnId w..<nextConnId w'}" by blast
    then show ?thesis by auto
  qed
  ultimately show ?thesis
    using assms(1,5,7,8) unfolding srv_inv_def by simp
qed

text \<open>The special case of a step that leaves the map as it is, or takes \<open>n\<close> out of it.\<close>

lemma srv_inv_step:
  assumes "srv_inv w" "has_stage w' n st"
    and "\<And>m. m \<noteq> n \<Longrightarrow> conns w' m = conns w m"
    and "\<And>m i f. m \<noteq> n \<Longrightarrow> about m f \<Longrightarrow> cnt w' i f = cnt w i f"
    and "\<And>i. loops w i \<noteq> None \<Longrightarrow> loops w' i \<noteq> None"
    and "connections w' = connections w \<or>
      (\<exists>cn io. conns w n = Some (cn, io) \<and> (conn_name cn, n) \<in> set (connections w) \<and>
        connections w' = AList.delete (conn_name cn) (connections w))"
    and "srv_loop w' = srv_loop w" "srv_name w' = srv_name w" "srv_ipPort w' = srv_ipPort w"
      "nextConnId w' = nextConnId w"
  shows "srv_inv w'"
proof (rule srv_inv_update [OF assms(1,2)])
  have dist: "distinct (map fst (connections w))" using assms(1) by (simp add: srv_inv_def)
  have "(nm, m) \<in> set (connections w') \<longleftrightarrow> (nm, m) \<in> set (connections w)" if "m \<noteq> n" for nm m
    using assms(6) that eq_key_imp_eq_value [OF dist] by (auto simp: AList.delete_eq)
  with assms show "others_same n w w'" unfolding others_same_def by blast
  show "distinct (map fst (connections w'))"
    "fst ` set (connections w') \<subseteq> fst ` set (connections w) \<union> conn_label w ` {nextConnId w..<nextConnId w'}"
    using assms(6) dist by (auto simp: AList.delete_eq distinct_map_filter)
qed (use assms in \<open>simp_all add: srv_inv_def\<close>)

lemma has_stage_Some:
  assumes "conns w n = Some (cn, io)"
  shows "has_stage w n st \<longleftrightarrow> stage_state st (conn_state cn) \<and> loops w io \<noteq> None \<and>
     (\<forall>i. cnt w i (Established n) = of_bool (st = New \<and> i = io) \<and>
          cnt w i (RemoveInLoop n) = of_bool (st = Closing \<and> i = srv_loop w) \<and>
          cnt w i (Destroyed n) = of_bool (st = Dying \<and> i = io)) \<and>
     (\<forall>nm. (nm, n) \<in> set (connections w) \<longleftrightarrow> st \<in> {New, Up, Closing} \<and> nm = conn_name cn)"
proof -
  have "home w n = Some i \<longleftrightarrow> i = io" for i using assms by (auto simp: home_def)
  with assms show ?thesis by (simp add: has_stage_def)
qed

lemma has_stage_None:
  assumes "conns w n = None"
  shows "has_stage w n st \<longleftrightarrow> st = Absent \<and> (\<forall>i f. about n f \<longrightarrow> cnt w i f = 0) \<and>
     (\<forall>nm. (nm, n) \<notin> set (connections w))"
  using assms by (auto simp: has_stage_def about_def home_def)

lemma srv_inv_stage: "srv_inv w \<Longrightarrow> \<exists>st. has_stage w n st"
  by (simp add: srv_inv_def)

text \<open>The stage of a connection whose call is at the front of a queue.\<close>

lemma task_stage:
  assumes "srv_inv w" "loops w i = Some s" "pendingFunctors s = f # fs" "about n f"
  obtains cn io st where "conns w n = Some (cn, io)" "has_stage w n st"
    "f = Established n \<Longrightarrow> st = New \<and> io = i" "f = RemoveInLoop n \<Longrightarrow> st = Closing \<and> i = srv_loop w"
    "f = Destroyed n \<Longrightarrow> st = Dying \<and> io = i"
proof -
  obtain st where st: "has_stage w n st" using srv_inv_stage [OF assms(1)] by blast
  have pos: "cnt w i f > 0" using assms(2,3) by (simp add: cnt_def)
  with st assms(4) obtain cn io where c: "conns w n = Some (cn, io)"
    by (cases "conns w n") (auto simp: has_stage_None)
  have "cnt w i (Established n) = of_bool (st = New \<and> i = io)"
    "cnt w i (RemoveInLoop n) = of_bool (st = Closing \<and> i = srv_loop w)"
    "cnt w i (Destroyed n) = of_bool (st = Dying \<and> i = io)"
    using st c by (simp_all add: has_stage_Some)
  with pos show thesis by (intro that [OF c st]) (auto split: if_splits)
qed

lemma popped_others:
  assumes "loops w i = Some s" "pendingFunctors s = f # fs" "about n f" "about m g" "m \<noteq> n"
  shows "cnt (put_loop i (s\<lparr>pendingFunctors := fs\<rparr>) w) j g = cnt w j g"
  using assms(3-5) by (auto simp: cnt_pop [OF assms(1,2)] about_def)

text \<open>An application's call on a connection.\<close>

lemma step_owner:
  assumes inv: "srv_inv w" and c: "conns w n = Some (cn, io)" and s: "loops w io = Some s"
    and st: "has_stage w n st" and app: "app_step (cn, s) (cn', s')" "stage_state st (conn_state cn')"
  shows "srv_inv (put_conn n (cn', io) (put_loop io s' w))"
proof (rule srv_inv_step [OF inv])
  show "has_stage (put_conn n (cn', io) (put_loop io s' w)) n st"
    using st app cnt_app [OF s app(1)]
    by (subst has_stage_Some, simp) (simp add: has_stage_Some [OF c] app_step_def image_iff)
qed (use cnt_app [OF s app(1)] about_not_App in \<open>auto split: if_splits\<close>)

text \<open>The queued establishment runs.\<close>

lemma step_established:
  assumes "srv_inv w" "callbacks_ok CB" "loops w i = Some s" "pendingFunctors s = Established n # fs"
    "run_established K CB n (put_loop i (s\<lparr>pendingFunctors := fs\<rparr>) w) = Inr w'"
  shows "srv_inv w'"
proof -
  let ?s = "s\<lparr>pendingFunctors := fs\<rparr>"
  let ?w = "put_loop i ?s w"
  obtain cn where c: "conns w n = Some (cn, i)" and st: "has_stage w n New"
    using task_stage [OF assms(1,3,4), of n] by (metis cnt_about(1))
  obtain cn' s' where ce: "connectEstablished K CB (cn, ?s) = Inr (cn', s')"
    and w': "w' = put_conn n (cn', i) (put_loop i s' ?w)"
    using assms(5) c by (auto simp: run_established_def with_conn_def with_loop_def rbind_eq_Inr)
  note app = connectEstablished_step [OF assms(2) ce]
  have l: "loops ?w i = Some ?s" by simp
  show ?thesis
  proof (rule srv_inv_step [OF assms(1)])
    show "has_stage w' n Up"
      using st app cnt_app [OF l app(1)] cnt_pop [OF assms(3,4)] unfolding w'
      by (subst has_stage_Some, simp) (auto simp: has_stage_Some [OF c] app_step_def image_iff)
  next
    fix m j f
    assume "m \<noteq> n" "about m f"
    then show "cnt w' j f = cnt w j f"
      using cnt_app [OF l app(1)] popped_others [OF assms(3,4), of n m f j] unfolding w' by (simp add: about_not_App)
  qed (auto simp: w')
qed

text \<open>
  A state within a step: only the object of \<open>n\<close> and the calls about it differ. The removal from the
  map, run in such a state, leaves the connection dying.
\<close>

definition inside :: "nat \<Rightarrow> 'c tcp_server \<Rightarrow> 'c tcp_server \<Rightarrow> bool" where
  "inside n w w1 \<longleftrightarrow>
     (\<forall>m. m \<noteq> n \<longrightarrow> conns w1 m = conns w m \<and> (\<forall>i f. about m f \<longrightarrow> cnt w1 i f = cnt w i f)) \<and>
     (\<forall>i. loops w i \<noteq> None \<longrightarrow> loops w1 i \<noteq> None) \<and> connections w1 = connections w \<and>
     srv_loop w1 = srv_loop w \<and> srv_name w1 = srv_name w \<and> srv_ipPort w1 = srv_ipPort w \<and>
     nextConnId w1 = nextConnId w"

lemma inside_popped:
  assumes "loops w i = Some s" "pendingFunctors s = f # fs" "about n f"
  shows "inside n w (put_loop i (s\<lparr>pendingFunctors := fs\<rparr>) w)"
  using popped_others [OF assms(1,2,3)] by (auto simp: inside_def)

lemma inside_app:
  assumes "loops w i = Some s" "app_step (cn, s) (cn', s')"
  shows "inside n w (put_conn n x (put_loop i s' w))"
  using cnt_app [OF assms] about_not_App by (auto simp: inside_def)

lemma step_remove:
  assumes inv: "srv_inv w" and c: "conns w n = Some (cn, io)" and st: "has_stage w n st" "st \<in> {Up, Closing}"
    and w1: "inside n w w1" "conns w1 n = Some (cn1, io)" "conn_name cn1 = conn_name cn" "conn_state cn1 = kDisconnected"
    and cnt1: "\<And>i f. about n f \<Longrightarrow> cnt w1 i f = 0"
    and rm: "removeConnectionInLoop tid n w1 = Inr w'"
  shows "srv_inv w'"
proof -
  let ?d = "AList.delete (conn_name cn) (connections w)"
  let ?w1 = "w1\<lparr>connections := ?d\<rparr>"
  obtain s where s: "loops w1 io = Some s" "w' = put_loop io (queueInLoop tid (Destroyed n) s) ?w1"
    using rm w1 by (auto simp: removeConnectionInLoop_def with_conn_def with_loop_def Let_def inside_def split: option.splits)
  have push: "cnt w' j f = cnt w1 j f + of_bool (j = io \<and> f = Destroyed n)" for j f
    using cnt_push [of ?w1 io s tid "Destroyed n" j f] s by simp
  have mem: "(conn_name cn, n) \<in> set (connections w)" "\<And>nm. (nm, n) \<in> set (connections w) \<Longrightarrow> nm = conn_name cn"
    using st by (auto simp: has_stage_Some [OF c])
  have sel: "conns w' = conns w1" "loops w' io \<noteq> None" "connections w' = ?d" "srv_loop w' = srv_loop w"
    using s(2) w1(1) by (simp_all add: inside_def)
  show ?thesis
  proof (rule srv_inv_step [OF inv])
    have "conns w' n = Some (cn1, io)" using sel(1) w1(2) by simp
    moreover have "(nm, n) \<notin> set ?d" for nm using mem(2) by (auto simp: AList.delete_eq)
    ultimately show "has_stage w' n Dying"
      using cnt1 w1(4) sel(2) unfolding has_stage_Some [OF \<open>conns w' n = Some (cn1, io)\<close>] sel(3) by (simp add: push)
    show "cnt w' i f = cnt w i f" if "m \<noteq> n" "about m f" for m i f
      using that w1(1) push [of i f] by (auto simp: inside_def about_def)
    show "connections w' = connections w \<or> (\<exists>cn io. conns w n = Some (cn, io) \<and> (conn_name cn, n) \<in> set (connections w) \<and>
        connections w' = AList.delete (conn_name cn) (connections w))"
      using c mem(1) sel(3) by blast
  qed (use w1(1) s(2) sel in \<open>auto simp: inside_def\<close>)
qed

lemma step_removal:
  assumes "srv_inv w" "loops w i = Some s" "pendingFunctors s = RemoveInLoop n # fs"
    "removeConnectionInLoop tid n (put_loop i (s\<lparr>pendingFunctors := fs\<rparr>) w) = Inr w'"
  shows "srv_inv w'"
proof -
  obtain cn io where c: "conns w n = Some (cn, io)" and st: "has_stage w n Closing" and i: "i = srv_loop w"
    using task_stage [OF assms(1,2,3), of n] by (metis cnt_about(2))
  have "conn_state cn = kDisconnected" using st by (simp add: has_stage_Some [OF c])
  moreover have "cnt (put_loop i (s\<lparr>pendingFunctors := fs\<rparr>) w) j f = 0" if "about n f" for j f
    using that st i unfolding cnt_pop [OF assms(2,3)] by (auto simp: has_stage_Some [OF c] about_def)
  ultimately show ?thesis
    using c by (intro step_remove [OF assms(1) c st _ inside_popped [OF assms(2,3)] _ _ _ _ assms(4)]) simp_all
qed

text \<open>The peer closes, or the application closes by force: \<open>handleClose\<close> in the connection's loop.\<close>

lemma step_close:
  assumes inv: "srv_inv w" and "callbacks_ok CB" and c: "conns w n = Some (cn, io)"
    and st: "conn_state cn \<in> {kConnected, kDisconnecting}" and cl: "srv_close K CB n w = Inr w'"
  shows "srv_inv w'"
proof -
  obtain s cn1 s1 where s: "loops w io = Some s" and h: "handleClose K (CB\<lparr>closeCallback := Some Inr\<rparr>) (cn, s) = Inr (cn1, s1)"
    and rm: "srv_removeConnection (threadId s) n (put_conn n (cn1, io) (put_loop io s1 w)) = Inr w'"
    using cl c by (auto simp: srv_close_def with_conn_def with_loop_def rbind_eq_Inr split: option.splits)
  let ?w1 = "put_conn n (cn1, io) (put_loop io s1 w)"
  note app = handleClose_step [OF assms(2) h]
  have up: "has_stage w n Up"
    using srv_inv_stage [OF inv, of n] st by (auto simp: has_stage_Some [OF c] elim: stage_state.elims)
  have win: "inside n w ?w1" by (rule inside_app [OF s app(1)])
  have zero: "cnt ?w1 i f = 0" if "about n f" for i f
    using that up cnt_app [OF s app(1) about_not_App [OF that], of i] by (auto simp: has_stage_Some [OF c] about_def)
  obtain b where b: "loops ?w1 (srv_loop w) = Some b"
    using rm by (auto simp: srv_removeConnection_def with_loop_def split: option.splits if_splits)
  show ?thesis
  proof (cases "isInLoopThread (threadId s) b")
    case True
    with rm b have "removeConnectionInLoop (threadId s) n ?w1 = Inr w'"
      by (simp add: srv_removeConnection_def with_loop_def)
    from step_remove [OF inv c up _ win _ _ app(2) zero this] app(1) show ?thesis by (simp add: app_step_def)
  next
    case False
    with rm b have w': "w' = put_loop (srv_loop w) (queueInLoop (threadId s) (RemoveInLoop n) b) ?w1"
      by (simp add: srv_removeConnection_def with_loop_def)
    have push: "cnt w' j f = cnt ?w1 j f + of_bool (j = srv_loop w \<and> f = RemoveInLoop n)" for j f
      using cnt_push [OF b] w' by simp
    show ?thesis
    proof (rule srv_inv_step [OF inv])
      have sel: "conns w' n = Some (cn1, io)" "loops w' io \<noteq> None" "connections w' = connections w" "srv_loop w' = srv_loop w"
        by (simp_all add: w')
      show "has_stage w' n Closing"
        using up app zero sel(2) unfolding has_stage_Some [OF sel(1)] sel(3,4)
        by (simp add: has_stage_Some [OF c] push app_step_def)
      show "cnt w' i f = cnt w i f" if "m \<noteq> n" "about m f" for m i f
        using that win push [of i f] by (auto simp: inside_def about_def)
    qed (auto simp: w')
  qed
qed

text \<open>The queued destruction runs, and the object is gone.\<close>

lemma step_destroyed:
  assumes inv: "srv_inv w" and "callbacks_ok CB" and s: "loops w i = Some s" "pendingFunctors s = Destroyed n # fs"
    and rd: "run_destroyed K CB n (put_loop i (s\<lparr>pendingFunctors := fs\<rparr>) w) = Inr w'"
  shows "srv_inv w'"
proof -
  let ?s = "s\<lparr>pendingFunctors := fs\<rparr>"
  let ?w = "put_loop i ?s w"
  obtain cn where c: "conns w n = Some (cn, i)" and st: "has_stage w n Dying"
    using task_stage [OF inv s, of n] by (metis cnt_about(3))
  obtain cn1 s1 where cd: "connectDestroyed K CB (cn, ?s) = Inr (cn1, s1)"
    and w': "w' = put_loop i (TcpConnection_dtor cn1 s1) (?w\<lparr>conns := (conns w)(n := None)\<rparr>)"
    using rd c by (auto simp: run_destroyed_def with_conn_def with_loop_def rbind_eq_Inr)
  have app: "app_step (cn, ?s) (cn1, TcpConnection_dtor cn1 s1)"
    using connectDestroyed_step [OF assms(2) cd]
    by (simp add: app_step_def TcpConnection_dtor_def log_sys_def delete_channel_def)
  have l: "loops (?w\<lparr>conns := (conns w)(n := None)\<rparr>) i = Some ?s" by simp
  have cnts: "cnt w' j f = cnt w j f - of_bool (j = i \<and> f = Destroyed n)" if "f \<notin> range App" for j f
    using cnt_app [OF l app that] cnt_pop [OF s] unfolding w' by simp
  show ?thesis
  proof (rule srv_inv_step [OF inv])
    have "conns w' n = None" "connections w' = connections w" by (simp_all add: w')
    then show "has_stage w' n Absent"
      using st by (subst has_stage_None) (auto simp: has_stage_Some [OF c] cnts image_iff about_def)
    show "cnt w' j f = cnt w j f" if "m \<noteq> n" "about m f" for m j f
      using that cnts [OF about_not_App [OF that(2)]] by (auto simp: about_def)
  qed (auto simp: w')
qed

text \<open>Steps that concern no connection: the application's functors and listening.\<close>

lemma step_none:
  assumes "srv_inv w" "\<And>m i f. about m f \<Longrightarrow> cnt w' i f = cnt w i f" "\<And>i. loops w i \<noteq> None \<Longrightarrow> loops w' i \<noteq> None"
    and "conns w' = conns w" "connections w' = connections w" "srv_loop w' = srv_loop w" "srv_name w' = srv_name w"
      "srv_ipPort w' = srv_ipPort w" "nextConnId w' = nextConnId w"
  shows "srv_inv w'"
proof -
  have "has_stage w' n st" if "has_stage w n st" for n st
  proof -
    have "others_same (Suc n) w w'" using assms unfolding others_same_def by simp
    with that show ?thesis using others_stage [of "Suc n" w w' n st] by simp
  qed
  moreover obtain st where "has_stage w 0 st" using srv_inv_stage [OF assms(1)] by blast
  ultimately show ?thesis
    using assms by (intro srv_inv_step [OF assms(1), of w' 0 st]) simp_all
qed

lemma step_listen:
  assumes "srv_inv w" "srv_listen K ok w = Inr w'"
  shows "srv_inv w'"
proof -
  obtain s a s1 where s: "loops w (srv_loop w) = Some s" and l: "Acceptor_listen K ok (srv_acceptor w, s) = Inr (a, s1)"
    and w': "w' = put_loop (srv_loop w) s1 (w\<lparr>srv_acceptor := a\<rparr>)"
    using assms(2) by (auto simp: srv_listen_def with_loop_def rbind_eq_Inr split: option.splits)
  obtain s0 where "s0 = log_sys (SockListen (acc_fd (srv_acceptor w))) s" "enableReading K (acc_channel (srv_acceptor w)) s0 = Inr s1"
    using l by (auto simp: Acceptor_listen_def Socket_listen_def Let_def rbind_eq_Inr split: if_splits)
  then have "reactor.more s1 = reactor.more s"
    using Channel_set_more [of add_reading K _ s0 s1] by (simp add: enableReading_def log_sys_def)
  from reactor_more_queue [OF this] s have "cnt w' i f = cnt w i f" for i f
    by (simp add: w' cnt_def)
  then show ?thesis by (intro step_none [OF assms(1)]) (simp_all add: w')
qed

lemma step_task:
  assumes inv: "srv_inv w" and cb: "callbacks_ok CB" and rt: "run_task K CB ok i w = Inr w'"
  shows "srv_inv w'"
proof -
  obtain s where s: "loops w i = Some s" using rt by (auto simp: run_task_def with_loop_def split: option.splits)
  show ?thesis
  proof (cases "pendingFunctors s")
    case Nil
    with rt s inv show ?thesis by (simp add: run_task_def with_loop_def)
  next
    case (Cons f fs)
    let ?w = "put_loop i (s\<lparr>pendingFunctors := fs\<rparr>) w"
    have skip: "srv_inv ?w" if "\<not> (\<exists>n. about n f)"
    proof (rule step_none [OF inv])
      show "cnt ?w j g = cnt w j g" if "about m g" for m j g
        using that \<open>\<not> (\<exists>n. about n f)\<close> unfolding cnt_pop [OF s Cons] by (cases "g = f") auto
    qed simp_all
    have run: "run_task K CB ok i w =
        (case f of Established n \<Rightarrow> run_established K CB n ?w | Destroyed n \<Rightarrow> run_destroyed K CB n ?w
         | RemoveInLoop n \<Rightarrow> removeConnectionInLoop (threadId s) n ?w | Listen \<Rightarrow> srv_listen K ok ?w | App k \<Rightarrow> Inr ?w)"
      using s Cons by (simp add: run_task_def with_loop_def Let_def)
    show ?thesis
    proof (cases f)
      case (Established n)
      with step_established [OF inv cb s, of n fs K w'] run rt Cons show ?thesis by simp
    next
      case (Destroyed n)
      with step_destroyed [OF inv cb s, of n fs K w'] run rt Cons show ?thesis by simp
    next
      case (RemoveInLoop n)
      with step_removal [OF inv s, of n fs "threadId s" w'] run rt Cons show ?thesis by simp
    next
      case Listen
      with step_listen [OF skip, of K ok w'] run rt show ?thesis by (simp add: about_def)
    next
      case (App k)
      with skip run rt show ?thesis by (simp add: about_def)
    qed
  qed
qed

text \<open>A connection is accepted. Its name is new to the map.\<close>

lemma new_label:
  assumes "srv_inv w"
  shows "conn_label w (nextConnId w) \<notin> fst ` set (connections w)"
proof
  assume "conn_label w (nextConnId w) \<in> fst ` set (connections w)"
  with assms obtain i where "i < nextConnId w" "conn_label w (nextConnId w) = conn_label w i"
    unfolding srv_inv_def by blast
  with assms conn_label_inject [of w "nextConnId w" i] show False by (simp add: srv_inv_def)
qed

lemma update_new: "k \<notin> fst ` set al \<Longrightarrow> AList.update k v al = al @ [(k, v)]"
  by (induction al) auto

lemma accept_effect:
  assumes inv: "srv_inv w" and cb: "callbacks_ok CB"
    and acc: "newConnection K CB handler tid n c local ctx sockfd peer w = Inr w'"
  obtains st cn2 io s2 where "conns w' = (conns w)(n \<mapsto> (cn2, io))" "loops w' = (loops w)(io \<mapsto> s2)"
    "conn_name cn2 = conn_label w (nextConnId w)" "stage_state st (conn_state cn2)" "st \<in> {New, Up}"
    "connections w' = connections w @ [(conn_label w (nextConnId w), n)]" "srv_loop w' = srv_loop w"
    "srv_name w' = srv_name w" "srv_ipPort w' = srv_ipPort w" "nextConnId w' = nextConnId w + 1"
    "nextConnId w' < 2 ^ 31"
    "\<And>i f. f \<notin> range App \<Longrightarrow> cnt w' i f = cnt w i f + of_bool (st = New \<and> i = io \<and> f = Established n)"
proof -
  let ?nm = "conn_label w (nextConnId w)"
  obtain io pool1 where io: "getNextLoop (srv_pool w) = (Inr io, pool1)"
    using acc by (cases "getNextLoop (srv_pool w)") (auto simp: newConnection_def rbind_eq_Inr)
  obtain s where s: "loops w io = Some s"
    using acc io by (auto simp: newConnection_def TcpConnection_ctor_def Let_def rbind_eq_Inr split: option.splits if_splits)
  have lt: "nextConnId w + 1 < 2 ^ 31"
    using acc io by (auto simp: newConnection_def split: if_splits)
  obtain cn s1 where ctor: "TcpConnection_ctor (loops w io) ?nm sockfd local peer c (handler n 0) (handler n 1)
      (handler n 2) (handler n 3) ctx = Inr (cn, s1)"
    using s by (simp add: TcpConnection_ctor_def Let_def)
  define cn1 where "cn1 = setWriteCompleteCallback (srv_writeComplete w) cn"
  define w1 where "w1 = w\<lparr>srv_pool := pool1, nextConnId := nextConnId w + 1, connections := AList.update ?nm n (connections w)\<rparr>"
  have cn1: "conn_name cn1 = ?nm" "conn_state cn1 = kConnecting" and app0: "app_step (cn1, s) (cn1, s1)"
    using ctor s by (auto simp: cn1_def TcpConnection_ctor_def setWriteCompleteCallback_def app_step_def log_sys_def
        new_channel_def Let_def)
  have w1: "loops w1 = loops w" "conns w1 = conns w" "srv_loop w1 = srv_loop w"
    "connections w1 = connections w @ [(?nm, n)]" "srv_name w1 = srv_name w" "srv_ipPort w1 = srv_ipPort w"
    "nextConnId w1 = nextConnId w + 1"
    using update_new [OF new_label [OF inv]] by (simp_all add: w1_def)
  have cw1: "cnt w1 i f = cnt w i f" for i f by (simp add: w1_def cnt_def)
  have "\<exists>st cn2 s2. w' = put_conn n (cn2, io) (put_loop io s2 w1) \<and> conn_name cn2 = ?nm \<and>
      stage_state st (conn_state cn2) \<and> st \<in> {New, Up} \<and>
      (\<forall>i f. f \<notin> range App \<longrightarrow> cnt (put_loop io s2 w1) i f = cnt w i f + of_bool (st = New \<and> i = io \<and> f = Established n))"
  proof (cases "isInLoopThread tid s1")
    case True
    then obtain cn2 s2 where ce: "connectEstablished K CB (cn1, s1) = Inr (cn2, s2)"
      and w': "w' = put_conn n (cn2, io) (put_loop io s2 w1)"
      using acc io ctor lt by (auto simp: newConnection_def cn1_def w1_def Let_def rbind_eq_Inr)
    note ce = connectEstablished_step [OF cb ce]
    have "cnt (put_loop io s2 w1) i f = cnt w i f" if "f \<notin> range App" for i f
      using cnt_app [OF _ app_step_trans [OF app0 ce(1)] that, of w1] s by (simp add: w1(1) cw1)
    with w' ce cn1 show ?thesis
      by (intro exI [of _ Up] exI [of _ cn2] exI [of _ s2]) (auto simp: app_step_def)
  next
    case False
    then have w': "w' = put_conn n (cn1, io) (put_loop io (queueInLoop tid (Established n) s1) w1)"
      using acc io ctor lt by (simp add: newConnection_def cn1_def w1_def Let_def)
    have "cnt (put_loop io (queueInLoop tid (Established n) s1) w1) i f = cnt w i f + of_bool (i = io \<and> f = Established n)"
      if "f \<notin> range App" for i f
      using cnt_push [of "put_loop io s1 w1" io s1 tid "Established n" i f] cnt_app [OF _ app0 that, of w1] s
      by (simp add: w1(1) cw1 cnt_def)
    with w' cn1 show ?thesis
      by (intro exI [of _ New] exI [of _ cn1] exI [of _ "queueInLoop tid (Established n) s1"]) simp
  qed
  then obtain st cn2 s2 where w': "w' = put_conn n (cn2, io) (put_loop io s2 w1)" and cn2: "conn_name cn2 = ?nm"
      "stage_state st (conn_state cn2)" "st \<in> {New, Up}"
    and cnts: "\<And>i f. f \<notin> range App \<Longrightarrow>
      cnt w' i f = cnt w i f + of_bool (st = New \<and> i = io \<and> f = Established n)" by force
  show thesis by (rule that [OF _ _ cn2 _ _ _ _ _ _ cnts]) (use lt in \<open>simp_all add: w' w1\<close>)
qed

lemma step_accept:
  assumes inv: "srv_inv w" and cb: "callbacks_ok CB" and n: "conns w n = None"
    and acc: "newConnection K CB handler tid n c local ctx sockfd peer w = Inr w'"
  shows "srv_inv w'"
proof (rule accept_effect [OF inv cb acc])
  fix st cn2 io s2
  assume e: "conns w' = (conns w)(n \<mapsto> (cn2, io))" "loops w' = (loops w)(io \<mapsto> s2)"
    "conn_name cn2 = conn_label w (nextConnId w)" "stage_state st (conn_state cn2)" "st \<in> {New, Up}"
    "connections w' = connections w @ [(conn_label w (nextConnId w), n)]" "srv_loop w' = srv_loop w"
    "srv_name w' = srv_name w" "srv_ipPort w' = srv_ipPort w" "nextConnId w' = nextConnId w + 1"
    "nextConnId w' < 2 ^ 31"
    and cnts: "\<And>i f. f \<notin> range App \<Longrightarrow> cnt w' i f = cnt w i f + of_bool (st = New \<and> i = io \<and> f = Established n)"
  have abs: "\<And>i f. about n f \<Longrightarrow> cnt w i f = 0" "\<And>nm. (nm, n) \<notin> set (connections w)"
    using srv_inv_stage [OF inv, of n] n by (auto simp: has_stage_None)
  have stage: "has_stage w' n st"
    using e abs by (subst has_stage_Some) (auto simp: cnts image_iff)
  show "srv_inv w'"
  proof (rule srv_inv_update [OF inv stage])
    have "cnt w' i f = cnt w i f" if "m \<noteq> n" "about m f" for m i f
      using that cnts [OF about_not_App [OF that(2)]] by (auto simp: about_def)
    then show "others_same n w w'"
      unfolding others_same_def using e by auto
    show "distinct (map fst (connections w'))"
      using inv new_label [OF inv] e(6) by (auto simp: srv_inv_def)
  qed (use e in auto)
qed

lemma srv_run_inv:
  assumes "srv_run K CB w0 w" "srv_inv w0" "callbacks_ok CB"
  shows "srv_inv w"
  using assms(1)
proof induction
  case init
  show ?case by (rule assms(2))
next
  case (accepts w n b handler c local ctx sockfd peer w')
  show ?case by (rule step_accept [OF accepts.IH assms(3) accepts.hyps(2,4)])
next
  case (task w ok i w')
  show ?case by (rule step_task [OF task.IH assms(3) task.hyps(2)])
next
  case (owner w n cn io s cn' s')
  obtain st where st: "has_stage w n st" using srv_inv_stage [OF owner.IH] by blast
  have f: "conn_name cn' = conn_name cn" "conn_state cn' = conn_state cn \<or> conn_state cn = kConnected \<and> conn_state cn' = kDisconnecting"
    "app_step (cn, s) (cn', s')"
    using owner.hyps(4) by (simp_all add: app_step_def app_call_def)
  have "stage_state st (conn_state cn')"
    using st f(2) by (cases st) (auto simp: has_stage_Some [OF owner.hyps(2)])
  then show ?case by (rule step_owner [OF owner.IH owner.hyps(2,3) st f(3)])
next
  case (closes w n cn io w')
  show ?case by (rule step_close [OF closes.IH assms(3) closes.hyps(2,3,4)])
qed

text \<open>A server that was constructed and started, on loops with empty queues.\<close>

definition idle :: "srv_task event_loop \<Rightarrow> bool" where
  "idle s \<longleftrightarrow> pendingFunctors s = []"

lemma server_ctor_inv:
  assumes "TcpServer_ctor loop_ptr ls addr name opt fd ok c rd = Inr w" "\<And>i s. ls i = Some s \<Longrightarrow> idle s"
  shows "srv_inv w" "\<And>i s. loops w i = Some s \<Longrightarrow> idle s" "conns w = (\<lambda>_. None)" "connections w = []"
proof -
  obtain i s a s1 ip where e: "ls i = Some s" "Acceptor_ctor fd ok c rd opt s = Inr (a, s1)" "toIpPort addr = Inr ip"
    "w = \<lparr>srv_loop = i, srv_ipPort = ip, srv_name = name, srv_acceptor = a,
                  srv_pool = EventLoopThreadPool_ctor i name, srv_started = 0, nextConnId = 1,
                  connections = [], srv_writeComplete = None, conns = (\<lambda>_. None), loops = ls(i \<mapsto> s1)\<rparr>"
    using assms(1) by (auto simp: TcpServer_ctor_def CheckLoopNotNull_def rbind_eq_Inr split: option.splits)
  have "pendingFunctors s1 = pendingFunctors s"
    using e(2) by (auto simp: Acceptor_ctor_def createNonblocking_def bindAddress_def setReusePort_def setReuseAddr_def
        log_sys_def new_channel_def Let_def rbind_eq_Inr split: if_splits)
  then show idle: "\<And>i s. loops w i = Some s \<Longrightarrow> idle s"
    using assms(2) e(1) unfolding e(4) by (auto simp: idle_def split: if_splits)
  show conns: "conns w = (\<lambda>_. None)" and cs: "connections w = []" by (simp_all add: e(4))
  have "cnt w j f = 0" for j f
    using idle [of j] by (auto simp: cnt_def idle_def split: option.splits)
  then have "has_stage w n Absent" for n
    by (subst has_stage_None) (simp_all add: conns cs)
  moreover have "length ip \<le> 21" using toIpPort_length [OF e(3)] by simp
  ultimately show "srv_inv w" unfolding srv_inv_def by (auto simp: e(4))
qed

lemma fold_upd:
  "fold (\<lambda>i ls. ls(g i \<mapsto> h i)) xs m j = Some s \<Longrightarrow> m j = Some s \<or> (\<exists>i \<in> set xs. s = h i)"
  "m j \<noteq> None \<Longrightarrow> fold (\<lambda>i ls. ls(g i \<mapsto> h i)) xs m j \<noteq> None"
  by (induction xs arbitrary: m) (fastforce split: if_splits)+

lemma start_inv:
  assumes inv: "srv_inv w" and idle: "\<And>i s. loops w i = Some s \<Longrightarrow> idle s" "\<And>i. idle (fresh i)"
    and start: "srv_start K tid ok new_at fresh cb w = Inr w'"
  shows "srv_inv w'"
proof (cases "srv_started w = 0")
  case False
  with start have w': "w' = w\<lparr>srv_started := srv_started w + 1\<rparr>" by (simp add: srv_start_def Let_def)
  show ?thesis by (rule step_none [OF inv]) (simp_all add: w' cnt_def)
next
  case True
  define w2 where "w2 = w\<lparr>srv_started := srv_started w + 1, srv_pool := fst (elp_start new_at cb (srv_pool w)),
       loops := fold (\<lambda>i ls. ls(new_at i \<mapsto> fresh i)) [0..<nat (numThreads (srv_pool w))] (loops w)\<rparr>"
  have l2: "idle s" if "loops w2 i = Some s" for i s
    using fold_upd(1) [of new_at fresh "[0..<nat (numThreads (srv_pool w))]" "loops w" i s] that idle by (auto simp: w2_def)
  have "cnt w2 i f = cnt w i f" for i f
    using l2 idle(1) by (auto simp: cnt_def idle_def split: option.splits)
  then have inv2: "srv_inv w2"
    by (intro step_none [OF inv]) (simp_all add: w2_def fold_upd(2))
  obtain s where s: "loops w2 (srv_loop w) = Some s"
    using start True by (auto simp: srv_start_def with_loop_def Let_def w2_def split: option.splits)
  show ?thesis
  proof (cases "isInLoopThread tid s")
    case True
    with s start \<open>srv_started w = 0\<close> have "srv_listen K ok w2 = Inr w'"
      by (simp add: srv_start_def with_loop_def Let_def w2_def)
    with inv2 show ?thesis by (rule step_listen)
  next
    case False
    with s start \<open>srv_started w = 0\<close> have w': "w' = put_loop (srv_loop w) (queueInLoop tid Listen s) w2"
      by (simp add: srv_start_def with_loop_def Let_def w2_def)
    show ?thesis
      by (rule step_none [OF inv2]) (auto simp: w' cnt_push [OF s] about_def)
  qed
qed

text \<open>What the queue of a loop says of a connection.\<close>

definition queue_ok :: "'c tcp_server \<Rightarrow> nat \<Rightarrow> (srv_task \<Rightarrow> nat) \<Rightarrow> nat \<Rightarrow> bool" where
  "queue_ok w i q n \<longleftrightarrow>
     (0 < q (Established n) \<longrightarrow> q (Established n) = 1 \<and> n \<in> snd ` set (connections w) \<and>
        (\<exists>cn. conns w n = Some (cn, i) \<and> conn_state cn = kConnecting)) \<and>
     (0 < q (RemoveInLoop n) \<longrightarrow> q (RemoveInLoop n) = 1 \<and> n \<in> snd ` set (connections w) \<and> i = srv_loop w \<and>
        (\<exists>cn io. conns w n = Some (cn, io) \<and> conn_state cn = kDisconnected)) \<and>
     (0 < q (Destroyed n) \<longrightarrow> q (Destroyed n) = 1 \<and> n \<notin> snd ` set (connections w) \<and>
        (\<exists>cn. conns w n = Some (cn, i) \<and> conn_state cn = kDisconnected))"

lemma queue_facts:
  assumes "srv_inv w" "loops w i = Some s"
  shows "queue_ok w i (count_list (pendingFunctors s)) n"
proof -
  obtain st where st: "has_stage w n st" using srv_inv_stage [OF assms(1)] by blast
  have q: "count_list (pendingFunctors s) = cnt w i" using assms(2) by (simp add: cnt_def fun_eq_iff)
  have m: "n \<in> snd ` set (connections w) \<longleftrightarrow> (\<exists>nm. (nm, n) \<in> set (connections w))" by force
  show ?thesis
  proof (cases "conns w n")
    case None
    with st show ?thesis unfolding q queue_ok_def by (simp add: has_stage_None)
  next
    case (Some x)
    obtain cn io where x: "conns w n = Some (cn, io)" using Some by (cases x) simp
    have "cnt w i (Established n) = of_bool (st = New \<and> i = io)"
      "cnt w i (RemoveInLoop n) = of_bool (st = Closing \<and> i = srv_loop w)"
      "cnt w i (Destroyed n) = of_bool (st = Dying \<and> i = io)"
      "stage_state st (conn_state cn)" "n \<in> snd ` set (connections w) \<longleftrightarrow> st \<in> {New, Up, Closing}"
      using st m by (simp_all add: has_stage_Some [OF x])
    then show ?thesis unfolding q queue_ok_def x by (cases st) (auto split: if_splits)
  qed
qed

text \<open>The invariant in every run of a server that was constructed and started.\<close>

lemma server_run_inv:
  assumes "callbacks_ok CB" "\<forall>i s. ls i = Some s \<longrightarrow> idle s" "\<forall>i. idle (fresh i)"
    and "TcpServer_ctor (Some base) ls addr name opt fd bind_ok c rd = Inr w1"
    and "srv_start K tid listen_ok new_at fresh cb (srv_setThreadNum k w1) = Inr w0"
    and "srv_run K CB w0 w"
  shows "srv_inv w"
proof -
  have inv1: "srv_inv w1" "\<And>i s. loops w1 i = Some s \<Longrightarrow> idle s"
    using server_ctor_inv [OF assms(4)] assms(2) by blast+
  have "srv_inv (srv_setThreadNum k w1)"
    by (rule step_none [OF inv1(1)]) (simp_all add: srv_setThreadNum_def cnt_def)
  then have "srv_inv w0"
    by (rule start_inv [OF _ _ _ assms(5)]) (use inv1(2) assms(3) in \<open>auto simp: srv_setThreadNum_def\<close>)
  then show ?thesis by (rule srv_run_inv [OF assms(6) _ assms(1)])
qed

text \<open>What the invariant says of the queues, the map and the names.\<close>

lemma srv_inv_facts:
  assumes inv: "srv_inv w"
  shows "(\<forall>i s n. loops w i = Some s \<longrightarrow> queue_ok w i (count_list (pendingFunctors s)) n) \<and>
    (\<forall>nm n. (nm, n) \<in> set (connections w) \<longrightarrow> (\<exists>cn io. conns w n = Some (cn, io) \<and> conn_name cn = nm)) \<and>
    (\<forall>n cn io. conns w n = Some (cn, io) \<and> conn_state cn \<noteq> kDisconnected \<longrightarrow> (conn_name cn, n) \<in> set (connections w)) \<and>
    distinct (map fst (connections w)) \<and> conn_label w (nextConnId w) \<notin> fst ` set (connections w)"
proof -
  have "(conn_name cn, n) \<in> set (connections w)" if "conns w n = Some (cn, io)" "conn_state cn \<noteq> kDisconnected" for n cn io
  proof -
    obtain st where "has_stage w n st" using srv_inv_stage [OF inv] by blast
    with that show ?thesis by (cases st) (simp_all add: has_stage_Some [OF that(1)])
  qed
  moreover have "\<exists>cn io. conns w n = Some (cn, io) \<and> conn_name cn = nm" if "(nm, n) \<in> set (connections w)" for nm n
  proof -
    obtain st where st: "has_stage w n st" using srv_inv_stage [OF inv] by blast
    have "st \<in> {New, Up, Closing} \<and> (\<exists>cn io. conns w n = Some (cn, io) \<and> nm = conn_name cn)"
      using st that unfolding has_stage_def by simp
    then show ?thesis by force
  qed
  ultimately show ?thesis
    using inv queue_facts [OF inv] new_label [OF inv] by (auto simp: srv_inv_def)
qed

text \<open>
  C1: the life of the server's connections, in every run from construction on, over any number
  of loops, with accepting, closing, application calls and queued functors in any order. A
  queued call refers to a connection that exists, is queued once, on the right loop, and in
  the right state: the establishment of a connection that is connecting, on its own loop; the
  removal of a disconnected one from the map it is still in, on the base loop; the destruction
  of a disconnected one that is out of the map, on its own loop. The map holds exactly the
  connections not yet removed, under their own names; no two have the same name, and the next
  connection's name is new.
\<close>

theorem server_lifecycle:
  assumes "callbacks_ok CB" "\<forall>i s. ls i = Some s \<longrightarrow> idle s" "\<forall>i. idle (fresh i)"
    and "TcpServer_ctor (Some base) ls addr name opt fd bind_ok c rd = Inr w1"
    and "srv_start K tid listen_ok new_at fresh cb (srv_setThreadNum k w1) = Inr w0"
    and "srv_run K CB w0 w"
  shows "(\<forall>i s n. loops w i = Some s \<longrightarrow> queue_ok w i (count_list (pendingFunctors s)) n) \<and>
    (\<forall>nm n. (nm, n) \<in> set (connections w) \<longrightarrow> (\<exists>cn io. conns w n = Some (cn, io) \<and> conn_name cn = nm)) \<and>
    (\<forall>n cn io. conns w n = Some (cn, io) \<and> conn_state cn \<noteq> kDisconnected \<longrightarrow> (conn_name cn, n) \<in> set (connections w)) \<and>
    distinct (map fst (connections w)) \<and> conn_label w (nextConnId w) \<notin> fst ` set (connections w)"
  by (rule srv_inv_facts [OF server_run_inv [OF assms]])

text \<open>A server with one thread besides the base loop, started from a third thread, accepts a connection.\<close>

definition demo_loops :: "nat \<Rightarrow> srv_task event_loop option" where
  "demo_loops = [0 \<mapsto> new_loop 4 100 0 (App 0)]"

definition demo_fresh :: "nat \<Rightarrow> srv_task event_loop" where
  "demo_fresh i = new_loop (5 + int i) (101 + int i) 0 (App 0)"

definition demo_addr :: sockaddr_in where
  "demo_addr = InetAddress_ctor dotted_reader 80 ''1.2.3.4''"

definition demo_callbacks :: "unit srv_callbacks" where
  "demo_callbacks = \<lparr>connectionCallback = Some Inr, messageCallback = None, closeCallback = None\<rparr>"

lemma demo_ctor:
  "\<exists>w1 :: 'c tcp_server. TcpServer_ctor (Some 0) demo_loops demo_addr ''srv'' False 9 True 1 (App 2) = Inr w1 \<and>
     srv_loop w1 = 0 \<and> srv_pool w1 = EventLoopThreadPool_ctor 0 ''srv'' \<and> srv_started w1 = 0 \<and> nextConnId w1 = 1 \<and>
     connections w1 = [] \<and> conns w1 = (\<lambda>_. None) \<and> (\<exists>s. [0 \<mapsto> s] = loops w1 \<and> threadId s = 100 \<and> pendingFunctors s = [])"
  by (simp add: TcpServer_ctor_def CheckLoopNotNull_def demo_loops_def toIpPort_fits Acceptor_ctor_def createNonblocking_def
      bindAddress_def Let_def setReuseAddr_def setReusePort_def log_sys_def new_channel_def new_loop_def)
     (rule exI, rule conjI [OF refl], simp)

lemma demo_start:
  assumes "srv_loop w1 = 0" "srv_pool w1 = EventLoopThreadPool_ctor 0 ''srv''" "srv_started w1 = 0" "loops w1 = [0 \<mapsto> s]"
    "threadId s = 100" "pendingFunctors s = []"
  shows "\<exists>w0 s0. srv_start K 7 True (\<lambda>i. Suc i) demo_fresh False (srv_setThreadNum 1 w1) = Inr w0 \<and>
     srv_loop w0 = 0 \<and> nextConnId w0 = nextConnId w1 \<and> connections w0 = connections w1 \<and> conns w0 = conns w1 \<and>
     getNextLoop (srv_pool w0) = (Inr 1, srv_pool w0) \<and> srv_name w0 = srv_name w1 \<and> srv_ipPort w0 = srv_ipPort w1 \<and>
     loops w0 0 = Some s0 \<and> threadId s0 = 100 \<and> loops w0 1 = Some (demo_fresh 0)"
  using assms
  by (simp add: srv_start_def srv_setThreadNum_def setThreadNum_def EventLoopThreadPool_ctor_def with_loop_def Let_def
      isInLoopThread_def put_loop_def getNextLoop_def elp_start_def upt_rec)

lemma demo_accept:
  fixes CB :: "'c srv_callbacks"
  obtains w1 w0 w :: "'c tcp_server" and b cn s where
    "TcpServer_ctor (Some 0) demo_loops demo_addr ''srv'' False 9 True 1 (App 2) = Inr w1"
    "srv_start ideal_kernel 7 True (\<lambda>i. Suc i) demo_fresh False (srv_setThreadNum 1 w1) = Inr w0"
    "conns w0 3 = None" "loops w0 (srv_loop w0) = Some b"
    "newConnection ideal_kernel CB (\<lambda>n k. App k) (threadId b) 3 5 demo_addr ctx 11 demo_addr w0 = Inr w"
    "connections w = [(conn_label w 1, 3)]" "conns w 3 = Some (cn, 1)" "loops w 1 = Some s"
    "0 < count_list (pendingFunctors s) (Established 3)" "threadId s = 101"
proof -
  obtain w1 :: "'c tcp_server" and s where w1:
    "TcpServer_ctor (Some 0) demo_loops demo_addr ''srv'' False 9 True 1 (App 2) = Inr w1" "srv_loop w1 = 0"
    "srv_pool w1 = EventLoopThreadPool_ctor 0 ''srv''" "srv_started w1 = 0" "nextConnId w1 = 1" "connections w1 = []"
    "conns w1 = (\<lambda>_. None)" "loops w1 = [0 \<mapsto> s]" "threadId s = 100" "pendingFunctors s = []"
    using demo_ctor by metis
  obtain w0 b where w0: "srv_start ideal_kernel 7 True (\<lambda>i. Suc i) demo_fresh False (srv_setThreadNum 1 w1) = Inr w0"
    "srv_loop w0 = 0" "nextConnId w0 = 1" "connections w0 = []" "conns w0 = (\<lambda>_. None)"
    "getNextLoop (srv_pool w0) = (Inr 1, srv_pool w0)" "loops w0 0 = Some b" "threadId b = 100" "loops w0 1 = Some (demo_fresh 0)"
    using demo_start [OF w1(2-4,8-10), of ideal_kernel] w1(5-7) by auto
  obtain w cn s1 where w: "newConnection ideal_kernel CB (\<lambda>n k. App k) 100 3 5 demo_addr ctx 11 demo_addr w0 = Inr w"
    "connections w = [(conn_label w 1, 3)]" "conns w 3 = Some (cn, 1)" "loops w 1 = Some s1"
    "0 < count_list (pendingFunctors s1) (Established 3)" "threadId s1 = 101"
    using w0(2-9)
    by (simp add: newConnection_def TcpConnection_ctor_def Let_def demo_fresh_def new_loop_def isInLoopThread_def
        log_sys_def new_channel_def put_conn_def put_loop_def conn_label_def)
  show thesis
    by (rule that [OF w1(1) w0(1) _ _ w(1) [folded w0(8)] w(2-6)]) (simp_all add: w0)
qed

lemma demo_srv_run:
  obtains w1 w0 w :: "unit tcp_server" and cn s where
    "TcpServer_ctor (Some 0) demo_loops demo_addr ''srv'' False 9 True 1 (App 2) = Inr w1"
    "srv_start ideal_kernel 7 True (\<lambda>i. Suc i) demo_fresh False (srv_setThreadNum 1 w1) = Inr w0"
    "srv_run ideal_kernel demo_callbacks w0 w" "connections w = [(conn_label w 1, 3)]"
    "conns w 3 = Some (cn, 1)" "loops w 1 = Some s" "0 < count_list (pendingFunctors s) (Established 3)" "threadId s = 101"
  by (rule demo_accept [of demo_callbacks "()"]) (blast intro: srv_run.init srv_run.accepts)

lemma demo_srv_sound:
  "\<forall>i s. demo_loops i = Some s \<longrightarrow> idle s" "\<forall>i. idle (demo_fresh i)" "callbacks_ok demo_callbacks"
  by (auto simp: demo_loops_def demo_fresh_def idle_def new_loop_def callbacks_ok_def demo_callbacks_def app_ok_def app_call_def app_step_def
      split: if_splits intro: exI [of _ "[]"])

theorem server_lifecycle_witness:
  "\<exists>(w0 :: unit tcp_server) w. srv_run ideal_kernel demo_callbacks w0 w \<and> connections w = [(conn_label w 1, 3)] \<and>
     (\<exists>s. loops w 1 = Some s \<and> queue_ok w 1 (count_list (pendingFunctors s)) 3 \<and> 0 < count_list (pendingFunctors s) (Established 3)) \<and>
     conn_label w (nextConnId w) \<notin> fst ` set (connections w)"
proof (rule demo_srv_run)
  fix w1 w0 w :: "unit tcp_server" and cn s
  assume a: "TcpServer_ctor (Some 0) demo_loops demo_addr ''srv'' False 9 True 1 (App 2) = Inr w1"
    "srv_start ideal_kernel 7 True (\<lambda>i. Suc i) demo_fresh False (srv_setThreadNum 1 w1) = Inr w0"
    "srv_run ideal_kernel demo_callbacks w0 w" "connections w = [(conn_label w 1, 3)]" "loops w 1 = Some s"
    "0 < count_list (pendingFunctors s) (Established 3)"
  from server_lifecycle [OF demo_srv_sound(3,1,2) a(1-3)] a show ?thesis by blast
qed

end
