(* ===== verification/AsyncLogger.thy ===== *)
theory AsyncLogger
  imports Delivery
begin

text \<open>
  The asynchronous log (\<^verbatim>\<open>src/AsyncLogger.h\<close>): the buffer being filled, the queue of full
  buffers, the writer thread and the file. The members are a record, the file and the
  standard output the text written so far. \<open>alloc n\<close> is the capacity a string gets when
  room for \<open>n\<close> characters is asked for.

  What is shown: in every interleaving of loggers and writer nothing is lost, duplicated or
  reordered before \<open>stop\<close> empties the buffers; \<open>stop\<close> on a quiet logger returns and leaves
  everything logged in the file; a message logged between the end of the writer and the
  emptying can overtake an earlier one. The logger is a delivery queue of characters (theory \<open>Delivery\<close>).
\<close>

record async_logger =
  al_buffer_size :: nat
  al_running :: bool
  current_buffer :: string
  current_capacity :: nat
  buffers_to_write :: "string list"
  log_file :: string
  log_file_open :: bool
  console :: string

definition newline :: string where
  "newline = [CHR 0x0A]"

definition AsyncLogger_ctor :: "(nat \<Rightarrow> nat) \<Rightarrow> bool \<Rightarrow> string \<Rightarrow> nat \<Rightarrow> async_logger res" where
  "AsyncLogger_ctor alloc opened old buffer_size =
     (if \<not> opened then Inl RuntimeError
      else Inr \<lparr>al_buffer_size = buffer_size, al_running = True, current_buffer = [],
                current_capacity = alloc buffer_size,
                buffers_to_write = [], log_file = old, log_file_open = True, console = []\<rparr>)"

definition writeToFile :: "string \<Rightarrow> async_logger \<Rightarrow> async_logger" where
  "writeToFile buffer l = l\<lparr>log_file := log_file l @ buffer\<rparr>"

text \<open>Moving the current buffer to the queue; the string left behind is cleared and reserved.\<close>

definition push_current :: "(nat \<Rightarrow> nat) \<Rightarrow> async_logger \<Rightarrow> async_logger" where
  "push_current alloc l =
     l\<lparr>buffers_to_write := buffers_to_write l @ [current_buffer l], current_buffer := [],
       current_capacity := alloc (al_buffer_size l)\<rparr>"

definition al_log :: "(nat \<Rightarrow> nat) \<Rightarrow> string \<Rightarrow> async_logger \<Rightarrow> async_logger" where
  "al_log alloc message l =
     (let log_entry = message @ newline;
          l1 = (if current_capacity l - length (current_buffer l) < length log_entry
                then push_current alloc l else l);
          buf = current_buffer l1 @ log_entry
      in l1\<lparr>current_buffer := buf,
            current_capacity := if length buf \<le> current_capacity l1 then current_capacity l1
                                else alloc (length buf)\<rparr>)"

subsection \<open>The writer\<close>

text \<open>
  The condition of the loop; the critical section, which gives the buffers taken or, when there
  are none, waits and goes back to the condition; and the writing outside the lock.
\<close>

definition writer_cond :: "async_logger \<Rightarrow> bool" where
  "writer_cond l \<longleftrightarrow> al_running l \<or> buffers_to_write l \<noteq> [] \<or> current_buffer l \<noteq> []"

definition writer_take :: "(nat \<Rightarrow> nat) \<Rightarrow> async_logger \<Rightarrow> string list \<times> async_logger" where
  "writer_take alloc l =
     (if buffers_to_write l = [] \<and> current_buffer l = [] then ([], l)
      else let l1 = (if current_buffer l \<noteq> [] then push_current alloc l else l)
           in (take 16 (buffers_to_write l1), l1\<lparr>buffers_to_write := drop 16 (buffers_to_write l1)\<rparr>))"

definition write_buffer :: "async_logger \<Rightarrow> string \<Rightarrow> async_logger" where
  "write_buffer l buffer =
     (if buffer \<noteq> [] then writeToFile buffer (l\<lparr>console := console l @ buffer @ newline\<rparr>) else l)"

definition writer_write :: "string list \<Rightarrow> async_logger \<Rightarrow> async_logger" where
  "writer_write local_buffers l = foldl write_buffer l local_buffers"

text \<open>The writer alone, when nobody logs: not returning is the value \<^const>\<open>None\<close>.\<close>

partial_function (option) writeLoop :: "(nat \<Rightarrow> nat) \<Rightarrow> async_logger \<Rightarrow> async_logger option" where
  "writeLoop alloc l =
     (if writer_cond l then
        (case writer_take alloc l of (local_buffers, l1) \<Rightarrow> writeLoop alloc (writer_write local_buffers l1))
      else Some l)"

text \<open>\<open>stop\<close>: the flag, the join with the writer, and what remains: the current buffer, then the queue.\<close>

definition stop_drain :: "async_logger \<Rightarrow> async_logger" where
  "stop_drain l =
     (let l1 = (if current_buffer l \<noteq> [] then writeToFile (current_buffer l) l else l);
          l2 = foldl (\<lambda>a b. writeToFile b a) l1 (buffers_to_write l1)
      in l2\<lparr>buffers_to_write := [], log_file_open := False\<rparr>)"

definition al_stop :: "(nat \<Rightarrow> nat) \<Rightarrow> async_logger \<Rightarrow> async_logger option" where
  "al_stop alloc l =
     (if al_running l then map_option stop_drain (writeLoop alloc (l\<lparr>al_running := False\<rparr>)) else Some l)"

definition AsyncLogger_dtor :: "(nat \<Rightarrow> nat) \<Rightarrow> async_logger \<Rightarrow> async_logger option" where
  "AsyncLogger_dtor alloc l = al_stop alloc l"

subsection \<open>What is in the buffers\<close>

definition buffered :: "async_logger \<Rightarrow> string" where
  "buffered l = concat (buffers_to_write l) @ current_buffer l"

lemma al_log_buffered [simp]:
  "buffered (al_log alloc m l) = buffered l @ m @ newline" "log_file (al_log alloc m l) = log_file l"
  "al_running (al_log alloc m l) = al_running l"
  by (simp_all add: al_log_def push_current_def buffered_def Let_def)

lemma writer_take_buffered:
  assumes "writer_take alloc l = (bs, l')"
  shows "buffered l = concat bs @ buffered l'" "log_file l' = log_file l" "al_running l' = al_running l"
proof -
  have "concat (take 16 xs) @ concat (drop 16 xs) @ ys = concat xs @ ys" for xs and ys :: string
    by (metis append_assoc append_take_drop_id concat_append)
  with assms show "buffered l = concat bs @ buffered l'"
    by (auto simp: writer_take_def push_current_def buffered_def Let_def simp del: take_append drop_append
        split: if_splits)
  show "log_file l' = log_file l" "al_running l' = al_running l"
    using assms by (auto simp: writer_take_def push_current_def Let_def split: if_splits)
qed

lemma writer_write_effect [simp]:
  "log_file (writer_write bs l) = log_file l @ concat bs" "buffered (writer_write bs l) = buffered l"
  "al_running (writer_write bs l) = al_running l" "buffers_to_write (writer_write bs l) = buffers_to_write l"
  "current_buffer (writer_write bs l) = current_buffer l"
proof -
  have "log_file (writer_write bs l) = log_file l @ concat bs \<and> buffered (writer_write bs l) = buffered l \<and>
    al_running (writer_write bs l) = al_running l \<and> buffers_to_write (writer_write bs l) = buffers_to_write l \<and>
    current_buffer (writer_write bs l) = current_buffer l"
    unfolding writer_write_def
    by (induction bs arbitrary: l) (simp_all add: write_buffer_def writeToFile_def buffered_def)
  then show "log_file (writer_write bs l) = log_file l @ concat bs" "buffered (writer_write bs l) = buffered l"
    "al_running (writer_write bs l) = al_running l" "buffers_to_write (writer_write bs l) = buffers_to_write l"
    "current_buffer (writer_write bs l) = current_buffer l"
    by simp_all
qed

lemma foldl_writeToFile:
  "foldl (\<lambda>a b. writeToFile b a) l bs = l\<lparr>log_file := log_file l @ concat bs\<rparr>"
  by (induction bs arbitrary: l) (simp_all add: writeToFile_def)

lemma stop_drain_file: "log_file (stop_drain l) = log_file l @ current_buffer l @ concat (buffers_to_write l)"
  unfolding stop_drain_def foldl_writeToFile Let_def by (simp add: writeToFile_def)

subsection \<open>Loggers and writer\<close>

text \<open>
  The writer's place: at the condition, about to enter the critical section, writing the
  buffers it took, or ended. \<open>logged\<close> is the text given to \<open>log\<close>; \<open>late\<close> tells whether something
  was logged after the writer had ended, \<open>drained\<close> whether \<open>stop\<close> has emptied the buffers.
\<close>

datatype writer_place = AtCond | AtLock | Writing "string list" | WriterEnded

record logger_run =
  lg :: async_logger
  place :: writer_place
  logged :: string
  late :: bool
  drained :: bool

inductive logger_step :: "(nat \<Rightarrow> nat) \<Rightarrow> logger_run \<Rightarrow> logger_run \<Rightarrow> bool" for alloc where
  logs: "\<not> drained r \<Longrightarrow> logger_step alloc r (r\<lparr>lg := al_log alloc m (lg r), logged := logged r @ m @ newline,
    late := late r \<or> place r = WriterEnded\<rparr>)"
| goes_on: "place r = AtCond \<Longrightarrow> writer_cond (lg r) \<Longrightarrow> logger_step alloc r (r\<lparr>place := AtLock\<rparr>)"
| leaves: "place r = AtCond \<Longrightarrow> \<not> writer_cond (lg r) \<Longrightarrow> logger_step alloc r (r\<lparr>place := WriterEnded\<rparr>)"
| nothing: "place r = AtLock \<Longrightarrow> buffers_to_write (lg r) = [] \<Longrightarrow> current_buffer (lg r) = [] \<Longrightarrow>
    logger_step alloc r (r\<lparr>place := AtCond\<rparr>)"
| takes_buffers: "place r = AtLock \<Longrightarrow> buffers_to_write (lg r) \<noteq> [] \<or> current_buffer (lg r) \<noteq> [] \<Longrightarrow>
    writer_take alloc (lg r) = (bs, l) \<Longrightarrow> logger_step alloc r (r\<lparr>lg := l, place := Writing bs\<rparr>)"
| writes: "place r = Writing bs \<Longrightarrow> logger_step alloc r (r\<lparr>lg := writer_write bs (lg r), place := AtCond\<rparr>)"
| stops: "logger_step alloc r (r\<lparr>lg := (lg r)\<lparr>al_running := False\<rparr>\<rparr>)"
| drains: "place r = WriterEnded \<Longrightarrow> \<not> al_running (lg r) \<Longrightarrow> \<not> drained r \<Longrightarrow>
    logger_step alloc r (r\<lparr>lg := stop_drain (lg r), drained := True\<rparr>)"

inductive logger_reach :: "(nat \<Rightarrow> nat) \<Rightarrow> async_logger \<Rightarrow> logger_run \<Rightarrow> bool" for alloc l where
  start: "AsyncLogger_ctor alloc True [] n = Inr l \<Longrightarrow>
    logger_reach alloc l \<lparr>lg = l, place = AtCond, logged = [], late = False, drained = False\<rparr>"
| step: "logger_reach alloc l r \<Longrightarrow> logger_step alloc r r' \<Longrightarrow> logger_reach alloc l r'"

definition in_hand :: "logger_run \<Rightarrow> string" where
  "in_hand r = (case place r of Writing bs \<Rightarrow> concat bs | _ \<Rightarrow> [])"

definition logger_inv :: "logger_run \<Rightarrow> bool" where
  "logger_inv r \<longleftrightarrow>
     (\<not> drained r \<longrightarrow> logged r = log_file (lg r) @ in_hand r @ buffered (lg r)) \<and>
     (place r = WriterEnded \<and> \<not> late r \<and> \<not> drained r \<longrightarrow> buffers_to_write (lg r) = [] \<and> current_buffer (lg r) = []) \<and>
     (drained r \<longrightarrow> place r = WriterEnded \<and> (\<not> late r \<longrightarrow> log_file (lg r) = logged r))"

lemma logger_inv_step:
  assumes "logger_step alloc r r'" "logger_inv r"
  shows "logger_inv r'"
  using assms
proof (cases rule: logger_step.cases)
  case (takes_buffers bs l)
  with writer_take_buffered [OF takes_buffers(4)] assms(2) show ?thesis
    by (auto simp: logger_inv_def in_hand_def)
next
  case stops
  with assms(2) show ?thesis by (simp add: logger_inv_def in_hand_def buffered_def split: writer_place.splits)
next
  case drains
  with assms(2) show ?thesis by (auto simp: logger_inv_def in_hand_def buffered_def stop_drain_file)
qed (use assms(2) in \<open>auto simp: logger_inv_def in_hand_def writer_cond_def\<close>)

lemma logger_inv_reach: "logger_reach alloc l r \<Longrightarrow> logger_inv r"
proof (induction rule: logger_reach.induct)
  case (start n)
  then show ?case by (auto simp: logger_inv_def in_hand_def AsyncLogger_ctor_def buffered_def)
qed (blast intro: logger_inv_step)

text \<open>
  Up to the moment something is logged after the writer has ended, the text logged is on its way to the
  file as in a delivery queue of characters.
\<close>

definition text_todo :: "logger_run \<Rightarrow> string" where
  "text_todo r = in_hand r @ buffered (lg r)"

definition logger_start :: "(nat \<Rightarrow> nat) \<Rightarrow> nat \<Rightarrow> logger_run \<Rightarrow> bool" where
  "logger_start alloc n r \<longleftrightarrow> (\<exists>l. AsyncLogger_ctor alloc True [] n = Inr l \<and>
     r = \<lparr>lg = l, place = AtCond, logged = [], late = False, drained = False\<rparr>)"

interpretation log_queue: delivery "logger_start alloc n" "\<lambda>r r'. logger_step alloc r r' \<and> \<not> late r'"
  "\<lambda>r. logger_inv r \<and> \<not> late r" text_todo "\<lambda>r. log_file (lg r)" for alloc n
proof unfold_locales
  fix r r' :: logger_run
  assume inv: "logger_inv r \<and> \<not> late r" and st: "logger_step alloc r r' \<and> \<not> late r'"
  then show "logger_inv r' \<and> \<not> late r'" using logger_inv_step by blast
  from st have "logger_step alloc r r'" by simp
  then show "delivers (text_todo r, log_file (lg r)) (text_todo r', log_file (lg r'))"
  proof (cases rule: logger_step.cases)
    case (logs m)
    then show ?thesis using delivers.put [of "text_todo r" "log_file (lg r)" "m @ newline"]
      by (simp add: text_todo_def in_hand_def split: writer_place.splits)
  next
    case (takes_buffers bs l)
    with writer_take_buffered [OF takes_buffers(4)] show ?thesis by (auto simp: text_todo_def in_hand_def)
  next
    case (writes bs)
    then show ?thesis using delivers.get [of "concat bs" "buffered (lg r)" "log_file (lg r)"]
      by (simp add: text_todo_def in_hand_def)
  next
    case drains
    with inv have "buffers_to_write (lg r) = []" "current_buffer (lg r) = []" by (auto simp: logger_inv_def)
    with drains show ?thesis by (auto simp: text_todo_def in_hand_def buffered_def stop_drain_file stop_drain_def)
  qed (auto simp: text_todo_def in_hand_def buffered_def split: writer_place.splits)
qed (auto simp: logger_start_def AsyncLogger_ctor_def logger_inv_def text_todo_def in_hand_def buffered_def)

text \<open>
  The file only grows, and by what was logged: as long as nothing is logged after the writer has
  ended, the file at any moment begins the file at any later moment, which begins with what is in the file
  or on its way there now.
\<close>

theorem log_file_grows:
  assumes "logger_start alloc n r0" "(\<lambda>r r'. logger_step alloc r r' \<and> \<not> late r')\<^sup>*\<^sup>* r0 r"
    "(\<lambda>r r'. logger_step alloc r r' \<and> \<not> late r')\<^sup>*\<^sup>* r r'"
  shows "prefix (log_file (lg r)) (log_file (lg r')) \<and>
    prefix (log_file (lg r) @ text_todo r) (log_file (lg r') @ text_todo r')"
  using log_queue.refines [OF assms] by simp



subsection \<open>Stopping a quiet logger\<close>

text \<open>Each round of the writer takes a queued buffer, so the loop ends once the flag is down.\<close>

definition pending_buffers :: "async_logger \<Rightarrow> nat" where
  "pending_buffers l = length (buffers_to_write l) + of_bool (current_buffer l \<noteq> [])"

lemma writer_round:
  assumes "writer_cond l" "\<not> al_running l" "writer_take alloc l = (bs, l1)"
  shows "pending_buffers (writer_write bs l1) < pending_buffers l"
  using assms
  by (auto simp: writer_take_def writer_cond_def pending_buffers_def push_current_def Let_def split: if_splits)

lemma writeLoop_returns:
  assumes "\<not> al_running l"
  shows "\<exists>l'. writeLoop alloc l = Some l' \<and> \<not> writer_cond l' \<and> log_file l' = log_file l @ buffered l \<and>
    al_running l' = al_running l"
  using assms
proof (induction "pending_buffers l" arbitrary: l rule: less_induct)
  case less
  show ?case
  proof (cases "writer_cond l")
    case False
    then have "buffered l = []" by (simp add: writer_cond_def buffered_def)
    with False show ?thesis by (subst writeLoop.simps) simp
  next
    case True
    obtain bs l1 where t: "writer_take alloc l = (bs, l1)" by fastforce
    note b = writer_take_buffered [OF t]
    have "\<exists>l'. writeLoop alloc (writer_write bs l1) = Some l' \<and> \<not> writer_cond l' \<and>
        log_file l' = log_file (writer_write bs l1) @ buffered (writer_write bs l1) \<and>
        al_running l' = al_running (writer_write bs l1)"
      by (rule less.hyps [OF writer_round [OF True less.prems t]]) (simp add: b(3) less.prems)
    with True t b show ?thesis by (subst writeLoop.simps) simp
  qed
qed

text \<open>
  Stopping a logger while nobody logs terminates, whatever waits in its buffers: the writer
  ends, everything that was logged is in the file after what was there, nothing is left in
  the queue, and the file is closed. Stopping again does nothing.
\<close>

theorem stop_flushes:
  assumes "al_running l"
  shows "\<exists>l'. al_stop alloc l = Some l' \<and>
    log_file l' = log_file l @ concat (buffers_to_write l) @ current_buffer l \<and>
    buffers_to_write l' = [] \<and> current_buffer l' = [] \<and> \<not> log_file_open l' \<and> al_stop alloc l' = Some l'"
proof -
  let ?l = "l\<lparr>al_running := False\<rparr>"
  obtain l1 where "writeLoop alloc ?l = Some l1" "\<not> writer_cond l1" "log_file l1 = log_file ?l @ buffered ?l"
    using writeLoop_returns [of ?l alloc] by auto
  moreover from this(2) have "buffers_to_write l1 = []" "current_buffer l1 = []" "\<not> al_running l1"
    by (simp_all add: writer_cond_def)
  ultimately show ?thesis
    using assms by (simp add: al_stop_def stop_drain_def buffered_def)
qed

theorem stop_flushes_witness:
  "\<exists>l l'. al_stop (\<lambda>n. n) (al_log (\<lambda>n. n) ''b'' (al_log (\<lambda>n. n) ''a'' l)) = Some l' \<and> al_running l \<and>
     log_file l' = ''a'' @ newline @ ''b'' @ newline"
proof -
  obtain l where l: "AsyncLogger_ctor (\<lambda>n. n) True [] 3 = Inr l" by (simp add: AsyncLogger_ctor_def)
  let ?l = "al_log (\<lambda>n. n) ''b'' (al_log (\<lambda>n. n) ''a'' l)"
  have r: "al_running l" "log_file l = []" "buffered l = []"
    using l by (auto simp: AsyncLogger_ctor_def buffered_def)
  then have "buffered ?l = ''a'' @ newline @ ''b'' @ newline" by simp
  moreover obtain l' where "al_stop (\<lambda>n. n) ?l = Some l'"
    "log_file l' = log_file ?l @ concat (buffers_to_write ?l) @ current_buffer ?l"
    using stop_flushes [of ?l "\<lambda>n. n"] r(1) by auto
  ultimately show ?thesis
    using r(1,2) unfolding buffered_def al_log_buffered by (intro exI [of _ l] exI [of _ l']) simp
qed

text \<open>
  A message can overtake an earlier one when it is logged after the writer has ended and
  before \<open>stop\<close> empties the buffers: if it does not fit, the earlier one is queued, and \<open>stop\<close>
  writes the current buffer before the queue.
\<close>

theorem late_message_overtakes:
  assumes "buffers_to_write l = []" "current_buffer l = []" "length m + 1 \<le> current_capacity l"
    and "current_capacity l < length m + length m' + 2"
  shows "log_file (stop_drain (al_log alloc m' (al_log alloc m l))) = log_file l @ (m' @ newline) @ m @ newline"
proof -
  have "current_capacity l - (length m + 1) < length m' + 1" using assms(3,4) by linarith
  with assms(1-3) show ?thesis
    by (simp add: al_log_def push_current_def stop_drain_file Let_def newline_def)
qed

theorem late_message_overtakes_witness:
  "\<exists>l. AsyncLogger_ctor (\<lambda>n. n) True [] 3 = Inr l \<and>
     log_file (stop_drain (al_log (\<lambda>n. n) ''b'' (al_log (\<lambda>n. n) ''a'' l))) = ''b'' @ newline @ ''a'' @ newline"
proof -
  obtain l where l: "AsyncLogger_ctor (\<lambda>n. n) True [] 3 = Inr l" by (simp add: AsyncLogger_ctor_def)
  then have "buffers_to_write l = []" "current_buffer l = []" "current_capacity l = 3" "log_file l = []"
    by (auto simp: AsyncLogger_ctor_def)
  with late_message_overtakes [of l "''a''" "''b''" "\<lambda>n. n"] l show ?thesis by auto
qed

end
