(* ===== verification/Logger.thy ===== *)
theory Logger
  imports AsyncLogger Timer "HOL-Library.Signed_Division"
begin

text \<open>
  The logger (\<^verbatim>\<open>src/Logger.h\<close>, \<^verbatim>\<open>Logger.cpp\<close>) with the macros the sources use, and the formatter of
  time stamps it calls (\<^verbatim>\<open>Timestamp.cpp\<close>). The one instance is a record; the standard output is
  the text written so far. \<^verbatim>\<open>localtime\<close> depends on the time zone and is a parameter.

  What is shown: a macro writes exactly one line, with time stamp and level, to the
  asynchronous log or to the standard output, exactly when its level reaches the least level
  that is logged; which, as the logger is made, is never.
\<close>

subsection \<open>Time stamps as text\<close>

record tm =
  tm_year :: nat
  tm_mon :: nat
  tm_mday :: nat
  tm_hour :: nat
  tm_min :: nat
  tm_sec :: nat

text \<open>The conversions \<^verbatim>\<open>%4d\<close> and \<^verbatim>\<open>%02d\<close>.\<close>

definition pad :: "char \<Rightarrow> nat \<Rightarrow> nat \<Rightarrow> string" where
  "pad c w n = replicate (w - length (dec n)) c @ dec n"

definition Timestamp_toString :: "(int \<Rightarrow> tm) \<Rightarrow> timestamp \<Rightarrow> string" where
  "Timestamp_toString localtime t =
     (let tm_time = localtime t
      in take 127
           (pad (CHR '' '') 4 (tm_year tm_time + 1900) @ ''/'' @ pad (CHR ''0'') 2 (tm_mon tm_time + 1) @ ''/'' @
            pad (CHR ''0'') 2 (tm_mday tm_time) @ '' '' @ pad (CHR ''0'') 2 (tm_hour tm_time) @ '':'' @
            pad (CHR ''0'') 2 (tm_min tm_time) @ '':'' @ pad (CHR ''0'') 2 (tm_sec tm_time)))"

text \<open>
  The other formatter, with and without microseconds, in UTC; \<open>gmtime\<close> stands for \<^verbatim>\<open>gmtime_r\<close>. Division
  truncates as in C++, and \<^verbatim>\<open>%06d\<close> of a negative number begins with the sign.
\<close>

definition pad_int :: "nat \<Rightarrow> int \<Rightarrow> string" where
  "pad_int w n = (if n \<ge> 0 then pad (CHR ''0'') w (nat n) else ''-'' @ pad (CHR ''0'') (w - 1) (nat (- n)))"

definition Timestamp_toFormattedString :: "(int \<Rightarrow> tm) \<Rightarrow> bool \<Rightarrow> timestamp \<Rightarrow> string" where
  "Timestamp_toFormattedString gmtime showMicroseconds t =
     (let seconds = t sdiv kMicroSecondsPerSecond;
          tm_time = gmtime seconds;
          shown = pad (CHR '' '') 4 (tm_year tm_time + 1900) @ pad (CHR ''0'') 2 (tm_mon tm_time + 1) @
                  pad (CHR ''0'') 2 (tm_mday tm_time) @ '' '' @ pad (CHR ''0'') 2 (tm_hour tm_time) @ '':'' @
                  pad (CHR ''0'') 2 (tm_min tm_time) @ '':'' @ pad (CHR ''0'') 2 (tm_sec tm_time)
      in if showMicroseconds then
           let microseconds = t smod kMicroSecondsPerSecond
           in take 63 (shown @ ''.'' @ pad_int 6 microseconds)
         else take 63 shown)"

text \<open>Broken-down time with four digits of the year.\<close>

definition tm_ok :: "tm \<Rightarrow> bool" where
  "tm_ok x \<longleftrightarrow> tm_year x + 1900 < 10000 \<and> tm_mon x < 12 \<and> tm_mday x < 32 \<and> tm_hour x < 24 \<and> tm_min x < 60 \<and> tm_sec x < 61"

lemma length_pad: "n < 10 ^ w \<Longrightarrow> 0 < w \<Longrightarrow> length (pad c w n) = w"
  using length_dec_le [of n w] by (simp add: pad_def)

lemma digits_val_zeros: "digits_val a (replicate k (CHR ''0'') @ s) = digits_val (a * 10 ^ k) s"
proof (induction k arbitrary: a)
  case (Suc k)
  have "digits_val a (CHR ''0'' # u) = digits_val (a * 10) u" for u
    by (simp add: digits_val_def isdigit_def digit_val_def mult.commute)
  with Suc show ?case by (simp add: mult.assoc)
qed simp

lemma digits_val_pad: "digits_val 0 (pad (CHR ''0'') w n) = n"
  by (simp add: pad_def digits_val_zeros digits_val_dec)

text \<open>
  The formatted text is not cut by its array, the text without microseconds is a prefix of it,
  and its last six digits are the microseconds within the second.
\<close>

theorem toFormattedString_exact:
  assumes "0 \<le> t" "tm_ok (gmtime (t div 1000000))"
  shows "length (Timestamp_toFormattedString gmtime False t) = 17 \<and>
    (\<exists>d. Timestamp_toFormattedString gmtime True t = Timestamp_toFormattedString gmtime False t @ ''.'' @ d \<and>
       length d = 6 \<and> int (digits_val 0 d) = t mod 1000000)"
proof -
  let ?d = "pad (CHR ''0'') 6 (nat (t mod 1000000))"
  have q: "t sdiv kMicroSecondsPerSecond = t div 1000000" "t smod kMicroSecondsPerSecond = t mod 1000000"
    using assms(1) by (simp_all add: signed_divide_int_def signed_modulo_int_def kMicroSecondsPerSecond_def sgn_if
        minus_div_mult_eq_mod zero_less_iff_neq_zero)
  have "length ?d = 6" "int (digits_val 0 ?d) = t mod 1000000"
    by (simp_all add: length_pad digits_val_pad nat_less_iff)
  with assms(2) show ?thesis
    by (intro conjI exI [of _ ?d])
       (simp_all add: Timestamp_toFormattedString_def Let_def q pad_int_def length_pad tm_ok_def)
qed

subsection \<open>The logger\<close>

datatype log_level = DEBUG | INFO | WARN | ERROR | FATAL | UNKNOWN

fun level_num :: "log_level \<Rightarrow> int" where
  "level_num DEBUG = 0"
| "level_num INFO = 1"
| "level_num WARN = 2"
| "level_num ERROR = 3"
| "level_num FATAL = 4"
| "level_num UNKNOWN = 5"

record logger =
  enableAsync :: bool
  logLevel :: int
  minLogLevel :: int
  logFilename :: string
  asyncLogger :: "async_logger option"
  stdout :: string

text \<open>The instance; \<open>logLevel_\<close> is not initialised.\<close>

definition Logger_ctor :: "int \<Rightarrow> logger" where
  "Logger_ctor garbage =
     \<lparr>enableAsync = False, logLevel = garbage, minLogLevel = level_num UNKNOWN, logFilename = [],
      asyncLogger = None, stdout = []\<rparr>"

definition setLogLevel :: "int \<Rightarrow> logger \<Rightarrow> logger" where
  "setLogLevel level L = L\<lparr>logLevel := level\<rparr>"

definition setMinLogLevel :: "int \<Rightarrow> logger \<Rightarrow> logger" where
  "setMinLogLevel level L = L\<lparr>minLogLevel := level\<rparr>"

definition setEnableAsync :: "bool \<Rightarrow> logger \<Rightarrow> logger" where
  "setEnableAsync enable L = L\<lparr>enableAsync := enable\<rparr>"

definition setLogFilename :: "string \<Rightarrow> logger \<Rightarrow> logger" where
  "setLogFilename filename L = L\<lparr>logFilename := filename\<rparr>"

definition default_buffer_size :: nat where
  "default_buffer_size = 2 * 1024 * 1024"

text \<open>
  \<open>opened\<close> and \<open>old\<close> tell whether the file could be opened and what it held. An asynchronous
  logger that is replaced is destroyed, which stops it.
\<close>

definition startAsyncLogging ::
  "(nat \<Rightarrow> nat) \<Rightarrow> bool \<Rightarrow> string \<Rightarrow> logger \<Rightarrow> logger res" where
  "startAsyncLogging alloc opened old L =
     (if enableAsync L then
        rbind (AsyncLogger_ctor alloc opened old default_buffer_size) (\<lambda>a.
          case map_option (al_stop alloc) (asyncLogger L) of
            Some None \<Rightarrow> Inl Hang
          | _ \<Rightarrow> Inr (L\<lparr>asyncLogger := Some a\<rparr>))
      else Inr L)"

definition stopAsyncLogging :: "(nat \<Rightarrow> nat) \<Rightarrow> logger \<Rightarrow> logger res" where
  "stopAsyncLogging alloc L =
     (if enableAsync L then
        (case asyncLogger L of
           None \<Rightarrow> Inl NullDeref
         | Some a \<Rightarrow>
             (case al_stop alloc a of
                None \<Rightarrow> Inl Hang
              | Some a' \<Rightarrow> Inr (L\<lparr>asyncLogger := Some a', enableAsync := False\<rparr>)))
      else Inr L)"

definition level_tag :: "int \<Rightarrow> string option" where
  "level_tag level =
     (if level = level_num INFO then Some '' [INFO]: ''
      else if level = level_num ERROR then Some '' [ERROR]: ''
      else if level = level_num FATAL then Some '' [FATAL]: ''
      else if level = level_num DEBUG then Some '' [DEBUG]: ''
      else if level = level_num WARN then Some '' [WARN]: ''
      else None)"

definition Logger_log :: "(nat \<Rightarrow> nat) \<Rightarrow> string \<Rightarrow> string \<Rightarrow> logger \<Rightarrow> logger res" where
  "Logger_log alloc stamp msg L =
     (let msg1 = (case level_tag (logLevel L) of
                    None \<Rightarrow> msg
                  | Some tag \<Rightarrow> if minLogLevel L \<le> logLevel L then stamp @ tag @ msg else msg)
      in if minLogLevel L \<le> logLevel L then
           if enableAsync L then
             (case asyncLogger L of
                None \<Rightarrow> Inl NullDeref
              | Some a \<Rightarrow> Inr (L\<lparr>asyncLogger := Some (al_log alloc msg1 a)\<rparr>))
           else Inr (L\<lparr>stdout := stdout L @ msg1 @ newline\<rparr>)
         else Inr L)"

text \<open>
  The macros \<^verbatim>\<open>LOG_DEBUG\<close> to \<^verbatim>\<open>LOG_FATAL\<close>, given the formatted text: 1023 characters of it are
  kept, up to the first NUL. \<^verbatim>\<open>LOG_FATAL\<close> ends the process.
\<close>

definition log_macro ::
  "(nat \<Rightarrow> nat) \<Rightarrow> (int \<Rightarrow> tm) \<Rightarrow> int \<Rightarrow> log_level \<Rightarrow> string \<Rightarrow> logger \<Rightarrow> logger res" where
  "log_macro alloc localtime now level txt L =
     (let buf = takeWhile (\<lambda>c. c \<noteq> CHR 0x00) (take 1023 txt)
      in rbind (Logger_log alloc (Timestamp_toString localtime (Timestamp_now now)) buf
                  (setLogLevel (level_num level) L)) (\<lambda>L1.
           if level = FATAL then Inl ExitProcess else Inr L1))"

text \<open>What a line of the log looks like.\<close>

fun level_name :: "log_level \<Rightarrow> string" where
  "level_name DEBUG = ''DEBUG''"
| "level_name INFO = ''INFO''"
| "level_name WARN = ''WARN''"
| "level_name ERROR = ''ERROR''"
| "level_name FATAL = ''FATAL''"
| "level_name UNKNOWN = ''UNKNOWN''"

definition log_line :: "(int \<Rightarrow> tm) \<Rightarrow> int \<Rightarrow> log_level \<Rightarrow> string \<Rightarrow> string" where
  "log_line localtime now level txt =
     Timestamp_toString localtime now @ '' ['' @ level_name level @ '']: '' @ takeWhile (\<lambda>c. c \<noteq> CHR 0x00) (take 1023 txt)"

lemma level_tag_name: "level \<noteq> UNKNOWN \<Longrightarrow> level_tag (level_num level) = Some ('' ['' @ level_name level @ '']: '')"
  by (cases level) (simp_all add: level_tag_def)

lemma log_macro_eq:
  assumes "level \<noteq> FATAL" "level \<noteq> UNKNOWN"
  shows "log_macro alloc localtime now level txt L =
    (if minLogLevel L \<le> level_num level then
       if enableAsync L then
         (case asyncLogger L of
            None \<Rightarrow> Inl NullDeref
          | Some a \<Rightarrow> Inr (L\<lparr>logLevel := level_num level,
              asyncLogger := Some (al_log alloc (log_line localtime now level txt) a)\<rparr>))
       else Inr (L\<lparr>logLevel := level_num level, stdout := stdout L @ log_line localtime now level txt @ newline\<rparr>)
     else Inr (L\<lparr>logLevel := level_num level\<rparr>))"
proof -
  let ?L = "setLogLevel (level_num level) L"
  have L: "level_tag (logLevel ?L) = Some ('' ['' @ level_name level @ '']: '')" "minLogLevel ?L = minLogLevel L"
    "logLevel ?L = level_num level" "enableAsync ?L = enableAsync L" "asyncLogger ?L = asyncLogger L" "stdout ?L = stdout L"
    using level_tag_name [OF assms(2)] by (simp_all add: setLogLevel_def)
  show ?thesis
    unfolding log_macro_def Logger_log_def Let_def L log_line_def Timestamp_now_def
    using assms by (cases "asyncLogger L") (simp_all add: setLogLevel_def level_tag_name)
qed

text \<open>
  A logging macro below \<^verbatim>\<open>LOG_FATAL\<close> writes nothing when its level is below the least level
  that is logged, as it is for every level on a logger as it is made; otherwise it writes
  exactly one line with the time stamp, its level and the text, to the buffers of the
  asynchronous log if that is enabled, else to the standard output. With the asynchronous log
  enabled and not started it dereferences a null pointer.
\<close>

theorem log_macro_writes:
  assumes "level \<notin> {FATAL, UNKNOWN}"
  shows "(level_num level < minLogLevel L \<longrightarrow>
      log_macro alloc localtime now level txt L = Inr (L\<lparr>logLevel := level_num level\<rparr>)) \<and>
    (minLogLevel L \<le> level_num level \<and> \<not> enableAsync L \<longrightarrow>
      log_macro alloc localtime now level txt L =
        Inr (L\<lparr>logLevel := level_num level, stdout := stdout L @ log_line localtime now level txt @ newline\<rparr>)) \<and>
    (minLogLevel L \<le> level_num level \<and> enableAsync L \<and> asyncLogger L = None \<longrightarrow>
      log_macro alloc localtime now level txt L = Inl NullDeref) \<and>
    (\<forall>a. minLogLevel L \<le> level_num level \<and> enableAsync L \<and> asyncLogger L = Some a \<longrightarrow>
      (\<exists>a'. log_macro alloc localtime now level txt L =
          Inr (L\<lparr>logLevel := level_num level, asyncLogger := Some a'\<rparr>) \<and>
        buffered a' = buffered a @ log_line localtime now level txt @ newline)) \<and>
    log_macro alloc localtime now level txt (Logger_ctor g) = Inr ((Logger_ctor g)\<lparr>logLevel := level_num level\<rparr>)"
proof -
  have l: "level \<noteq> UNKNOWN" "level \<noteq> FATAL" "level_num level < level_num UNKNOWN"
    using assms by (cases level; simp)+
  have g: "minLogLevel (Logger_ctor g) = level_num UNKNOWN" by (simp add: Logger_ctor_def)
  show ?thesis
    unfolding log_macro_eq [OF l(2,1)] g using l(3) by auto
qed

definition demo_tm :: "int \<Rightarrow> tm" where
  "demo_tm t = \<lparr>tm_year = 125, tm_mon = 0, tm_mday = 2, tm_hour = 3, tm_min = 4, tm_sec = 5\<rparr>"

lemma demo_line: "log_line demo_tm 9 ERROR ''hello'' = ''2025/01/02 03:04:05 [ERROR]: hello''"
  by code_simp

theorem toFormattedString_exact_witness:
  "\<exists>d. Timestamp_toFormattedString demo_tm True 5000042 = Timestamp_toFormattedString demo_tm False 5000042 @ ''.'' @ d \<and>
     int (digits_val 0 d) = 42"
proof -
  have "tm_ok (demo_tm (5000042 div 1000000))" by (simp add: tm_ok_def demo_tm_def)
  from toFormattedString_exact [where t = 5000042 and gmtime = demo_tm, OF _ this] show ?thesis by auto
qed

theorem log_macro_writes_witness:
  "log_macro (\<lambda>n. n) demo_tm 9 ERROR ''hello'' (setMinLogLevel 0 (Logger_ctor 0)) =
   Inr ((setMinLogLevel 0 (Logger_ctor 0))\<lparr>logLevel := 3, stdout := ''2025/01/02 03:04:05 [ERROR]: hello'' @ newline\<rparr>)"
proof -
  let ?L = "setMinLogLevel 0 (Logger_ctor 0)"
  have "ERROR \<notin> {FATAL, UNKNOWN}" by simp
  note t = log_macro_writes [OF this, of ?L "\<lambda>n. n" demo_tm 9 "''hello''" 0]
  have "minLogLevel ?L \<le> level_num ERROR" "\<not> enableAsync ?L" "stdout ?L = []"
    by (simp_all add: setMinLogLevel_def Logger_ctor_def)
  with t have "log_macro (\<lambda>n. n) demo_tm 9 ERROR ''hello'' ?L =
      Inr (?L\<lparr>logLevel := level_num ERROR, stdout := stdout ?L @ log_line demo_tm 9 ERROR ''hello'' @ newline\<rparr>)"
    by blast
  with \<open>stdout ?L = []\<close> show ?thesis by (simp add: demo_line)
qed

end
