(* ===== verification/EchoServer.thy ===== *)
theory EchoServer
  imports HttpServer TcpServer Logger
begin

text \<open>
  The example server (\<^verbatim>\<open>example/testserver.cpp\<close>): a TCP server whose message callback sends back what
  has arrived. It is put together from the parts of the library as its source does it: the
  constructor makes the TCP server and sets its callbacks, \<open>main\<close> makes loop, address and
  server and starts it.

  What is shown: in every run of a connection of this server, as long as the peer has not
  reset it, the bytes handed to the socket followed by those in the output buffer are exactly
  the bytes received, and the input buffer is empty between events; and \<open>main\<close> leaves a server
  that listens and gives all connections to one other loop, and that logs nothing.
\<close>

subsection \<open>The callbacks\<close>

text \<open>The text logged when a connection comes up or goes down.\<close>

definition echo_conn_text :: "('f, 'c) tcp_connection \<Rightarrow> string res" where
  "echo_conn_text cn =
     rbind (toIpPort (peerAddr cn)) (\<lambda>ipPort.
       Inr ((if connected cn then ''conn UP : '' else ''conn DOWN : '') @ ipPort))"

definition echo_onConnection :: "('f, 'c, 'z) conn_st \<Rightarrow> ('f, 'c, 'z) conn_st res" where
  "echo_onConnection st = (case st of (cn, s) \<Rightarrow> rbind (echo_conn_text cn) (\<lambda>_. Inr (cn, s)))"

text \<open>\<open>addr\<close> is the address of the local string \<open>msg\<close>.\<close>

definition echo_onMessage ::
  "kernel \<Rightarrow> int \<Rightarrow> (nat \<Rightarrow> nat \<Rightarrow> 'f) \<Rightarrow> nat \<Rightarrow> timestamp \<Rightarrow>
   ('f, 'c, 'z) conn_st \<Rightarrow> ('f, 'c, 'z) conn_st res" where
  "echo_onMessage K tid bnd addr t st =
     (case st of (cn, s) \<Rightarrow>
        rbind (retrieveAllAsString (inputBuffer cn)) (\<lambda>(msg, buf).
          send K tid bnd addr msg (cn\<lparr>inputBuffer := buf\<rparr>, s)))"

lemma echo_onConnection_returns: "echo_onConnection st = Inr st"
  by (cases st) (simp add: echo_onConnection_def echo_conn_text_def toIpPort_fits)

subsection \<open>The server\<close>

definition EchoServer_ctor ::
  "nat option \<Rightarrow> (nat \<Rightarrow> srv_task event_loop option) \<Rightarrow> sockaddr_in \<Rightarrow> string \<Rightarrow> int \<Rightarrow> bool \<Rightarrow> nat \<Rightarrow>
   srv_task \<Rightarrow> 'c tcp_server res" where
  "EchoServer_ctor loop_ptr ls addr name sockfd bind_ok c rd =
     rbind (TcpServer_ctor loop_ptr ls addr name False sockfd bind_ok c rd) (\<lambda>server.
       Inr (srv_setThreadNum 1 server))"

text \<open>
  The callbacks the constructor sets, with the close callback the TCP server adds,
  \<open>removeConnection\<close>: what it does to the connection's own loop is to queue a functor there, the
  destruction, if that is the base loop, and nothing if the removal is queued on another loop.
\<close>

definition echo_callbacks ::
  "kernel \<Rightarrow> int \<Rightarrow> (nat \<Rightarrow> nat \<Rightarrow> 'f) \<Rightarrow> nat \<Rightarrow> 'f option \<Rightarrow> ('f, 'c, 'z) conn_st conn_callbacks" where
  "echo_callbacks K tid bnd addr queued =
     setCloseCallback (Some (\<lambda>(cn, s). Inr (cn, queue_opt tid queued s)))
       (srv_setMessageCallback (Some (echo_onMessage K tid bnd addr))
         (srv_setConnectionCallback (Some echo_onConnection) no_callbacks))"

definition EchoServer_start ::
  "kernel \<Rightarrow> int \<Rightarrow> bool \<Rightarrow> (nat \<Rightarrow> nat) \<Rightarrow> (nat \<Rightarrow> srv_task event_loop) \<Rightarrow>
   'c tcp_server \<Rightarrow> 'c tcp_server res" where
  "EchoServer_start K tid listen_ok new_at fresh server = srv_start K tid listen_ok new_at fresh False server"

text \<open>
  \<open>main\<close> up to its call of \<open>loop()\<close>. The loop gets the number 0; the results of the system
  calls, the thread's id and the functors bound are arguments.
\<close>

definition echo_main ::
  "kernel \<Rightarrow> int \<Rightarrow> int \<Rightarrow> int \<Rightarrow> int \<Rightarrow> int \<Rightarrow> (string \<Rightarrow> 32 word) \<Rightarrow> bool \<Rightarrow> bool \<Rightarrow> (nat \<Rightarrow> nat) \<Rightarrow>
   (nat \<Rightarrow> srv_task event_loop) \<Rightarrow> srv_task \<Rightarrow> srv_task \<Rightarrow> (logger \<times> 'c tcp_server) res" where
  "echo_main K garbage epollfd evtfd tid sockfd inet_addr bind_ok listen_ok new_at fresh wake rd =
     (let L = setLogLevel 0 (Logger_ctor garbage)
      in rbind (EventLoop_ctor K False epollfd evtfd False tid 0 wake) (\<lambda>loop.
         let addr = InetAddress_ctor inet_addr 9999 ''127.0.0.1''
         in rbind (EchoServer_ctor (Some 0) [0 \<mapsto> loop] addr ''EchoServer-01'' sockfd bind_ok 1 rd) (\<lambda>server.
            rbind (EchoServer_start K tid listen_ok new_at fresh server) (\<lambda>server1.
              Inr (L, server1)))))"

subsection \<open>A connection of the server\<close>

text \<open>
  The history fields of the loop's state (theory \<open>TcpConnection\<close>) are kept up after each message:
  all that has been received is consumed, and accepted for sending.
\<close>

definition note_history :: "('f, 'c, 'z) client_st \<Rightarrow> ('f, 'c, 'z) client_st" where
  "note_history st =
     (case st of (cn, s) \<Rightarrow>
        let got = received (conn_fd cn) (life s)
        in (cn, s\<lparr>accepted_bytes := got, consumed_bytes := got\<rparr>))"

definition echo_noted ::
  "kernel \<Rightarrow> int \<Rightarrow> (nat \<Rightarrow> nat \<Rightarrow> 'f) \<Rightarrow> nat \<Rightarrow> 'f option \<Rightarrow> ('f, 'c, 'z) client_st conn_callbacks" where
  "echo_noted K tid bnd addr queued =
     (echo_callbacks K tid bnd addr queued)
       \<lparr>messageCallback := Some (\<lambda>t st. rbind (echo_onMessage K tid bnd addr t st) (\<lambda>st'. Inr (note_history st')))\<rparr>"

text \<open>
  What happens to a connection of the echo server: construction, establishment, events, the
  destruction, and what the rest of the program does on its loop. It is readable only while it
  is connected: it is watched from its establishment to its close, and nobody shuts it down.
\<close>

inductive echo_run ::
  "kernel \<Rightarrow> int \<Rightarrow> ('f, 'c, 'z) client_st conn_callbacks \<Rightarrow> ('f, 'c, 'z) client_st \<Rightarrow> bool"
  for K tid CB where
  made: "poller_inv s \<Longrightarrow> heap s c = None \<Longrightarrow> channels s sockfd = None \<Longrightarrow> threadId s = tid \<Longrightarrow>
    TcpConnection_ctor (Some s) nm sockfd la pa c rd wr cl er ctx = Inr (cn, s') \<Longrightarrow>
    echo_run K tid CB (cn, s'\<lparr>accepted_bytes := [], consumed_bytes := [], born := length (trace s')\<rparr>)"
| established: "echo_run K tid CB (cn, s) \<Longrightarrow> conn_state cn = kConnecting \<Longrightarrow>
    connectEstablished K CB (cn, s) = Inr st' \<Longrightarrow> echo_run K tid CB st'"
| read: "echo_run K tid CB (cn, s) \<Longrightarrow> conn_state cn = kConnected \<Longrightarrow>
    handleRead K CB t (cn, s) = Inr st' \<Longrightarrow> echo_run K tid CB st'"
| written: "echo_run K tid CB st \<Longrightarrow> handleWrite K tid st = Inr st' \<Longrightarrow> echo_run K tid CB st'"
| close: "echo_run K tid CB st \<Longrightarrow> handleClose K CB st = Inr st' \<Longrightarrow> echo_run K tid CB st'"
| error: "echo_run K tid CB st \<Longrightarrow> handleError st = Inr st' \<Longrightarrow> echo_run K tid CB st'"
| destroyed: "echo_run K tid CB st \<Longrightarrow> connectDestroyed K CB st = Inr st' \<Longrightarrow> echo_run K tid CB st'"
| others: "echo_run K tid CB (cn, s) \<Longrightarrow> quiet_step cn s s' \<Longrightarrow> threadId s' = tid \<Longrightarrow> echo_run K tid CB (cn, s')"

subsection \<open>What is kept between messages\<close>

text \<open>The part of the state that an event leaves alone when it brings no message.\<close>

definition same_history :: "('f, 'c, 'z) client_st \<Rightarrow> ('f, 'c, 'z) client_st \<Rightarrow> bool" where
  "same_history st st' \<longleftrightarrow>
     inputBuffer (fst st') = inputBuffer (fst st) \<and> accepted_bytes (snd st') = accepted_bytes (snd st) \<and>
     consumed_bytes (snd st') = consumed_bytes (snd st) \<and> threadId (snd st') = threadId (snd st)"

lemma same_history_trans: "same_history a b \<Longrightarrow> same_history b c \<Longrightarrow> same_history a c"
  by (simp add: same_history_def)

lemma Channel_set_history:
  assumes "Channel_set g K c s = Inr s'" "inputBuffer cn' = inputBuffer cn"
  shows "same_history (cn, s) (cn', s')"
  using assms(2) more_ghost [OF Channel_set_more [OF assms(1)]] by (simp add: same_history_def)

lemma Channel_remove_history:
  assumes "Channel_remove K c s = Inr s'"
  shows "same_history (cn, s) (cn, s')"
  using more_ghost [OF Channel_remove_more [OF assms]] by (simp add: same_history_def)

lemma log_queue_history [simp]:
  "same_history (cn, s) (cn', log_sys e t) = same_history (cn, s) (cn', t)"
  "same_history (cn, s) (cn', queue_opt tid f t) = same_history (cn, s) (cn', t)"
  by (simp_all add: same_history_def log_sys_def)

lemma shutdownInLoop_history: "shutdownInLoop (cn, s) = Inr (cn', s') \<Longrightarrow> same_history (cn, s) (cn', s')"
  by (auto simp: shutdownInLoop_def with_channel_def same_history_def log_sys_def split: option.splits if_splits)

lemma handleWrite_history:
  assumes "handleWrite K tid (cn, s) = Inr (cn', s')"
  shows "same_history (cn, s) (cn', s')"
proof -
  let ?out = "outputBuffer cn"
  obtain ch where ch: "heap s (conn_channel cn) = Some ch"
    using assms by (auto simp: handleWrite_def with_channel_def split: option.splits)
  obtain n e where n: "writeFd (k_write K (trace s) (ch_fd ch)) ?out = (n, e)" by fastforce
  define s1 where "s1 = log_sys (SockWrite (ch_fd ch) (mem ?out (peek ?out) (peek ?out + readableBytes ?out))
      (k_write K (trace s) (ch_fd ch) (mem ?out (peek ?out) (peek ?out + readableBytes ?out)))) s"
  define cn1 where "cn1 = cn\<lparr>outputBuffer := retrieve ?out (nat n)\<rparr>"
  have r: "same_history (cn, s) (cn, s)" "same_history (cn, s) (cn, s1)" "same_history (cn, s) (cn1, s1)"
    by (simp_all add: same_history_def s1_def cn1_def log_sys_def)
  show ?thesis
  proof (cases "isWriting ch \<and> n > 0 \<and> readableBytes (outputBuffer cn1) = 0")
    case True
    then obtain s2 where s2: "disableWriting K (conn_channel cn) s1 = Inr s2"
      "(if conn_state cn = kDisconnecting then shutdownInLoop (cn1, queue_opt tid (writeCompleteCallback cn) s2)
        else Inr (cn1, queue_opt tid (writeCompleteCallback cn) s2)) = Inr (cn', s')"
      using assms ch n by (auto simp: handleWrite_def with_channel_def Let_def rbind_eq_Inr s1_def [symmetric] cn1_def [symmetric])
    have "same_history (cn1, s1) (cn1, queue_opt tid (writeCompleteCallback cn) s2)"
      using Channel_set_history [OF s2(1) [unfolded disableWriting_def] refl] by simp
    moreover from s2(2) have "same_history (cn1, queue_opt tid (writeCompleteCallback cn) s2) (cn', s')"
      by (auto split: if_splits dest: shutdownInLoop_history simp: same_history_def)
    ultimately show ?thesis using same_history_trans r(3) by blast
  next
    case False
    with assms ch n r show ?thesis
      by (auto simp: handleWrite_def with_channel_def Let_def s1_def [symmetric] cn1_def [symmetric] split: if_splits)
  qed
qed

lemma echo_noted_sel [simp]:
  "call_cb (connectionCallback (echo_noted K tid bnd addr q)) st = Inr st"
  "call_cb (closeCallback (echo_noted K tid bnd addr q)) (cn, s) = Inr (cn, queue_opt tid q s)"
  "messageCallback (echo_noted K tid bnd addr q) =
     Some (\<lambda>t st. rbind (echo_onMessage K tid bnd addr t st) (\<lambda>st'. Inr (note_history st')))"
  by (simp_all add: echo_noted_def echo_callbacks_def call_cb_def echo_onConnection_returns)

lemma echo_close_history:
  assumes "handleClose K (echo_noted K tid bnd addr q) (cn, s) = Inr (cn', s')"
  shows "same_history (cn, s) (cn', s')"
proof -
  obtain s1 where s1: "disableAll K (conn_channel cn) s = Inr s1" "cn' = setState kDisconnected cn" "s' = queue_opt tid q s1"
    using assms by (auto simp: handleClose_def rbind_eq_Inr)
  with Channel_set_history [OF s1(1) [unfolded disableAll_def], of cn' cn] show ?thesis by (simp add: setState_def)
qed

lemma echo_established_history:
  assumes "connectEstablished K (echo_noted K tid bnd addr q) (cn, s) = Inr (cn', s')"
  shows "same_history (cn, s) (cn', s')"
proof -
  obtain ch where "enableReading K (conn_channel cn) (s\<lparr>heap := (heap s)(conn_channel cn \<mapsto> tie ch)\<rparr>) = Inr s'"
    "cn' = setState kConnected cn"
    using assms by (auto simp: connectEstablished_def with_channel_def Let_def rbind_eq_Inr split: option.splits)
  with Channel_set_history [of add_reading K _ _ s' cn' cn] show ?thesis
    by (fastforce simp: enableReading_def setState_def same_history_def)
qed

lemma echo_destroyed_history:
  assumes "connectDestroyed K (echo_noted K tid bnd addr q) (cn, s) = Inr (cn', s')"
  shows "same_history (cn, s) (cn', s')"
proof (cases "conn_state cn = kConnected")
  case True
  then obtain s1 where s1: "disableAll K (conn_channel cn) s = Inr s1" "cn' = setState kDisconnected cn"
    "Channel_remove K (conn_channel cn') s1 = Inr s'"
    using assms by (auto simp: connectDestroyed_def rbind_eq_Inr)
  have "same_history (cn, s) (cn', s1)"
    by (rule Channel_set_history [OF s1(1) [unfolded disableAll_def]]) (simp add: s1(2) setState_def)
  from this Channel_remove_history [OF s1(3)] show ?thesis by (rule same_history_trans)
next
  case False
  then have "Channel_remove K (conn_channel cn) s = Inr s'" "cn' = cn"
    using assms by (auto simp: connectDestroyed_def rbind_eq_Inr)
  with Channel_remove_history show ?thesis by blast
qed

lemma echo_error_history: "handleError (cn, s) = Inr (cn', s') \<Longrightarrow> same_history (cn, s) (cn', s')"
  by (auto simp: handleError_def with_channel_def same_history_def log_sys_def split: option.splits)

lemmas echo_history =
  handleWrite_history echo_close_history echo_established_history echo_destroyed_history echo_error_history

subsection \<open>A message is sent back\<close>

definition echo_inv :: "int \<Rightarrow> ('f, 'c, 'z) client_st \<Rightarrow> bool" where
  "echo_inv tid st \<longleftrightarrow>
     stream_inv st \<and> readable (inputBuffer (fst st)) = [] \<and> accepted_bytes (snd st) = consumed_bytes (snd st) \<and>
     threadId (snd st) = tid"

lemma echo_inv_history: "echo_inv tid st \<Longrightarrow> same_history st st' \<Longrightarrow> stream_inv st' \<Longrightarrow> echo_inv tid st'"
  by (simp add: echo_inv_def same_history_def)

lemma more_ghost_loop:
  assumes "event_loop.more (s' :: ('f, 'z) client_loop_scheme) = event_loop.more s"
  shows "consumed_bytes s' = consumed_bytes s"
  using assms by (cases s; cases s'; simp)

lemma echo_message_inv:
  assumes K: "ctl_sound K" "write_sound K" "never_reset K" and inv: "stream_inv (cn, s)"
    and e: "accepted_bytes s = consumed_bytes s" "threadId s = tid" and st: "conn_state cn = kConnected"
  shows "\<exists>st'. rbind (echo_onMessage K tid bnd addr t (cn, s)) (\<lambda>st'. Inr (note_history st')) = Inr st' \<and> echo_inv tid st' \<and>
    consumed_bytes (snd st') = consumed_bytes s @ readable (inputBuffer cn) \<and> conn_fd (fst st') = conn_fd cn \<and>
    ((\<forall>tr d. k_write K tr (conn_fd cn) d = WriteDone (length d)) \<and> readable (outputBuffer cn) = [] \<longrightarrow>
       readable (outputBuffer (fst st')) = [])"
proof -
  let ?msg = "readable (inputBuffer cn)" and ?b = "retrieveAll (inputBuffer cn)"
  have b: "conn_inv (cn, s)" "buffer_inv (inputBuffer cn)" "received (conn_fd cn) (life s) = consumed_bytes s @ ?msg"
    using inv by (simp_all add: stream_inv_def conn_inv_def io_inv_def)
  from sendInLoop_inv [OF K(1,2) inv st, of tid ?msg] never_reset_takes [OF K(3) b(1) st]
  obtain out s1 where s1: "sendInLoop K tid ?msg (cn, s) = Inr (cn\<lparr>outputBuffer := out\<rparr>, s1)"
    "stream_inv (cn\<lparr>outputBuffer := out\<rparr>, s1\<lparr>accepted_bytes := accepted_bytes s @ ?msg\<rparr>)" "threadId s1 = threadId s"
    by auto
  have r: "retrieve (inputBuffer cn) (readableBytes (inputBuffer cn)) = ?b"
    by (simp add: retrieve_def)
  let ?cn = "cn\<lparr>outputBuffer := out, inputBuffer := ?b\<rparr>"
  have "echo_onMessage K tid bnd addr t (cn, s) = Inr (?cn, s1)"
    using s1(1) st e(2) b(2)
    by (simp add: echo_onMessage_def retrieveAllAsString_ok send_def isInLoopThread_def sendInLoop_frame)
  moreover have s2: "stream_inv (?cn, s1\<lparr>accepted_bytes := accepted_bytes s @ ?msg,
      consumed_bytes := consumed_bytes s1 @ take (readableBytes (inputBuffer cn)) ?msg\<rparr>)"
    using retrieve_inv [OF s1(2), of "readableBytes (inputBuffer cn)"] r by simp
  moreover have "received (conn_fd cn) (life s1) = accepted_bytes s @ ?msg \<and> consumed_bytes s1 = consumed_bytes s"
    using s1(2) e(1) more_ghost_loop [OF sendInLoop_more [OF s1(1)]] by (auto simp: stream_inv_def io_inv_def life_def)
  ultimately show ?thesis
    using e s1(3) b(2) sendInLoop_all [OF b(1) st _ _ s1(1)]
    by (auto simp: note_history_def echo_inv_def Let_def simp flip: length_readable)
qed

text \<open>The lemmas on the other handlers ask nothing of the message callback they do not call.\<close>

definition echo_silent :: "int \<Rightarrow> 'f option \<Rightarrow> ('f, 'c, 'z) client_st conn_callbacks" where
  "echo_silent tid q =
     \<lparr>connectionCallback = Some echo_onConnection, messageCallback = Some (\<lambda>t. Inr),
      closeCallback = Some (\<lambda>(cn, s). Inr (cn, queue_opt tid q s))\<rparr>"

lemma echo_silent_ok: "TcpConnection.callbacks_ok (echo_silent tid q)"
proof -
  have "stream_inv (cn, queue_opt tid q s)" if "stream_inv (cn, s)" for cn :: "('a, 'b) tcp_connection" and s :: "('a, 'c) client_loop_scheme"
    using that by (intro quiet_step_inv [OF that] queue_opt_quiet) (simp_all add: stream_inv_def conn_inv_def)
  then show ?thesis by (simp add: TcpConnection.callbacks_ok_def cb_ok_def echo_silent_def echo_onConnection_returns)
qed

lemma echo_silent_eq:
  "handleClose K (echo_noted K tid bnd addr q) = handleClose K (echo_silent tid q)"
  "connectEstablished K (echo_noted K tid bnd addr q) = connectEstablished K (echo_silent tid q)"
  "connectDestroyed K (echo_noted K tid bnd addr q) = connectDestroyed K (echo_silent tid q)"
  by (simp_all add: fun_eq_iff handleClose_def connectEstablished_def connectDestroyed_def echo_noted_def
      echo_callbacks_def echo_silent_def)

lemma echo_close_inv:
  assumes "ctl_sound K" "stream_inv st" "handleClose K (echo_noted K tid bnd addr q) st = Inr st'"
  shows "stream_inv st'"
proof -
  obtain cn s where "st = (cn, s)" by (cases st)
  with assms handleClose_inv [OF assms(1) echo_silent_ok, of cn s tid q] show ?thesis by (auto simp: echo_silent_eq)
qed

lemma echo_read_inv:
  assumes K: "ctl_sound K" "write_sound K" "read_sound K" "never_reset K" and inv: "echo_inv tid (cn, s)"
    and st: "conn_state cn = kConnected"
    and read: "handleRead K (echo_noted K tid bnd addr q) t (cn, s) = Inr st'"
  shows "echo_inv tid st'"
proof -
  have i: "stream_inv (cn, s)" "accepted_bytes s = consumed_bytes s" "threadId s = tid" "readable (inputBuffer cn) = []"
    using inv by (simp_all add: echo_inv_def)
  show ?thesis
  proof (cases rule: handleRead_cases [OF K(3) i(1), of t, case_names message eof err])
    case (message got b s1)
    have "accepted_bytes s1 = consumed_bytes s1" "threadId s1 = tid" using message(5) i by (simp_all add: later_def)
    with echo_message_inv [OF K(1,2,4) message(4), of tid bnd addr t] message(8) st read show ?thesis by auto
  next
    case (eof b s1)
    let ?cn = "cn\<lparr>inputBuffer := b\<rparr>"
    have e: "echo_inv tid (?cn, s1)" using eof(1-3) i by (simp add: echo_inv_def later_def)
    have "handleClose K (echo_noted K tid bnd addr q) (?cn, s1) = Inr (fst st', snd st')" using eof(5) read by simp
    from echo_inv_history [OF e echo_close_history [OF this]] echo_close_inv [OF K(1) eof(2) this]
    show ?thesis by simp
  next
    case (err e s1)
    have e: "echo_inv tid (cn, s1)" using err(1,2) i by (simp add: echo_inv_def later_def)
    have "handleError (cn, s1) = Inr (fst st', snd st')" using err(4) read by simp
    with echo_inv_history [OF e echo_error_history [OF this]] handleError_inv [OF err(1)] show ?thesis by auto
  qed
qed

lemma echo_run_inv:
  assumes K: "ctl_sound K" "write_sound K" "read_sound K" "never_reset K"
    and run: "echo_run K tid (echo_noted K tid bnd addr q) st"
  shows "echo_inv tid st"
  using run
proof (induction rule: echo_run.induct)
  case (made s c sockfd nm la pa rd wr cl er ctx cn s')
  have "threadId s' = tid" "readable (inputBuffer cn) = []"
    using made(4,5) by (auto simp: TcpConnection_ctor_def log_sys_def new_channel_def)
  with ctor_inv [OF made(1,2,3,5)] show ?case by (simp add: echo_inv_def)
next
  case (established cn s st')
  have "connectEstablished K (echo_noted K tid bnd addr q) (cn, s) = Inr (fst st', snd st')" using established by simp
  from echo_inv_history [OF established(4) echo_history(3) [OF this]] established(2,3,4)
    connectEstablished_inv [OF K(1) echo_silent_ok, of cn s tid q]
  show ?case by (auto simp: echo_silent_eq echo_inv_def)
next
  case (read cn s t st')
  show ?case by (rule echo_read_inv [OF K read(4,2,3)])
next
  case (written st st')
  have "handleWrite K tid (fst st, snd st) = Inr (fst st', snd st')" using written by simp
  from echo_inv_history [of tid "(fst st, snd st)", OF _ echo_history(1) [OF this]] written
    handleWrite_inv [OF K(1,2), of "fst st" "snd st" tid]
  show ?case by (auto simp: echo_inv_def)
next
  case (close st st')
  have "handleClose K (echo_noted K tid bnd addr q) (fst st, snd st) = Inr (fst st', snd st')" using close by simp
  from echo_inv_history [of tid "(fst st, snd st)", OF _ echo_history(2) [OF this]] close echo_close_inv [OF K(1) _ this]
  show ?case by (auto simp: echo_inv_def)
next
  case (error st st')
  have "handleError (fst st, snd st) = Inr (fst st', snd st')" using error by simp
  from echo_inv_history [of tid "(fst st, snd st)", OF _ echo_history(5) [OF this]] error
    handleError_inv [of "fst st" "snd st"]
  show ?case by (auto simp: echo_inv_def)
next
  case (destroyed st st')
  have "connectDestroyed K (echo_noted K tid bnd addr q) (fst st, snd st) = Inr (fst st', snd st')" using destroyed by simp
  from echo_inv_history [of tid "(fst st, snd st)", OF _ echo_history(4) [OF this]] destroyed
    connectDestroyed_inv [OF K(1) echo_silent_ok, of "fst st" "snd st" tid q]
  show ?case by (auto simp: echo_inv_def echo_silent_eq)
next
  case (others cn s s')
  then show ?case using quiet_step_inv [of cn s s'] by (auto simp: echo_inv_def quiet_step_def)
qed

lemma echo_read_returns:
  assumes K: "ctl_sound K" "write_sound K" "read_sound K" "never_reset K" and inv: "echo_inv tid (cn, s)"
    and st: "conn_state cn = kConnected"
  shows "\<exists>st'. handleRead K (echo_noted K tid bnd addr q) t (cn, s) = Inr st' \<and>
    (\<forall>got. k_readv K (trace s) (conn_fd cn) (readv_room (inputBuffer cn)) = ReadGot got \<and> got \<noteq> [] \<longrightarrow>
       consumed_bytes (snd st') = consumed_bytes s @ got \<and> conn_fd (fst st') = conn_fd cn \<and>
       ((\<forall>tr d. k_write K tr (conn_fd cn) d = WriteDone (length d)) \<and> readable (outputBuffer cn) = [] \<longrightarrow>
          readable (outputBuffer (fst st')) = []))"
proof -
  have i: "stream_inv (cn, s)" "accepted_bytes s = consumed_bytes s" "threadId s = tid" "readable (inputBuffer cn) = []"
    using inv by (simp_all add: echo_inv_def)
  show ?thesis
  proof (cases rule: handleRead_cases [OF K(3) i(1), of t, case_names message eof err])
    case (message got b s1)
    have "accepted_bytes s1 = consumed_bytes s1" "threadId s1 = tid" "consumed_bytes s1 = consumed_bytes s"
      using message(5) i by (simp_all add: later_def)
    with echo_message_inv [OF K(1,2,4) message(4), of tid bnd addr t] message(2,7,8) st i(4) show ?thesis by auto
  next
    case (eof b s1)
    with handleClose_inv [OF K(1) echo_silent_ok eof(2), of tid q] show ?thesis by (auto simp: echo_silent_eq)
  next
    case (err e s1)
    with handleError_inv [OF err(1)] show ?thesis by auto
  qed
qed


text \<open>A connection of the server on which a message has arrived, over a kernel that delivers it.\<close>

definition saying :: "bytes \<Rightarrow> kernel" where
  "saying d = ideal_kernel\<lparr>k_readv := (\<lambda>tr fd c. ReadGot (take c d))\<rparr>"

lemma saying_sound [simp]:
  "ctl_sound (saying d)" "write_sound (saying d)" "read_sound (saying d)" "never_reset (saying d)"
  by (simp_all add: saying_def ideal_kernel_def ctl_sound_def write_sound_def read_sound_def never_reset_def)

lemma saying_write [simp]: "k_write (saying d) tr fd d' = WriteDone (length d')"
  by (simp add: saying_def ideal_kernel_def)

abbreviation demo_echo :: "bytes \<Rightarrow> (nat, unit, unit) client_st conn_callbacks" where
  "demo_echo d \<equiv> echo_noted (saying d) 100 (\<lambda>a n. 50) 7000 (Some 52)"

lemma demo_echo_up:
  obtains cn s where "echo_run (saying d) 100 (demo_echo d) (cn, s)" "conn_state cn = kConnected" "conn_fd cn = 5"
    "consumed_bytes s = []" "readable (outputBuffer cn) = []"
proof -
  have free: "heap demo_client_loop 1 = None" "channels demo_client_loop 5 = None" "threadId demo_client_loop = 100"
    by (simp_all add: demo_client_loop_def event_loop.extend_def new_loop_def)
  obtain cn s' where c: "TcpConnection_ctor (Some demo_client_loop) ''c'' 5 undefined undefined 1 10 11 12 13 () = Inr (cn, s')"
    "conn_state cn = kConnecting" "conn_fd cn = 5" "readable (outputBuffer cn) = []"
    by (simp add: TcpConnection_ctor_def log_sys_def new_channel_def free)
  let ?s = "s'\<lparr>accepted_bytes := [], consumed_bytes := [], born := length (trace s')\<rparr>"
  have 1: "echo_run (saying d) 100 (demo_echo d) (cn, ?s)"
    by (rule echo_run.made [OF demo_client_loop_inv free c(1)])
  have inv: "stream_inv (cn, ?s)" by (rule ctor_inv [OF demo_client_loop_inv free(1,2) c(1)])
  obtain cn1 s1 where e: "connectEstablished (saying d) (demo_echo d) (cn, ?s) = Inr (cn1, s1)"
    using connectEstablished_inv [OF saying_sound(1) echo_silent_ok inv c(2), of d 100 "Some 52"]
    unfolding echo_silent_eq by auto
  have "cn1 = setState kConnected cn"
    using e by (auto simp: connectEstablished_def with_channel_def rbind_eq_Inr split: option.splits)
  with echo_run.established [OF 1 c(2) e] c(3,4) echo_history(3) [OF e] show thesis
    by (intro that [of cn1 s1]) (simp_all add: setState_def same_history_def)
qed

lemma demo_echo_said:
  assumes "d \<noteq> []" "length d \<le> extrabuf_size"
  obtains cn s where "echo_run (saying d) 100 (demo_echo d) (cn, s)" "conn_fd cn = 5" "received 5 (life s) = d"
    "readable (outputBuffer cn) = []"
proof (rule demo_echo_up [of d])
  fix cn s
  assume a: "echo_run (saying d) 100 (demo_echo d) (cn, s)" "conn_state cn = kConnected" "conn_fd cn = 5"
    "consumed_bytes s = []" "readable (outputBuffer cn) = []"
  have "length d \<le> readv_room (inputBuffer cn)" using assms(2) by (simp add: readv_room_def)
  then have got: "k_readv (saying d) (trace s) (conn_fd cn) (readv_room (inputBuffer cn)) = ReadGot d"
    by (simp add: saying_def)
  obtain cn' s' where r: "handleRead (saying d) (demo_echo d) 0 (cn, s) = Inr (cn', s')"
    "consumed_bytes s' = d" "conn_fd cn' = 5" "readable (outputBuffer cn') = []"
    using echo_read_returns [OF saying_sound [of d] echo_run_inv [OF saying_sound a(1)] a(2), where bnd = "\<lambda>a n. 50" and addr = 7000 and q = "Some 52" and t = 0]
      got a(3-5) assms(1)
    by auto
  have run: "echo_run (saying d) 100 (demo_echo d) (cn', s')" by (rule echo_run.read [OF a(1,2) r(1)])
  have "received 5 (life s') = d"
    using echo_run_inv [OF saying_sound run] r(2,3) by (simp add: echo_inv_def stream_inv_def io_inv_def)
  from that [OF run r(3) this r(4)] show thesis .
qed


subsection \<open>The program\<close>

lemma echo_ctor_eq:
  "TcpServer_ctor (Some 0) [0 \<mapsto> s] addr name opt fd bind_ok c rd =
     rbind (Acceptor_ctor fd bind_ok c rd opt s) (\<lambda>(a, s1).
       Inr \<lparr>srv_loop = 0, srv_ipPort = toIp addr @ '':'' @ dec (unat (toPort addr)), srv_name = name, srv_acceptor = a,
            srv_pool = EventLoopThreadPool_ctor 0 name, srv_started = 0, nextConnId = 1,
            connections = [], srv_writeComplete = None, conns = (\<lambda>_. None), loops = [0 \<mapsto> s1]\<rparr>)"
  by (simp add: TcpServer_ctor_def CheckLoopNotNull_def toIpPort_fits)

lemma echo_main_eq:
  assumes "ctl_sound K" "epollfd \<ge> 0" "evtfd \<ge> 0" "sockfd \<noteq> evtfd"
  shows "echo_main K g epollfd evtfd tid sockfd inet_addr bind_ok listen_ok new_at fresh wake rd =
    (if sockfd \<ge> 0 \<and> bind_ok then
       let (a, s1) = projr (Acceptor_ctor sockfd True 1 rd False (new_loop evtfd tid 0 wake));
           p = fst (elp_start new_at False (setThreadNum 1 (EventLoopThreadPool_ctor 0 ''EchoServer-01'')));
           addr = InetAddress_ctor inet_addr 9999 ''127.0.0.1'';
           w = \<lparr>srv_loop = 0, srv_ipPort = toIp addr @ '':'' @ dec (unat (toPort addr)),
                srv_name = ''EchoServer-01'', srv_acceptor = a, srv_pool = p, srv_started = 1, nextConnId = 1,
                connections = [], srv_writeComplete = None, conns = (\<lambda>_. None),
                loops = [0 \<mapsto> s1](new_at 0 \<mapsto> fresh 0)\<rparr>
       in with_loop 0 w (\<lambda>s. rbind (if isInLoopThread tid s then srv_listen K listen_ok w
              else Inr (put_loop 0 (queueInLoop tid Listen s) w)) (\<lambda>w'. Inr (setLogLevel 0 (Logger_ctor g), w')))
     else Inl ExitProcess)"
  using EventLoop_ctor_new [OF assms(1-3), of tid 0 wake]
  by (cases "sockfd < 0"; cases bind_ok)
     (simp_all add: echo_main_def EchoServer_ctor_def EchoServer_start_def echo_ctor_eq Acceptor_ctor_def
       createNonblocking_def bindAddress_def srv_start_def srv_setThreadNum_def setThreadNum_def
       EventLoopThreadPool_ctor_def Let_def with_loop_def split: option.split)

lemma one_loop:
  assumes "elp_loops p = [l]" "elp_next p = 0"
  shows "fst (next_loops n p) = replicate n (Inr l)"
  using next_loops_cycle [of p n] assms by (simp add: map_replicate_trivial)

text \<open>
  C32: what \<open>main\<close> of the echo server sets up, given an event loop. It succeeds exactly if the
  listening socket can be made, bound and listened on, else the process ends. Then the kernel
  watches the listening socket on the loop of \<open>main\<close>, every connection will be given to the one
  loop of the pool, and nothing is ever logged below \<^verbatim>\<open>LOG_FATAL\<close>, since \<open>setLogLevel(0)\<close> does not
  set the least level that is logged.
\<close>

theorem echo_main_listens:
  assumes "ctl_sound K" "epollfd \<ge> 0" "evtfd \<ge> 0" "sockfd \<noteq> evtfd" "new_at 0 \<noteq> 0"
    and "r = echo_main K g epollfd evtfd tid sockfd inet_addr bind_ok listen_ok new_at fresh wake rd"
  shows "(if sockfd \<ge> 0 \<and> bind_ok \<and> listen_ok
      then \<exists>L w s. r = Inr (L, w) \<and> loops w 0 = Some s \<and> interest (trace s) sockfd = Some (kReadEvent, 1) \<and>
        loops w (new_at 0) = Some (fresh 0) \<and> (\<forall>n. fst (next_loops n (srv_pool w)) = replicate n (Inr (new_at 0))) \<and>
        (\<forall>alloc lt now level msg. level \<notin> {FATAL, UNKNOWN} \<longrightarrow>
           (\<exists>L'. log_macro alloc lt now level msg L = Inr L' \<and> stdout L' = [] \<and> asyncLogger L' = None))
      else r = Inl ExitProcess)"
proof (cases "sockfd \<ge> 0 \<and> bind_ok")
  case False
  then show ?thesis unfolding assms(6) echo_main_eq [OF assms(1-4)] by auto
next
  case True
  let ?s0 = "new_loop evtfd tid 0 wake"
  have s0: "poller_inv ?s0" "heap ?s0 1 = None" "channels ?s0 sockfd = None"
    using new_loop_inv(1) assms(4) by (simp_all add: new_loop_def)
  obtain a s1 where a: "Acceptor_ctor sockfd True 1 rd False ?s0 = Inr (a, s1)"
    using True by (simp add: Acceptor_ctor_def createNonblocking_def bindAddress_def Let_def)
  have th: "threadId s1 = tid"
    using a by (auto simp: Acceptor_ctor_def createNonblocking_def bindAddress_def setReuseAddr_def setReusePort_def
        new_channel_def log_sys_def new_loop_def Let_def rbind_eq_Inr split: if_splits)
  define p where "p = fst (elp_start new_at False (setThreadNum 1 (EventLoopThreadPool_ctor 0 ''EchoServer-01'')))"
  have p: "elp_loops p = [new_at 0]" "elp_next p = 0"
    by (simp_all add: p_def elp_start_def setThreadNum_def EventLoopThreadPool_ctor_def)
  note eq = echo_main_eq [OF assms(1-4), of g tid inet_addr bind_ok listen_ok new_at fresh wake rd, folded p_def]
  show ?thesis
  proof (cases listen_ok)
    case False
    then have "r = Inl ExitProcess"
      unfolding assms(6) eq using True a th assms(5)
      by (simp add: with_loop_def isInLoopThread_def srv_listen_def Acceptor_listen_def Socket_listen_def Let_def)
    with False show ?thesis by simp
  next
    case l: True
    note e = acceptor_listen_effect [OF assms(1) s0 a]
    have log: "\<exists>L'. log_macro alloc lt now level msg (setLogLevel 0 (Logger_ctor g)) = Inr L' \<and> stdout L' = [] \<and>
        asyncLogger L' = None" if "level \<notin> {FATAL, UNKNOWN}" for alloc lt now level msg
      using that log_macro_eq [of level alloc lt now msg "setLogLevel 0 (Logger_ctor g)"]
      by (cases level) (auto simp: setLogLevel_def Logger_ctor_def)
    show ?thesis
      unfolding assms(6) eq using True l a th assms(5) e one_loop [OF p] log
      by (simp add: with_loop_def isInLoopThread_def srv_listen_def put_loop_def Let_def)
  qed
qed

theorem echo_main_listens_witness:
  "\<exists>L (w :: unit tcp_server) s.
     echo_main ideal_kernel 0 3 4 100 9 dotted_reader True True Suc demo_fresh (App 0) (App 1) = Inr (L, w) \<and>
     loops w 0 = Some s \<and> interest (trace s) 9 = Some (kReadEvent, 1) \<and>
     fst (next_loops 2 (srv_pool w)) = replicate 2 (Inr 1)"
  using echo_main_listens [OF ideal_kernel_sound(1) _ _ _ _ refl, where epollfd = 3 and evtfd = 4 and sockfd = 9 and
      new_at = Suc and g = 0 and tid = 100 and inet_addr = dotted_reader and bind_ok = True and listen_ok = True and
      fresh = demo_fresh and wake = "App 0" and rd = "App 1"]
  by auto

text \<open>The callbacks of the echo server meet what the TCP server's own theorems ask of them.\<close>

lemma echo_callbacks_server_ok: "TcpServer.callbacks_ok (echo_callbacks K tid bnd addr q)"
  by (auto simp: TcpServer.callbacks_ok_def echo_callbacks_def app_ok_def app_call_def app_step_def echo_onConnection_returns intro: exI [of _ "[]"])

end
