(* ===== verification/ChatClient.thy ===== *)
theory ChatClient
  imports TcpClient EchoServer
begin

text \<open>
  The example client (\<^verbatim>\<open>example/tcpclient.cpp\<close>): it says hello when its connection comes up, prints what
  it receives and disconnects. Its members extend those of the TCP client; what it prints is a
  member too. The connection of a callback is at hand, as in theory \<open>HttpClient\<close>, and
  \<open>disconnect_on\<close> is \<^verbatim>\<open>TcpClient::disconnect\<close> called in one.

  What is shown: the dialogue of this client with the echo server of theory \<open>EchoServer\<close>, from
  the moment the socket is connected to the end of the connection, which is not followed by
  another try although retrying is enabled.
\<close>

record ('f, 'c) chat_client = "('f, 'c) tcp_client" +
  chat_connection :: "nat option"
  chat_output :: string

type_synonym ('f, 'c, 'z) chat_st = "('f, 'c) tcp_connection \<times> ('f, 'c, 'z) chat_client_scheme"

definition ChatClient_ctor :: "'f client_loop \<Rightarrow> sockaddr_in \<Rightarrow> ('f, 'c) chat_client" where
  "ChatClient_ctor s serverAddr =
     tcp_client.extend (enableRetry (TcpClient_ctor s serverAddr ''ChatClient''))
       \<lparr>chat_connection = None, chat_output = []\<rparr>"

definition ChatClient_connect ::
  "kernel \<Rightarrow> net \<Rightarrow> con_env \<Rightarrow> 'f con_functors \<Rightarrow> ('f, 'c, 'z) chat_client_scheme \<Rightarrow>
   ('f, 'c, 'z) chat_client_scheme res" where
  "ChatClient_connect K N E F s = TcpClient_connect K N E F s"

definition ChatClient_disconnect ::
  "int \<Rightarrow> 'f cli_functors \<Rightarrow> ('f, 'c, 'z) chat_client_scheme \<Rightarrow> ('f, 'c, 'z) chat_client_scheme res" where
  "ChatClient_disconnect tid G s = TcpClient_disconnect tid G s"

text \<open>The members are destroyed after the body: the connection's pointer, then the TCP client.\<close>

definition ChatClient_dtor ::
  "con_env \<Rightarrow> 'f con_functors \<Rightarrow> 'f cli_functors \<Rightarrow> ('f, 'c, 'z) chat_client_scheme \<Rightarrow>
   ('f, 'c, 'z) chat_client_scheme res" where
  "ChatClient_dtor E F G s =
     rbind (TcpClient_disconnect (env_tid E) G s) (\<lambda>s1. TcpClient_dtor E F G (s1\<lparr>chat_connection := None\<rparr>))"

text \<open>The function \<open>send\<close> of the example, on a connection.\<close>

definition chat_send ::
  "kernel \<Rightarrow> int \<Rightarrow> (nat \<Rightarrow> nat \<Rightarrow> 'f) \<Rightarrow> nat \<Rightarrow> string \<Rightarrow> ('f, 'c, 'z) conn_st \<Rightarrow> ('f, 'c, 'z) conn_st res" where
  "chat_send K tid bnd addr message st = TcpConnection.send K tid bnd addr message st"

definition chat_write ::
  "kernel \<Rightarrow> int \<Rightarrow> (nat \<Rightarrow> nat \<Rightarrow> 'f) \<Rightarrow> nat \<Rightarrow> string \<Rightarrow> ('f, 'c, 'z) chat_client_scheme \<Rightarrow>
   ('f, 'c, 'z) chat_client_scheme res" where
  "chat_write K tid bnd addr message s =
     (case chat_connection s of
        None \<Rightarrow> Inr s
      | Some n \<Rightarrow> with_cli n s (\<lambda>cn.
          rbind (chat_send K tid bnd addr message (cn, s)) (\<lambda>(cn', s'). Inr (put_cli n cn' s'))))"

definition disconnect_on ::
  "int \<Rightarrow> 'f cli_functors \<Rightarrow> nat \<Rightarrow> ('f, 'c, 'z) chat_st \<Rightarrow> ('f, 'c, 'z) chat_st res" where
  "disconnect_on tid G n st =
     (case st of (cn, s) \<Rightarrow>
        if cli_connection s = Some n then shutdown tid (shutdown_f G n) (cn, s\<lparr>cli_connect := False\<rparr>)
        else rbind (TcpClient_disconnect tid G s) (\<lambda>s'. Inr (cn, s')))"

text \<open>The message logged is made of both addresses; \<open>addr\<close> is the address of the local string.\<close>

definition chat_onConnection ::
  "kernel \<Rightarrow> int \<Rightarrow> (nat \<Rightarrow> nat \<Rightarrow> 'f) \<Rightarrow> nat \<Rightarrow> nat \<Rightarrow> ('f, 'c, 'z) chat_st \<Rightarrow> ('f, 'c, 'z) chat_st res" where
  "chat_onConnection K tid bnd addr n st =
     (case st of (cn, s) \<Rightarrow>
        rbind (toIpPort (localAddr cn)) (\<lambda>_.
        rbind (toIpPort (peerAddr cn)) (\<lambda>_.
          if connected cn then chat_send K tid bnd addr ''Hello, server!'' (cn, s\<lparr>chat_connection := Some n\<rparr>)
          else Inr (cn, s\<lparr>chat_output := chat_output s @ ''hhh'' @ newline, chat_connection := None\<rparr>))))"

text \<open>What \<^verbatim>\<open>printf\<close> shows of a message ends at its first NUL.\<close>

definition chat_line :: "string \<Rightarrow> string" where
  "chat_line msg = ''<<< '' @ takeWhile (\<lambda>c. c \<noteq> CHR 0x00) msg @ newline"

definition chat_onMessage ::
  "int \<Rightarrow> 'f cli_functors \<Rightarrow> nat \<Rightarrow> timestamp \<Rightarrow> ('f, 'c, 'z) chat_st \<Rightarrow> ('f, 'c, 'z) chat_st res" where
  "chat_onMessage tid G n t st =
     (case st of (cn, s) \<Rightarrow>
        rbind (retrieveAllAsString (inputBuffer cn)) (\<lambda>(msg, buf).
          disconnect_on tid G n (cn\<lparr>inputBuffer := buf\<rparr>, s\<lparr>chat_output := chat_output s @ chat_line msg\<rparr>)))"

definition chat_callbacks ::
  "kernel \<Rightarrow> int \<Rightarrow> (nat \<Rightarrow> nat \<Rightarrow> 'f) \<Rightarrow> nat \<Rightarrow> 'f cli_functors \<Rightarrow> nat \<Rightarrow> ('f, 'c, 'z) chat_st conn_callbacks" where
  "chat_callbacks K tid bnd addr G n =
     cli_setMessageCallback (Some (chat_onMessage tid G n))
       (cli_setConnectionCallback (Some (chat_onConnection K tid bnd addr n)) no_callbacks)"

text \<open>\<open>main\<close> up to its call of \<open>loop()\<close>; the history fields of the loop's state begin here.\<close>

definition chat_main ::
  "kernel \<Rightarrow> net \<Rightarrow> con_env \<Rightarrow> 'f con_functors \<Rightarrow> int \<Rightarrow> int \<Rightarrow> (string \<Rightarrow> 32 word) \<Rightarrow> nat \<Rightarrow> 'f \<Rightarrow>
   ('f, 'c) chat_client res" where
  "chat_main K N E F epollfd evtfd inet_addr c wake =
     rbind (EventLoop_ctor K False epollfd evtfd False (env_tid E) c wake) (\<lambda>loop.
       let serverAddr = InetAddress_ctor inet_addr 9999 ''127.0.0.1'';
           s = event_loop.extend loop \<lparr>accepted_bytes = [], consumed_bytes = [], born = length (trace loop)\<rparr>
       in ChatClient_connect K N E F (ChatClient_ctor s serverAddr))"

subsection \<open>Hello\<close>

lemma client_more_chat:
  assumes "tcp_client.more (t :: ('f, 'c, 'z) chat_client_scheme) = tcp_client.more s"
  shows "chat_connection t = chat_connection s" "chat_output t = chat_output s"
  using assms by (cases s; cases t; simp)+

lemma loop_more_chat:
  assumes "event_loop.more (t :: ('f, 'c, 'z) chat_client_scheme) = event_loop.more s"
  shows "tcp_client.more t = tcp_client.more s" "born t = born s"
  using assms by (cases s; cases t; simp)+

lemma conn_inv_members:
  "conn_inv (cn, s\<lparr>chat_connection := p\<rparr>) = conn_inv (cn, s)"
  "conn_inv (cn, s\<lparr>chat_output := o1\<rparr>) = conn_inv (cn, s)"
  "conn_inv (cn, put_cli n cn' s) = conn_inv (cn, s)"
  by (simp_all add: conn_inv_def put_cli_def poller_inv_def channel_ok_def can_register_def)

lemma chat_hello:
  assumes K: "ctl_sound K" "write_sound K" "never_reset K"
    and s: "poller_inv s" "heap s c = None" "channels s fd = None" "cli_connection s = None" "cli_nextConnId s < 2 ^ 31 - 1"
    and cb: "connectionCallback (CB n) = Some (chat_onConnection K (threadId s) bnd addr n)"
    and h: "accepted_bytes s = []" "consumed_bytes s = []" "born s = length (trace s)"
  obtains s1 cn1 where "cli_newConnection K N G CB n c ctx fd s = Inr s1" "cli_conns s1 n = Some cn1"
    "conn_state cn1 = TcpConnection.kConnected" "conn_fd cn1 = fd" "conn_inv (cn1, s1)" "readable (inputBuffer cn1) = []"
    "cli_connection s1 = Some n" "cli_closecb s1 n = RemoveBound n" "threadId s1 = threadId s"
    "chat_connection s1 = Some n" "chat_output s1 = chat_output s" "born s1 \<le> length (trace s1)"
    "sent fd (life s1) @ readable (outputBuffer cn1) = ''Hello, server!''"
    "(\<forall>tr d. k_write K tr fd d = WriteDone (length d)) \<longrightarrow> readable (outputBuffer cn1) = []"
proof (rule newConnection_up [where s = s and CB = CB and n = n and N = N and G = G and ctx = ctx,
      OF K(1) s(1-3) cb s(4,5)])
  fix cn t
  assume new: "cli_newConnection K N G CB n c ctx fd s =
      rbind (chat_onConnection K (threadId s) bnd addr n (cn, t)) (\<lambda>(cn2, s4). Inr (put_cli n cn2 s4))"
    and cn: "conn_state cn = TcpConnection.kConnected" "conn_fd cn = fd" "conn_inv (cn, t)"
      "readable (outputBuffer cn) = []" "readable (inputBuffer cn) = []"
    and t: "cli_connection t = Some n" "cli_closecb t n = RemoveBound n" "threadId t = threadId s"
      "tcp_client.more t = tcp_client.more s"
      "trace t = trace s @ [SockKeepAlive fd, EpollCtl CTL_ADD fd kReadEvent c True]"
      "accepted_bytes t = accepted_bytes s" "consumed_bytes t = consumed_bytes s" "born t = born s"
  let ?t = "t\<lparr>chat_connection := Some n\<rparr>"
  have life: "life ?t = [SockKeepAlive fd, EpollCtl CTL_ADD fd kReadEvent c True]"
    using t(5,8) h(3) by (simp add: life_def)
  define hello where "hello = ''Hello, server!''"
  have inv: "conn_inv (cn, ?t)" using cn(3) by (simp add: conn_inv_members)
  have h': "accepted_bytes ?t = []" "consumed_bytes ?t = []" "born ?t \<le> length (trace ?t)"
    using t(5-8) h by simp_all
  obtain out s' where s': "sendInLoop K (threadId ?t) hello (cn, ?t) = Inr (cn\<lparr>outputBuffer := out\<rparr>, s')"
    "sent (conn_fd cn) (life s') @ readable out = hello" "event_loop.more s' = event_loop.more ?t"
    "conn_inv (cn\<lparr>outputBuffer := out\<rparr>, s')" "threadId s' = threadId ?t" "born s' \<le> length (trace s')"
    "k_write K (trace ?t) (conn_fd cn) hello = WriteDone (length hello) \<longrightarrow> readable out = []"
    by (rule send_first [OF K inv cn(1,4,5) h' life, of hello])
  note keep = loop_more_client [OF s'(3)] client_more_chat [OF loop_more_chat(1) [OF s'(3)]]
  have "chat_onConnection K (threadId s) bnd addr n (cn, t) = Inr (cn\<lparr>outputBuffer := out\<rparr>, s')"
    using s'(1) cn(1) t(3) by (simp add: chat_onConnection_def toIpPort_fits connected_def chat_send_def
        TcpConnection.send_def isInLoopThread_def hello_def)
  with new have "cli_newConnection K N G CB n c ctx fd s = Inr (put_cli n (cn\<lparr>outputBuffer := out\<rparr>) s')" by simp
  moreover have "cli_conns (put_cli n (cn\<lparr>outputBuffer := out\<rparr>) s') n = Some (cn\<lparr>outputBuffer := out\<rparr>)"
    "life (put_cli n (cn\<lparr>outputBuffer := out\<rparr>) s') = life s'"
    by (simp_all add: put_cli_def life_def)
  moreover have "cli_connection s' = Some n" "cli_closecb s' n = RemoveBound n" "chat_connection s' = Some n"
    "chat_output s' = chat_output s" "threadId s' = threadId s"
    using keep t(1-3) s'(5) client_more_chat(2) [OF t(4)] by simp_all
  ultimately show thesis
    using s'(2,4,6,7) cn(1,2,5)
    by (intro that [of "put_cli n (cn\<lparr>outputBuffer := out\<rparr>) s'" "cn\<lparr>outputBuffer := out\<rparr>"])
       (simp_all add: conn_inv_members hello_def, simp_all add: put_cli_def)
qed

subsection \<open>The answer and the end\<close>

lemma chat_reply:
  assumes K: "read_sound K" and inv: "conn_inv (cn, s)" and st: "conn_state cn = TcpConnection.kConnected"
    and b: "readable (outputBuffer cn) = []" "readable (inputBuffer cn) = []" and n: "cli_connection s = Some n"
    and got: "k_readv K (trace s) (conn_fd cn) (readv_room (inputBuffer cn)) = ReadGot got" "got \<noteq> []"
    and cb: "messageCallback CB = Some (chat_onMessage (threadId s) G n)"
  obtains inb where "buffer_inv inb"
    "handleRead K CB t (cn, s) = Inr (setState TcpConnection.kDisconnecting (cn\<lparr>inputBuffer := inb\<rparr>),
       (log_sys (SockShutdownWr (conn_fd cn)) (log_sys (SockRead (conn_fd cn) (ReadGot got)) s))
         \<lparr>chat_output := chat_output s @ chat_line got, cli_connect := False\<rparr>)"
proof (rule handleRead_got [OF K inv got(1), of t])
  fix inb
  assume i: "buffer_inv inb" "readable inb = readable (inputBuffer cn) @ got"
    "\<And>CB. handleRead K CB t (cn, s) =
       (if got \<noteq> [] then
          (case messageCallback CB of None \<Rightarrow> Inl BadFunctionCall
           | Some cb \<Rightarrow> cb t (cn\<lparr>inputBuffer := inb\<rparr>, log_sys (SockRead (conn_fd cn) (ReadGot got)) s))
        else handleClose K CB (cn\<lparr>inputBuffer := inb\<rparr>, log_sys (SockRead (conn_fd cn) (ReadGot got)) s))"
  obtain ch where ch: "heap s (conn_channel cn) = Some ch" "\<not> isWriting ch"
    using inv b(1) by (auto simp: conn_inv_def)
  show thesis
  proof (rule that)
    show "buffer_inv (retrieveAll inb)" using i(1) by simp
    show "handleRead K CB t (cn, s) = Inr (setState TcpConnection.kDisconnecting (cn\<lparr>inputBuffer := retrieveAll inb\<rparr>),
       (log_sys (SockShutdownWr (conn_fd cn)) (log_sys (SockRead (conn_fd cn) (ReadGot got)) s))
         \<lparr>chat_output := chat_output s @ chat_line got, cli_connect := False\<rparr>)"
      using i b(2) got(2) cb n st ch
      by (simp add: chat_onMessage_def retrieveAllAsString_ok disconnect_on_def shutdown_def isInLoopThread_def
          shutdownInLoop_def with_channel_def setState_def log_sys_def)
  qed
qed

text \<open>A connection that ends after the client has disconnected is not tried again.\<close>

lemma chat_close:
  assumes K: "ctl_sound K" and inv: "conn_inv (cn, s)" and n: "cli_conns s n = Some cn" "cli_closecb s n = RemoveBound n"
    and cb: "connectionCallback (CB n) = Some (chat_onConnection K tid bnd addr n)" and d: "\<not> cli_connect s"
  obtains s' where "cli_handleClose K N E F G CB n s = Inr s'" "cli_connector s' = cli_connector s"
    "cli_connection s' = None" "chat_connection s' = None" "chat_output s' = chat_output s @ ''hhh'' @ newline"
proof -
  obtain s1 where s1: "Channel_set del_all K (conn_channel cn) s = Inr s1"
    using Channel_set_returns [OF K, of s "conn_channel cn" del_all] inv by (auto simp: conn_inv_def)
  note k = loop_more_client [OF Channel_set_keeps [OF s1]]
  have out: "chat_output s1 = chat_output s"
    by (rule client_more_chat(2) [OF loop_more_chat(1) [OF Channel_set_keeps [OF s1]]])
  let ?cn = "setState TcpConnection.kDisconnected cn"
  let ?s2 = "s1\<lparr>chat_output := chat_output s1 @ ''hhh'' @ newline, chat_connection := None\<rparr>"
  let ?q = "queueInLoop (env_tid E) (destroyed_f G n) (?s2\<lparr>cli_connection := None\<rparr>)"
  have q: "event_loop.more ?q = event_loop.more (?s2\<lparr>cli_connection := None\<rparr>)" by simp
  have "cli_connect ?q = cli_connect (?s2\<lparr>cli_connection := None\<rparr>)" by (rule loop_more_client(5) [OF q])
  then have "cli_removeConnection K N E F G n ?s2 = Inr ?q"
    using d k(5) by (simp add: cli_removeConnection_def)
  moreover have "chat_onConnection K tid bnd addr n (?cn, s1) = Inr (?cn, ?s2)"
    by (simp add: chat_onConnection_def toIpPort_fits connected_def setState_def)
  ultimately have "cli_handleClose K N E F G CB n s = Inr (put_cli n ?cn ?q)"
    using n cb s1 k(1)
    by (simp add: cli_handleClose_def with_cli_def handleClose_def disableAll_def call_cb_def cli_closeCallback_def)
  then show thesis
    by (rule that) (use loop_more_client [OF q] client_more_chat [OF loop_more_chat(1) [OF q]] k out in
        \<open>simp_all add: put_cli_def\<close>)
qed

text \<open>
  C27: the dialogue of the example client with the example server, over a transport that brings each
  side the other's bytes. When the client's socket is connected it says hello; if the server has
  received what the client wrote and the client reads what the server wrote, all of it, then the
  client prints its own greeting, shuts its side down and stops trying: when the connection then
  ends, connector and client are left alone although retrying is enabled, and the client's
  pointer to the connection is reset.
\<close>

theorem chat_dialogue:
  assumes "ctl_sound K" "write_sound K" "read_sound K" "never_reset K"
    and "poller_inv s" "heap s c = None" "channels s fd = None" "cli_connection s = None" "cli_nextConnId s < 2 ^ 31 - 1"
    and "accepted_bytes s = []" "consumed_bytes s = []" "born s = length (trace s)"
    and "CB n = chat_callbacks K (threadId s) bnd addr G n"
    and "cli_newConnection K N G CB n c ctx fd s = Inr s1" "cli_conns s1 n = Some cn" "readable (outputBuffer cn) = []"
    and "ctl_sound K'" "write_sound K'" "read_sound K'" "never_reset K'"
    and "echo_run K' tid (echo_noted K' tid bnd' addr' q) (cs, ss)" "readable (outputBuffer cs) = []"
    and "received (conn_fd cs) (life ss) = sent fd (life s1)"
    and "k_readv K (trace s1) fd (readv_room (inputBuffer cn)) = ReadGot (sent (conn_fd cs) (life ss))"
  shows "\<exists>cn' s' s''. handleRead K (CB n) t (cn, s1) = Inr (cn', s') \<and>
    chat_output s' = chat_output s @ chat_line ''Hello, server!'' \<and> conn_state cn' = TcpConnection.kDisconnecting \<and>
    SockShutdownWr fd \<in> set (life s') \<and> cli_handleClose K N E F G CB n (put_cli n cn' s') = Inr s'' \<and>
    cli_connector s'' = cli_connector s' \<and> cli_connection s'' = None \<and> chat_connection s'' = None"
proof -
  have cb: "connectionCallback (CB n) = Some (chat_onConnection K (threadId s) bnd addr n)"
    "messageCallback (CB n) = Some (chat_onMessage (threadId s) G n)"
    by (simp_all add: assms(13) chat_callbacks_def)
  obtain cn0 where i: "cli_conns s1 n = Some cn0" "conn_state cn0 = TcpConnection.kConnected" "conn_fd cn0 = fd"
    "conn_inv (cn0, s1)" "readable (inputBuffer cn0) = []" "cli_connection s1 = Some n" "cli_closecb s1 n = RemoveBound n"
    "threadId s1 = threadId s" "chat_output s1 = chat_output s" "born s1 \<le> length (trace s1)"
    "sent fd (life s1) @ readable (outputBuffer cn0) = ''Hello, server!''"
  proof (rule chat_hello [where s = s and CB = CB and n = n and N = N and G = G and ctx = ctx,
        OF assms(1,2,4,5-9) cb(1) assms(10-12)])
    fix s0 cn1
    assume a: "cli_newConnection K N G CB n c ctx fd s = Inr s0" "cli_conns s0 n = Some cn1"
      "conn_state cn1 = TcpConnection.kConnected" "conn_fd cn1 = fd" "conn_inv (cn1, s0)" "readable (inputBuffer cn1) = []"
      "cli_connection s0 = Some n" "cli_closecb s0 n = RemoveBound n" "threadId s0 = threadId s"
      "chat_output s0 = chat_output s" "born s0 \<le> length (trace s0)"
      "sent fd (life s0) @ readable (outputBuffer cn1) = ''Hello, server!''"
    have "s0 = s1" using a(1) assms(14) by simp
    with a(2-12) that show thesis by blast
  qed
  have cn: "cn0 = cn" using i(1) assms(15) by simp
  have "echo_inv tid (cs, ss)" by (rule echo_run_inv [OF assms(17-21)])
  then have "sent (conn_fd cs) (life ss) = ''Hello, server!''"
    using i(11) assms(16,22,23) unfolding cn by (auto simp: echo_inv_def stream_inv_def io_inv_def)
  then have got: "k_readv K (trace s1) (conn_fd cn) (readv_room (inputBuffer cn)) = ReadGot ''Hello, server!''"
    using assms(24) i(3) cn by simp
  have cb2: "messageCallback (CB n) = Some (chat_onMessage (threadId s1) G n)" using cb(2) i(8) by simp
  obtain inb where r: "buffer_inv inb"
    "handleRead K (CB n) t (cn, s1) = Inr (setState TcpConnection.kDisconnecting (cn\<lparr>inputBuffer := inb\<rparr>),
       (log_sys (SockShutdownWr (conn_fd cn)) (log_sys (SockRead (conn_fd cn) (ReadGot ''Hello, server!'')) s1))
         \<lparr>chat_output := chat_output s1 @ chat_line ''Hello, server!'', cli_connect := False\<rparr>)"
    by (rule chat_reply [OF assms(3) i(4)[unfolded cn] i(2)[unfolded cn] assms(16) i(5)[unfolded cn] i(6) got _ cb2, of t]) simp_all
  define cn' where "cn' = setState TcpConnection.kDisconnecting (cn\<lparr>inputBuffer := inb\<rparr>)"
  define s' where "s' = (log_sys (SockShutdownWr (conn_fd cn)) (log_sys (SockRead (conn_fd cn) (ReadGot ''Hello, server!'')) s1))
         \<lparr>chat_output := chat_output s1 @ chat_line ''Hello, server!'', cli_connect := False\<rparr>"
  have s': "chat_output s' = chat_output s @ chat_line ''Hello, server!''" "SockShutdownWr fd \<in> set (life s')"
    using i(3,9,10) cn by (simp_all add: s'_def log_sys_def life_def)
  have "conn_inv (cn', put_cli n cn' s')"
    using i(4) r(1) assms(16) i(2) cn
    by (simp add: conn_inv_def cn'_def s'_def put_cli_def setState_def log_sys_def poller_inv_def channel_ok_def can_register_def)
  moreover have "cli_conns (put_cli n cn' s') n = Some cn'" "cli_closecb (put_cli n cn' s') n = RemoveBound n"
    "\<not> cli_connect (put_cli n cn' s')"
    using i(7) by (simp_all add: put_cli_def s'_def log_sys_def)
  ultimately obtain s'' where "cli_handleClose K N E F G CB n (put_cli n cn' s') = Inr s''"
    "cli_connector s'' = cli_connector (put_cli n cn' s')" "cli_connection s'' = None" "chat_connection s'' = None"
    by (rule chat_close [where CB = CB and n = n and N = N and E = E and F = F and G = G, OF assms(1) _ _ _ cb(1)])
  moreover have "conn_state cn' = TcpConnection.kDisconnecting" "cli_connector (put_cli n cn' s') = cli_connector s'"
    by (simp_all add: cn'_def setState_def put_cli_def)
  ultimately show ?thesis
    using s' r(2) [folded cn'_def s'_def] by (intro exI [of _ cn'] exI [of _ s'] exI [of _ s'']) simp
qed

definition demo_chat :: "(nat, unit) chat_client" where
  "demo_chat = ChatClient_ctor demo_http_loop (InetAddress_ctor dotted_reader 9999 ''127.0.0.1'')"

lemma demo_chat_facts:
  "poller_inv demo_chat" "heap demo_chat 2 = None" "channels demo_chat 9 = None"
  "cli_connection demo_chat = None" "cli_nextConnId demo_chat = 1" "threadId demo_chat = 100"
  "accepted_bytes demo_chat = []" "consumed_bytes demo_chat = []" "born demo_chat = length (trace demo_chat)"
  "chat_output demo_chat = []"
proof -
  have "poller_inv demo_chat = poller_inv demo_http_loop"
    by (simp add: demo_chat_def ChatClient_ctor_def enableRetry_def TcpClient_ctor_def tcp_client.extend_def
        client_loop.extend_def poller_inv_def channel_ok_def)
  then show "poller_inv demo_chat" using demo_conn_loop_facts(1) by simp
qed (simp_all add: demo_chat_def ChatClient_ctor_def enableRetry_def TcpClient_ctor_def tcp_client.extend_def
    client_loop.extend_def demo_http_loop_def event_loop.defs demo_conn_loop_def new_channel_def new_loop_def)

theorem chat_dialogue_witness:
  "\<exists>s1 cn cn' s'. cli_newConnection (saying ''Hello, server!'') demo_net demo_cli_functors
       (chat_callbacks (saying ''Hello, server!'') 100 (\<lambda>a n. 50) 7000 demo_cli_functors) 3 2 () 9 demo_chat = Inr s1 \<and>
     handleRead (saying ''Hello, server!'') (chat_callbacks (saying ''Hello, server!'') 100 (\<lambda>a n. 50) 7000 demo_cli_functors 3)
       0 (cn, s1) = Inr (cn', s') \<and>
     chat_output s' = ''<<< Hello, server!'' @ newline \<and> SockShutdownWr 9 \<in> set (life s')"
proof -
  let ?h = "''Hello, server!''"
  define K where "K = saying ?h"
  define CB :: "nat \<Rightarrow> (nat, unit, unit) chat_st conn_callbacks" where
    "CB = chat_callbacks K 100 (\<lambda>a n. 50) 7000 demo_cli_functors"
  note f = demo_chat_facts
  have K: "ctl_sound K" "write_sound K" "read_sound K" "never_reset K" by (simp_all add: K_def)
  have w: "\<forall>tr d. k_write K tr 9 d = WriteDone (length d)" by (simp add: K_def)
  have id: "cli_nextConnId demo_chat < 2 ^ 31 - 1" using f(5) by simp
  have cb: "CB 3 = chat_callbacks K (threadId demo_chat) (\<lambda>a n. 50) 7000 demo_cli_functors 3"
    using f(6) by (simp add: CB_def)
  have cb1: "connectionCallback (CB 3) = Some (chat_onConnection K (threadId demo_chat) (\<lambda>a n. 50) 7000 3)"
    by (simp add: cb chat_callbacks_def)
  obtain s1 cn where c: "cli_newConnection K demo_net demo_cli_functors CB 3 2 () 9 demo_chat = Inr s1"
    "cli_conns s1 3 = Some cn" "readable (outputBuffer cn) = []" "sent 9 (life s1) = ?h"
  proof (rule chat_hello [where s = demo_chat and CB = CB and n = 3 and N = demo_net and G = demo_cli_functors and ctx = "()",
        OF K(1,2,4) f(1-4) id cb1 f(7-9)])
    fix s1 cn
    assume "cli_newConnection K demo_net demo_cli_functors CB 3 2 () 9 demo_chat = Inr s1" "cli_conns s1 3 = Some cn"
      "sent 9 (life s1) @ readable (outputBuffer cn) = ?h"
      "(\<forall>tr d. k_write K tr 9 d = WriteDone (length d)) \<longrightarrow> readable (outputBuffer cn) = []"
    with w show thesis by (intro that) auto
  qed
  obtain cs ss where e: "echo_run (saying ?h) 100 (demo_echo ?h) (cs, ss)" "conn_fd cs = 5" "received 5 (life ss) = ?h"
    "readable (outputBuffer cs) = []"
    by (rule demo_echo_said [of ?h]) (simp_all add: extrabuf_size_def)
  have sent: "sent (conn_fd cs) (life ss) = ?h"
    using echo_run_inv [OF saying_sound e(1)] e(2-4) by (auto simp: echo_inv_def stream_inv_def io_inv_def)
  have "14 \<le> readv_room (inputBuffer cn)" by (simp add: readv_room_def extrabuf_size_def)
  then have got: "k_readv K (trace s1) 9 (readv_room (inputBuffer cn)) = ReadGot (sent (conn_fd cs) (life ss))"
    unfolding sent by (simp add: K_def saying_def)
  have rcv: "received (conn_fd cs) (life ss) = sent 9 (life s1)" using e(2,3) c(4) by simp
  have line: "chat_line ?h = ''<<< Hello, server!'' @ newline" by (simp add: chat_line_def)
  from chat_dialogue [where s = demo_chat and CB = CB and n = 3 and N = demo_net and G = demo_cli_functors and ctx = "()" and
      cs = cs and ss = ss and E = "demo_env 1" and F = demo_functors and t = 0 and bnd' = "\<lambda>a n. 50" and q = "Some 52",
      OF K f(1-4) id f(7-9) cb c(1-3) saying_sound e(1,4) rcv got]
  have "\<exists>cn' s'. handleRead K (CB 3) 0 (cn, s1) = Inr (cn', s') \<and>
    chat_output s' = chat_output demo_chat @ chat_line ?h \<and> SockShutdownWr 9 \<in> set (life s')" by blast
  then obtain cn' s' where "handleRead K (CB 3) 0 (cn, s1) = Inr (cn', s')"
    "chat_output s' = ''<<< Hello, server!'' @ newline" "SockShutdownWr 9 \<in> set (life s')"
    unfolding line f(10) by auto
  with c(1) show ?thesis unfolding CB_def K_def by blast
qed

text \<open>
  C40: the example client does not survive a refusal. If \<^verbatim>\<open>connect\<close> reports an error that is
  worth another try, such as a refused connection, \<open>main\<close> does not reach its loop: the retry asks
  for a timer, and the loop has no timer queue.
\<close>

theorem chat_main_refused:
  assumes "ctl_sound K" "epollfd \<ge> 0" "evtfd \<ge> 0"
    and "\<forall>tr fd a. n_connect N tr fd a \<in> set errs_retry"
  shows "chat_main K N E F epollfd evtfd inet_addr c wake = Inl NullDeref"
proof -
  have "n_connect N tr fd a \<notin> set errs_connecting" for tr fd a
    using assms(4) [rule_format, of tr fd a] by (auto simp: errs_connecting_def errs_retry_def)
  then show ?thesis
    using assms(4)
    by (simp add: chat_main_def EventLoop_ctor_new [OF assms(1-3)] ChatClient_connect_def TcpClient_connect_def on_con_def
        start_def isInLoopThread_def ChatClient_ctor_def enableRetry_def TcpClient_ctor_def tcp_client.extend_def
        client_loop.extend_def event_loop.extend_def new_loop_def Connector_ctor_def startInLoop_def connect_def
        createNonblockingOrDie_def sockets_connect_def retry_def sockets_close_def log_sys_def runAfter_def runAt_def addTimer_def
        with_queue_def Let_def)
qed

theorem chat_main_refused_witness:
  "chat_main ideal_kernel (demo_net\<lparr>n_connect := (\<lambda>tr fd a. 111)\<rparr>) (demo_env 1) demo_functors 3 4 dotted_reader 0 7 =
     (Inl NullDeref :: (nat, unit) chat_client res)"
  by (rule chat_main_refused) (simp_all add: errs_retry_def)

end
