(* ===== verification/HttpService.thy ===== *)
theory HttpService
  imports HttpServer TcpServer
begin

text \<open>
  The HTTP server as a whole (\<^verbatim>\<open>src/http/HttpServer.h\<close>, \<^verbatim>\<open>HttpServer.cc\<close>): a TCP server with the callbacks
  of theory \<open>HttpServer\<close> and the application's callback, which is the one that answers 404 until
  another is set.

  What is shown: a server that is constructed and given no callback answers every request that
  arrives with its 404 message and closes; and its callbacks meet the conditions under which
  the TCP server's life-cycle theorems hold.
\<close>

record http_server =
  hs_server :: "http_context option tcp_server"
  httpCallback :: "http_callback option"

definition HttpServer_ctor ::
  "nat option \<Rightarrow> (nat \<Rightarrow> srv_task event_loop option) \<Rightarrow> sockaddr_in \<Rightarrow> string \<Rightarrow> bool \<Rightarrow> int \<Rightarrow> bool \<Rightarrow> nat \<Rightarrow>
   srv_task \<Rightarrow> http_server res" where
  "HttpServer_ctor loop_ptr ls listenAddr name option sockfd bind_ok c rd =
     rbind (TcpServer_ctor loop_ptr ls listenAddr name option sockfd bind_ok c rd) (\<lambda>server.
       Inr \<lparr>hs_server = server, httpCallback = Some defaultHttpCallback\<rparr>)"

text \<open>The callbacks it sets on the TCP server; \<open>addr\<close> is the address of the buffer a response is printed to.\<close>

definition http_callbacks ::
  "kernel \<Rightarrow> int \<Rightarrow> (nat \<Rightarrow> nat \<Rightarrow> srv_task) \<Rightarrow> srv_task \<Rightarrow> nat \<Rightarrow> http_server \<Rightarrow> http_context option srv_callbacks" where
  "http_callbacks K tid bnd shf addr h =
     srv_setMessageCallback (Some (onMessage K tid bnd shf addr (httpCallback h)))
       (srv_setConnectionCallback (Some onConnection) no_callbacks)"

definition hs_setHttpCallback :: "http_callback option \<Rightarrow> http_server \<Rightarrow> http_server" where
  "hs_setHttpCallback cb h = h\<lparr>httpCallback := cb\<rparr>"

definition hs_setThreadNum :: "int \<Rightarrow> http_server \<Rightarrow> http_server" where
  "hs_setThreadNum n h = h\<lparr>hs_server := srv_setThreadNum n (hs_server h)\<rparr>"

definition HttpServer_start ::
  "kernel \<Rightarrow> int \<Rightarrow> bool \<Rightarrow> (nat \<Rightarrow> nat) \<Rightarrow> (nat \<Rightarrow> srv_task event_loop) \<Rightarrow> bool \<Rightarrow> http_server \<Rightarrow> http_server res" where
  "HttpServer_start K tid listen_ok new_at fresh has_cb h =
     rbind (srv_start K tid listen_ok new_at fresh has_cb (hs_server h)) (\<lambda>w. Inr (h\<lparr>hs_server := w\<rparr>))"

lemma http_callbacks_server_ok: "TcpServer.callbacks_ok (http_callbacks K tid bnd shf addr h)"
  by (auto simp: TcpServer.callbacks_ok_def http_callbacks_def app_ok_def app_call_def app_step_def onConnection_def setContext_def
      split: if_splits intro: exI [of _ "[]"])

text \<open>
  The life of one request on a server just constructed: once its connection is established the
  parser is ready, and the first request that arrives is answered by the 404 message, after
  which the server shuts the connection down.
\<close>

theorem new_server_answers_404:
  assumes "HttpServer_ctor loop_ptr ls la name opt sockfd bind_ok c rd = Inr h"
    and "ctl_sound K" "write_sound K" "never_reset K"
    and "conn_inv (cn, s)" "fresh_history (cn, s)" "conn_state cn = kConnected"
    and "onConnection (cn, s) = Inr (cn1, s)" "request_arrived r rest (inputBuffer cn)"
  shows "\<exists>cn' s'. onMessage K (threadId s) bnd shf addr (httpCallback h) t (cn1, s) = Inr (cn', s') \<and>
    sent (conn_fd cn) (life s') @ readable (outputBuffer cn') =
      readable (outputBuffer cn) @ ''HTTP/1.1 404 Not Found'' @ kCRLF @ ''Connection: close'' @ kCRLF @ kCRLF \<and>
    readable (inputBuffer cn') = rest \<and> conn_state cn' = kDisconnecting"
proof -
  have h: "httpCallback h = Some defaultHttpCallback" using assms(1) by (auto simp: HttpServer_ctor_def rbind_eq_Inr)
  have cn1: "cn1 = cn\<lparr>conn_context := Some (ready_ctx [])\<rparr>"
    using assms(7,8) by (simp add: onConnection_def connected_def setContext_def ready_ctx_new)
  let ?resp = "setCloseConnection True (setStatusMessage ''Not Found''
      (setStatusCode_enum k404NotFound (HttpResponse_ctor (wants_close r))))"
  have r: "length (resp_body ?resp) < 10 ^ 13" "resp_closeConnection ?resp"
    "response_bytes ?resp = ''HTTP/1.1 404 Not Found'' @ kCRLF @ ''Connection: close'' @ kCRLF @ kCRLF"
    by (simp_all add: HttpResponse_ctor_def setCloseConnection_def setStatusMessage_def setStatusCode_enum_def
        response_bytes_def status_line_def framing_headers_def header_line_def dec.simps)
  have c: "conn_inv (cn1, s)" "fresh_history (cn1, s)" "conn_state cn1 = kConnected" "conn_fd cn1 = conn_fd cn"
    "conn_context cn1 = Some (ready_ctx [])" "request_arrived r rest (inputBuffer cn1)"
    "readable (outputBuffer cn1) = readable (outputBuffer cn)"
    using assms(5-7,9) by (simp_all add: cn1 conn_inv_def fresh_history_def)
  have "defaultHttpCallback (request_seen t [] r) (HttpResponse_ctor (wants_close r)) = Inr ?resp"
    by (simp add: defaultHttpCallback_def)
  from message_answered [where cb = defaultHttpCallback and t = t and old = "[]", OF assms(2-4) c(1-3,5,6) this r(1), of bnd shf addr] r c h show ?thesis by auto
qed

end
