(* ===== verification/ServerEvents.thy ===== *)
theory ServerEvents
  imports HttpService EchoServer
begin

text \<open>
  A server driven by events: the base loop accepts connections, every loop runs its functors, and
  the channel of a connection calls the handlers that \<^verbatim>\<open>TcpConnection\<close> has bound to it, with the callbacks
  the server has given the connection. This is the run of a real server; theory \<open>TcpServer\<close> has
  the abstraction of it in which the owner of a connection does with it what it may.

  What is shown: for servers whose message callback acts on its connection through \<open>send\<close> and
  \<open>shutdown\<close> only, as the locale \<open>service\<close> says, the one run is an instance of the other; so the
  life-cycle invariant holds in every run of the HTTP server and of the echo server. The locale is
  interpreted on the callbacks of both.
\<close>

subsection \<open>Calls that leave the functors of a connection alone\<close>

text \<open>The functors a connection queues by itself are the application's.\<close>

definition own_functors :: "(srv_task, 'c) tcp_connection \<Rightarrow> bool" where
  "own_functors cn \<longleftrightarrow>
     (\<forall>f. writeCompleteCallback cn = Some f \<longrightarrow> f \<in> range App) \<and>
     (\<forall>f k. highWaterMarkCallback cn = Some f \<longrightarrow> f k \<in> range App)"

definition own_call :: "(srv_task, 'c, unit) conn_st \<Rightarrow> (srv_task, 'c, unit) conn_st \<Rightarrow> bool" where
  "own_call st st' \<longleftrightarrow> app_call st st' \<and>
     writeCompleteCallback (fst st') = writeCompleteCallback (fst st) \<and>
     highWaterMarkCallback (fst st') = highWaterMarkCallback (fst st)"

lemma own_call_functors: "own_call (cn, s) (cn', s') \<Longrightarrow> own_functors cn \<Longrightarrow> own_functors cn'"
  by (simp add: own_call_def own_functors_def)

lemma own_functors_setState [simp]: "own_functors (setState x cn) = own_functors cn"
  by (simp add: own_functors_def setState_def)

lemma own_call_trans:
  assumes "own_call a b" "own_call b c"
  shows "own_call a c"
  using assms app_step_trans [of a b c] by (auto simp: own_call_def app_call_def)

text \<open>A call that changes nothing of this, and the functors that are queued.\<close>

lemma own_call_same:
  assumes "reactor.more s' = reactor.more s" "conn_name cn' = conn_name cn" "conn_state cn' = conn_state cn"
    "writeCompleteCallback cn' = writeCompleteCallback cn" "highWaterMarkCallback cn' = highWaterMarkCallback cn"
  shows "own_call (cn, s) (cn', s')"
  using assms app_step_refl [of cn' cn s' s] by (simp add: own_call_def app_call_def)

lemma own_call_queue: "own_call (cn, s) (cn, queueInLoop tid (App k) s)"
  by (auto simp: own_call_def app_call_def app_step_def queueInLoop_def queue_notify_def queue_push_def wakeup_def
      intro: exI [of _ "[k]"])

lemma own_call_queue_opt:
  assumes "\<And>f. cb = Some f \<Longrightarrow> f \<in> range App"
  shows "own_call (cn, s) (cn, queue_opt tid cb s)"
  using assms by (cases cb) (auto simp: queue_opt_def own_call_queue own_call_same)

lemma own_call_log: "own_call (cn, s) (cn, log_sys e s)"
  by (rule own_call_same) (simp_all add: log_sys_def)

lemma own_call_set: "Channel_set g K c s = Inr s' \<Longrightarrow> own_call (cn, s) (cn, s')"
  by (rule own_call_same) (simp_all add: Channel_set_more)

lemma own_call_buffers:
  "own_call (cn, s) (cn\<lparr>outputBuffer := b\<rparr>, s)" "own_call (cn, s) (cn\<lparr>inputBuffer := b\<rparr>, s)"
  "own_call (cn, s) (cn\<lparr>conn_context := x\<rparr>, s)"
  by (rule own_call_same; simp)+

subsection \<open>The operations of a connection\<close>

lemma send_direct_own:
  assumes "own_functors cn" "send_direct K tid d ch (cn, s) = (nw, rem, fe, s1)"
  shows "own_call (cn, s) (cn, s1)"
proof -
  have q: "own_call (cn, t) (cn, queue_opt tid (writeCompleteCallback cn) t)" for t
    using assms(1) by (intro own_call_queue_opt) (simp add: own_functors_def)
  show ?thesis
    using assms(2) own_call_log q own_call_trans [OF own_call_log q] own_call_same [of s s cn cn]
    by (auto simp: send_direct_def Let_def split: if_splits write_ret.splits)
qed

lemma sendInLoop_own:
  assumes "own_functors cn" "sendInLoop K tid d (cn, s) = Inr (cn', s')"
  shows "own_call (cn, s) (cn', s')"
proof (cases "conn_state cn = kDisconnected")
  case True
  with assms(2) show ?thesis by (simp add: sendInLoop_def own_call_same)
next
  case False
  then obtain ch where ch: "heap s (conn_channel cn) = Some ch"
    using assms(2) by (auto simp: sendInLoop_def with_channel_def split: option.splits)
  obtain nw rem fe s1 where d: "send_direct K tid d ch (cn, s) = (nw, rem, fe, s1)"
    by (cases "send_direct K tid d ch (cn, s)") blast
  note s1 = send_direct_own [OF assms(1) d]
  show ?thesis
  proof (cases "\<not> fe \<and> rem > 0")
    case False
    with assms(2) \<open>conn_state cn \<noteq> kDisconnected\<close> ch d s1 show ?thesis
      by (auto simp: sendInLoop_def with_channel_def)
  next
    case True
    let ?n = "readableBytes (outputBuffer cn) + rem"
    let ?cb = "if ?n > highWaterMark cn \<and> readableBytes (outputBuffer cn) < highWaterMark cn
       then map_option (\<lambda>f. f ?n) (highWaterMarkCallback cn) else None"
    let ?cn = "cn\<lparr>outputBuffer := append_buf (outputBuffer cn) (take rem (drop nw d))\<rparr>"
    have "own_call (cn, s1) (cn, queue_opt tid ?cb s1)"
      using assms(1) by (intro own_call_queue_opt) (auto simp: own_functors_def split: if_splits)
    note s2 = own_call_trans [OF own_call_trans [OF s1 this] own_call_buffers(1)]
    have "cn' = ?cn \<and> (s' = queue_opt tid ?cb s1 \<or> Channel_set add_writing K (conn_channel cn) (queue_opt tid ?cb s1) = Inr s')"
      using assms(2) True d sendInLoop_queued [OF \<open>conn_state cn \<noteq> kDisconnected\<close> ch, of K tid d nw rem s1]
      by (auto simp: Let_def rbind_eq_Inr enableWriting_def split: if_split_asm)
    with s2 own_call_trans [OF s2 own_call_set] show ?thesis by blast
  qed
qed

lemma send_own:
  assumes "own_functors cn" "\<And>a k. bnd a k \<in> range App" "send K tid bnd addr d (cn, s) = Inr (cn', s')"
  shows "own_call (cn, s) (cn', s')"
proof -
  obtain k where k: "bnd addr (length d) = App k" using assms(2) [of addr "length d"] by blast
  show ?thesis
    using assms(3) sendInLoop_own [OF assms(1)] own_call_queue own_call_same [of s s cn cn]
    by (auto simp: send_def k split: if_splits)
qed

lemma send_Buffer_own:
  assumes "own_functors cn" "\<And>a k. bnd a k \<in> range App" "send_Buffer K tid bnd addr b (cn, s) = Inr (b', cn', s')"
  shows "own_call (cn, s) (cn', s')"
proof -
  obtain k where k: "bnd (addr + peek b) (readableBytes b) = App k" using assms(2) by blast
  show ?thesis
    using assms(3) sendInLoop_own [OF assms(1)] own_call_queue own_call_same [of s s cn cn]
    by (auto simp: send_Buffer_def k rbind_eq_Inr split: if_splits)
qed

lemma shutdownInLoop_own: "shutdownInLoop (cn, s) = Inr (cn', s') \<Longrightarrow> own_call (cn, s) (cn', s')"
  by (auto simp: shutdownInLoop_def with_channel_def Socket_shutdownWrite_def own_call_log own_call_same
      split: option.splits if_splits)

lemma shutdown_own:
  assumes "shf \<in> range App" "shutdown tid shf (cn, s) = Inr (cn', s')"
  shows "own_call (cn, s) (cn', s')"
proof (cases "conn_state cn = kConnected")
  case True
  let ?cn = "setState kDisconnecting cn"
  have "app_step (cn, s) (?cn, s)" by (rule app_step_refl) (simp_all add: setState_def)
  with True have "own_call (cn, s) (?cn, s)" by (simp add: own_call_def app_call_def setState_def)
  moreover have "own_call (?cn, s) (cn', s')"
    using assms True shutdownInLoop_own [of ?cn s cn' s'] by (auto simp: shutdown_def own_call_queue Let_def split: if_splits)
  ultimately show ?thesis by (rule own_call_trans)
qed (use assms(2) in \<open>simp add: shutdown_def own_call_same\<close>)

lemma handleWrite_own:
  assumes "own_functors cn" "handleWrite K tid (cn, s) = Inr (cn', s')"
  shows "own_call (cn, s) (cn', s')"
proof -
  obtain ch where ch: "heap s (conn_channel cn) = Some ch"
    using assms(2) by (auto simp: handleWrite_def with_channel_def split: option.splits)
  let ?out = "outputBuffer cn" and ?wr = "k_write K (trace s) (ch_fd ch)"
  let ?d = "mem ?out (peek ?out) (peek ?out + readableBytes ?out)"
  let ?s1 = "log_sys (SockWrite (ch_fd ch) ?d (?wr ?d)) s"
  obtain n e where n: "writeFd ?wr ?out = (n, e)" by (cases "writeFd ?wr ?out") blast
  let ?cn = "cn\<lparr>outputBuffer := retrieve ?out (nat n)\<rparr>"
  have s1: "own_call (cn, s) (cn, ?s1)" "own_call (cn, s) (?cn, ?s1)"
    using own_call_log own_call_trans [OF own_call_log own_call_buffers(1)] by blast+
  let ?q = "queue_opt tid (writeCompleteCallback cn)"
  have eq: "handleWrite K tid (cn, s) =
      (if \<not> isWriting ch then Inr (cn, s) else if \<not> n > 0 then Inr (cn, ?s1)
       else if readableBytes (outputBuffer ?cn) \<noteq> 0 then Inr (?cn, ?s1)
       else rbind (Channel_set del_writing K (conn_channel cn) ?s1) (\<lambda>s2.
         if conn_state cn = kDisconnecting then shutdownInLoop (?cn, ?q s2) else Inr (?cn, ?q s2)))"
    by (simp add: handleWrite_def with_channel_def ch n Let_def disableWriting_def)
  show ?thesis
  proof (cases "isWriting ch \<and> n > 0 \<and> readableBytes (outputBuffer ?cn) = 0")
    case False
    with assms(2) [unfolded eq] show ?thesis using s1 own_call_same [of s s cn cn] by (auto split: if_splits)
  next
    case True
    with assms(2) [unfolded eq] obtain s2 where s2: "Channel_set del_writing K (conn_channel cn) ?s1 = Inr s2"
      "(if conn_state cn = kDisconnecting then shutdownInLoop (?cn, ?q s2) else Inr (?cn, ?q s2)) = Inr (cn', s')"
      by (auto simp: rbind_eq_Inr)
    have "own_call (?cn, s2) (?cn, ?q s2)"
      using assms(1) by (intro own_call_queue_opt) (simp add: own_functors_def)
    note s3 = own_call_trans [OF own_call_trans [OF s1(2) own_call_set [OF s2(1)]] this]
    show ?thesis
      using s2(2) s3 own_call_trans [OF s3 shutdownInLoop_own] by (simp split: if_splits)
  qed
qed

subsection \<open>Events\<close>

text \<open>
  The four handlers of a connection, as its channel calls them, in the thread of its loop. \<open>MB tid\<close> are the
  callbacks in thread \<open>tid\<close>. The close callback is \<^verbatim>\<open>TcpServer::removeConnection\<close>, the last thing
  \<open>handleClose\<close> does, so it is made after it here; \<open>srv_close\<close> of theory \<open>TcpServer\<close> is the event of a hang-up.
\<close>

definition put_event ::
  "nat \<Rightarrow> nat \<Rightarrow> 'c tcp_server \<Rightarrow> (srv_task, 'c, unit) conn_st \<Rightarrow> 'c tcp_server" where
  "put_event n io w st = (case st of (cn, s) \<Rightarrow> put_conn n (cn, io) (put_loop io s w))"

definition srv_read :: "kernel \<Rightarrow> (int \<Rightarrow> 'c srv_callbacks) \<Rightarrow> timestamp \<Rightarrow> nat \<Rightarrow> 'c tcp_server \<Rightarrow> 'c tcp_server res" where
  "srv_read K MB t n w =
     with_conn n w (\<lambda>cn io. with_loop io w (\<lambda>s.
       rbind (handleRead K (setCloseCallback (Some Inr) (MB (threadId s))) t (cn, s)) (\<lambda>st.
         let w1 = put_event n io w st
         in with_channel (conn_channel cn) s (\<lambda>ch.
              if k_readv K (trace s) (ch_fd ch) (readv_room (inputBuffer cn)) = ReadGot []
              then srv_removeConnection (threadId s) n w1 else Inr w1))))"

definition srv_write :: "kernel \<Rightarrow> nat \<Rightarrow> 'c tcp_server \<Rightarrow> 'c tcp_server res" where
  "srv_write K n w =
     with_conn n w (\<lambda>cn io. with_loop io w (\<lambda>s.
       rbind (handleWrite K (threadId s) (cn, s)) (\<lambda>st. Inr (put_event n io w st))))"

definition srv_error :: "nat \<Rightarrow> 'c tcp_server \<Rightarrow> 'c tcp_server res" where
  "srv_error n w =
     with_conn n w (\<lambda>cn io. with_loop io w (\<lambda>s.
       rbind (handleError (cn, s)) (\<lambda>st. Inr (put_event n io w st))))"

text \<open>The run of a server. An event is handled for a connection whose channel is registered, so it is up.\<close>

definition is_up :: "nat \<Rightarrow> 'c tcp_server \<Rightarrow> bool" where
  "is_up n w \<longleftrightarrow> (\<exists>cn io. conns w n = Some (cn, io) \<and> conn_state cn \<in> {kConnected, kDisconnecting})"

inductive service_run :: "kernel \<Rightarrow> (int \<Rightarrow> 'c srv_callbacks) \<Rightarrow> 'c tcp_server \<Rightarrow> 'c tcp_server \<Rightarrow> bool" for K MB w0 where
  init: "service_run K MB w0 w0"
| accepts: "service_run K MB w0 w \<Longrightarrow> conns w n = None \<Longrightarrow> loops w (srv_loop w) = Some b \<Longrightarrow>
    newConnection K (MB (threadId b)) handler (threadId b) n c local ctx sockfd peer w = Inr w' \<Longrightarrow> service_run K MB w0 w'"
| task: "service_run K MB w0 w \<Longrightarrow> loops w i = Some s \<Longrightarrow> run_task K (MB (threadId s)) ok i w = Inr w' \<Longrightarrow> service_run K MB w0 w'"
| reads: "service_run K MB w0 w \<Longrightarrow> is_up n w \<Longrightarrow> srv_read K MB t n w = Inr w' \<Longrightarrow> service_run K MB w0 w'"
| writes: "service_run K MB w0 w \<Longrightarrow> is_up n w \<Longrightarrow> srv_write K n w = Inr w' \<Longrightarrow> service_run K MB w0 w'"
| errs: "service_run K MB w0 w \<Longrightarrow> is_up n w \<Longrightarrow> srv_error n w = Inr w' \<Longrightarrow> service_run K MB w0 w'"
| closes: "service_run K MB w0 w \<Longrightarrow> is_up n w \<Longrightarrow> srv_close K (MB tid) n w = Inr w' \<Longrightarrow> service_run K MB w0 w'"

text \<open>Establishing, closing and destroying depend on the connection callback only.\<close>

lemma same_connectionCallback:
  assumes "connectionCallback CB = connectionCallback CB'"
  shows "run_task K CB = run_task K CB'" "newConnection K CB = newConnection K CB'" "srv_close K CB = srv_close K CB'"
proof -
  have c: "connectEstablished K CB = connectEstablished K CB'" "connectDestroyed K CB = connectDestroyed K CB'"
    "handleClose K (CB\<lparr>closeCallback := x\<rparr>) = handleClose K (CB'\<lparr>closeCallback := x\<rparr>)" for x
    using assms by (simp_all add: connectEstablished_def connectDestroyed_def handleClose_def fun_eq_iff)
  show "run_task K CB = run_task K CB'" "newConnection K CB = newConnection K CB'" "srv_close K CB = srv_close K CB'"
    unfolding fun_eq_iff run_task_def run_established_def run_destroyed_def newConnection_def srv_close_def c by simp_all
qed

subsection \<open>The contract of a service\<close>

text \<open>Every connection, and every one to come, queues functors of the application only.\<close>

definition all_own :: "'c tcp_server \<Rightarrow> bool" where
  "all_own w \<longleftrightarrow> (\<forall>n cn io. conns w n = Some (cn, io) \<longrightarrow> own_functors cn) \<and>
     (\<forall>f. srv_writeComplete w = Some f \<longrightarrow> f \<in> range App)"

lemma all_own_put: "all_own w \<Longrightarrow> own_functors cn \<Longrightarrow> all_own (put_conn n (cn, io) (put_loop io s w))"
  by (auto simp: all_own_def put_conn_def put_loop_def split: if_splits)

lemma all_own_drop: "all_own w \<Longrightarrow> all_own (put_loop io s (w\<lparr>conns := (conns w)(n := None)\<rparr>))"
  by (simp add: all_own_def put_loop_def)

lemma all_own_frame: "all_own w \<Longrightarrow> conns w' = conns w \<Longrightarrow> srv_writeComplete w' = srv_writeComplete w \<Longrightarrow> all_own w'"
  by (simp add: all_own_def)

lemma removeConnectionInLoop_frame:
  assumes "removeConnectionInLoop tid n w = Inr w'"
  shows "conns w' = conns w" "srv_writeComplete w' = srv_writeComplete w"
  using assms
  by (auto simp: removeConnectionInLoop_def with_conn_def with_loop_def put_loop_def Let_def split: option.splits)

lemma srv_removeConnection_frame:
  assumes "srv_removeConnection tid n w = Inr w'"
  shows "conns w' = conns w" "srv_writeComplete w' = srv_writeComplete w"
  using assms removeConnectionInLoop_frame [of tid n w w']
  by (auto simp: srv_removeConnection_def with_loop_def put_loop_def split: option.splits if_splits)

lemma srv_listen_frame:
  assumes "srv_listen K ok w = Inr w'"
  shows "conns w' = conns w" "srv_writeComplete w' = srv_writeComplete w"
  using assms by (auto simp: srv_listen_def with_loop_def put_loop_def rbind_eq_Inr split: option.splits)

lemma read_nothing:
  assumes "readFd rd b = (b', n, e)"
  shows "n = 0 \<longleftrightarrow> rd (readv_room b) = ReadGot []" "n > 0 \<or> n = 0 \<or> n < 0"
  using assms by (auto simp: readFd_def readv_room_def Let_def split: read_ret.splits if_splits)

locale service =
  fixes K :: kernel and MB :: "int \<Rightarrow> 'c srv_callbacks" and cc :: "(srv_task, 'c, unit) conn_st \<Rightarrow> (srv_task, 'c, unit) conn_st res"
  assumes connects: "connectionCallback (MB tid) = Some cc"
    and connection_own: "cc (cn, s) = Inr (cn', s') \<Longrightarrow> own_call (cn, s) (cn', s')"
    and message_own: "messageCallback (MB tid) = Some g \<Longrightarrow> own_functors cn \<Longrightarrow> g t (cn, s) = Inr (cn', s') \<Longrightarrow>
      own_call (cn, s) (cn', s')"
begin

lemma service_callbacks_ok: "TcpServer.callbacks_ok (MB tid)"
  using connection_own by (auto simp: TcpServer.callbacks_ok_def connects app_ok_def own_call_def)

lemma one_callback: "connectionCallback (MB tid) = connectionCallback (MB tid')"
  by (simp add: connects)

lemma callback_call: "call_cb (connectionCallback (MB tid)) st = cc st"
  by (simp add: call_cb_def connects)

lemma established_functors:
  assumes "connectEstablished K (MB tid) (cn, s) = Inr (cn', s')" "own_functors cn"
  shows "own_functors cn'"
proof -
  obtain s1 where "call_cb (connectionCallback (MB tid)) (setState kConnected cn, s1) = Inr (cn', s')"
    using assms(1) by (auto simp: connectEstablished_def with_channel_def rbind_eq_Inr Let_def split: option.splits)
  from connection_own [OF this [unfolded callback_call]] have "own_functors (setState kConnected cn) \<Longrightarrow> own_functors cn'"
    by (rule own_call_functors)
  with assms(2) show ?thesis by simp
qed

lemma closed_functors:
  assumes "handleClose K (setCloseCallback (Some Inr) (MB tid)) (cn, s) = Inr (cn', s')" "own_functors cn"
  shows "own_functors cn'"
proof -
  obtain s1 where "call_cb (connectionCallback (MB tid)) (setState kDisconnected cn, s1) = Inr (cn', s')"
    using assms(1) by (auto simp: handleClose_def call_cb_def [of "Some Inr"] rbind_eq_Inr Let_def)
  from connection_own [OF this [unfolded callback_call]] have "own_functors (setState kDisconnected cn) \<Longrightarrow> own_functors cn'"
    by (rule own_call_functors)
  with assms(2) show ?thesis by simp
qed

lemma accept_own:
  assumes "newConnection K (MB tid) handler tid' n c local ctx sockfd peer w = Inr w'" "all_own w"
  shows "all_own w'"
proof -
  obtain next_loop pool1 where nl: "getNextLoop (srv_pool w) = (next_loop, pool1)" by (cases "getNextLoop (srv_pool w)") blast
  let ?nm = "conn_label w (nextConnId w)"
  let ?w = "w\<lparr>srv_pool := pool1, nextConnId := nextConnId w + 1, connections := AList.update ?nm n (connections w)\<rparr>"
  have w: "all_own ?w" by (rule all_own_frame [OF assms(2)]) simp_all
  obtain io cn s where c: "TcpConnection_ctor (loops w io) ?nm sockfd local peer c (handler n 0) (handler n 1) (handler n 2)
      (handler n 3) ctx = Inr (cn, s)" (is "?ctor = _")
    and r: "(let cn1 = setWriteCompleteCallback (srv_writeComplete w) cn
      in if isInLoopThread tid' s then
           rbind (connectEstablished K (MB tid) (cn1, s)) (\<lambda>(cn2, s2). Inr (put_conn n (cn2, io) (put_loop io s2 ?w)))
         else Inr (put_conn n (cn1, io) (put_loop io (queueInLoop tid' (Established n) s) ?w))) = Inr w'"
    using assms(1) by (auto simp: newConnection_def nl rbind_eq_Inr Let_def split: if_splits)
  let ?cn = "setWriteCompleteCallback (srv_writeComplete w) cn"
  have own: "own_functors ?cn"
    using c assms(2)
    by (auto simp: TcpConnection_ctor_def setWriteCompleteCallback_def own_functors_def all_own_def Let_def split: option.splits)
  show ?thesis
  proof (cases "isInLoopThread tid' s")
    case False
    with r have "w' = put_conn n (?cn, io) (put_loop io (queueInLoop tid' (Established n) s) ?w)" by (simp add: Let_def)
    with all_own_put [OF w own] show ?thesis by simp
  next
    case True
    with r obtain cn2 s2 where "connectEstablished K (MB tid) (?cn, s) = Inr (cn2, s2)"
      "w' = put_conn n (cn2, io) (put_loop io s2 ?w)" by (auto simp: Let_def rbind_eq_Inr)
    with all_own_put [OF w established_functors [OF _ own]] show ?thesis by blast
  qed
qed

lemma task_own:
  assumes "run_task K (MB tid) ok i w = Inr w'" "all_own w"
  shows "all_own w'"
proof -
  obtain s where s: "loops w i = Some s" using assms(1) by (auto simp: run_task_def with_loop_def split: option.splits)
  show ?thesis
  proof (cases "pendingFunctors s")
    case Nil
    with assms s show ?thesis by (simp add: run_task_def with_loop_def)
  next
    case (Cons f fs)
    let ?w = "put_loop i (s\<lparr>pendingFunctors := fs\<rparr>) w"
    have w: "all_own ?w" by (rule all_own_frame [OF assms(2)]) (simp_all add: put_loop_def)
    show ?thesis
    proof (cases f)
      case (Established n)
      with assms(1) s Cons obtain cn io s0 cn1 s1 where e: "conns ?w n = Some (cn, io)"
        "connectEstablished K (MB tid) (cn, s0) = Inr (cn1, s1)" "w' = put_conn n (cn1, io) (put_loop io s1 ?w)"
        by (auto simp: run_task_def run_established_def with_loop_def with_conn_def Let_def rbind_eq_Inr split: option.splits)
      from e(1) w have "own_functors cn" by (auto simp: all_own_def)
      with e(2,3) w show ?thesis by (auto intro: all_own_put established_functors)
    next
      case (Destroyed n)
      with assms(1) s Cons obtain io s1 where "w' = put_loop io s1 (?w\<lparr>conns := (conns ?w)(n := None)\<rparr>)"
        by (auto simp: run_task_def run_destroyed_def with_loop_def with_conn_def Let_def rbind_eq_Inr split: option.splits)
      with all_own_drop [OF w] show ?thesis by simp
    next
      case (RemoveInLoop n)
      with assms(1) s Cons have "removeConnectionInLoop (threadId s) n ?w = Inr w'" by (simp add: run_task_def with_loop_def)
      from removeConnectionInLoop_frame [OF this] show ?thesis by (rule all_own_frame [OF w])
    next
      case Listen
      with assms(1) s Cons have "srv_listen K ok ?w = Inr w'" by (simp add: run_task_def with_loop_def)
      from srv_listen_frame [OF this] show ?thesis by (rule all_own_frame [OF w])
    next
      case (App k)
      with assms(1) s Cons w show ?thesis by (simp add: run_task_def with_loop_def)
    qed
  qed
qed

lemma close_own:
  assumes "srv_close K (MB tid) n w = Inr w'" "all_own w"
  shows "all_own w'"
proof -
  obtain cn io s cn1 s1 where c: "conns w n = Some (cn, io)" "handleClose K (setCloseCallback (Some Inr) (MB tid)) (cn, s) = Inr (cn1, s1)"
    "srv_removeConnection (threadId s) n (put_conn n (cn1, io) (put_loop io s1 w)) = Inr w'"
    using assms(1)
    by (auto simp: srv_close_def with_conn_def with_loop_def setCloseCallback_def rbind_eq_Inr split: option.splits)
  have "own_functors cn" using c(1) assms(2) by (auto simp: all_own_def)
  then have "all_own (put_conn n (cn1, io) (put_loop io s1 w))"
    using assms(2) closed_functors [OF c(2)] by (intro all_own_put)
  then show ?thesis using srv_removeConnection_frame [OF c(3)] by (rule all_own_frame)
qed

text \<open>
  Reading is a call of the owner, or, when the peer has closed, the note that nothing was read,
  which is one, and then the close.
\<close>

lemma read_steps:
  assumes "srv_read K MB t n w = Inr w'" "all_own w"
  obtains cn io s st where "conns w n = Some (cn, io)" "loops w io = Some s" "own_call (cn, s) st" "w' = put_event n io w st"
  | cn io s cn1 s1 where "conns w n = Some (cn, io)" "loops w io = Some s" "own_call (cn, s) (cn1, s1)" "conn_state cn1 = conn_state cn"
      "srv_close K (MB 0) n (put_event n io w (cn1, s1)) = Inr w'"
proof -
  obtain cn io s where c: "conns w n = Some (cn, io)" "loops w io = Some s"
    using assms(1) by (auto simp: srv_read_def with_conn_def with_loop_def split: option.splits)
  let ?CB = "setCloseCallback (Some Inr) (MB (threadId s))"
  have own: "own_functors cn" using c(1) assms(2) by (auto simp: all_own_def)
  obtain st ch where st: "handleRead K ?CB t (cn, s) = Inr st" "heap s (conn_channel cn) = Some ch"
    "(if k_readv K (trace s) (ch_fd ch) (readv_room (inputBuffer cn)) = ReadGot []
      then srv_removeConnection (threadId s) n (put_event n io w st) else Inr (put_event n io w st)) = Inr w'"
    using assms(1) c
    by (auto simp: srv_read_def with_conn_def with_loop_def with_channel_def rbind_eq_Inr Let_def split: option.splits)
  let ?rd = "k_readv K (trace s) (ch_fd ch)"
  obtain inb k e where rd: "readFd ?rd (inputBuffer cn) = (inb, k, e)" by (cases "readFd ?rd (inputBuffer cn)") blast
  let ?cn = "cn\<lparr>inputBuffer := inb\<rparr>" and ?s = "log_sys (SockRead (ch_fd ch) (?rd (readv_room (inputBuffer cn)))) s"
  have r: "handleRead K ?CB t (cn, s) =
      (if k > 0 then (case messageCallback ?CB of None \<Rightarrow> Inl BadFunctionCall | Some cb \<Rightarrow> cb t (?cn, ?s))
       else if k = 0 then handleClose K ?CB (?cn, ?s) else handleError (?cn, ?s))"
    by (simp add: handleRead_def with_channel_def st(2) rd)
  have own1: "own_call (cn, s) (?cn, ?s)" by (rule own_call_trans [OF own_call_log own_call_buffers(2)])
  have cn1: "own_functors ?cn" by (rule own_call_functors [OF own1 own])
  show ?thesis
  proof (cases "k = 0")
    case True
    with st(1,3) r read_nothing(1) [OF rd] have h: "handleClose K ?CB (?cn, ?s) = Inr st"
      "srv_removeConnection (threadId s) n (put_event n io w st) = Inr w'" by auto
    have "threadId ?s = threadId s" by (simp add: log_sys_def)
    with h have "srv_close K (MB (threadId s)) n (put_event n io w (?cn, ?s)) = Inr w'"
      by (cases st) (simp add: srv_close_def put_event_def with_conn_def with_loop_def setCloseCallback_def
          put_conn_def put_loop_def)
    with same_connectionCallback(3) [OF one_callback, of K "threadId s" 0] c own1 that(2) show ?thesis by fastforce
  next
    case False
    have "own_call (?cn, ?s) st"
    proof (cases "k > 0")
      case True
      with st(1) r obtain g where g: "messageCallback (MB (threadId s)) = Some g" "g t (?cn, ?s) = Inr st"
        by (auto simp: setCloseCallback_def split: option.splits)
      with message_own [OF g(1) cn1, of t ?s "fst st" "snd st"] show ?thesis by simp
    next
      case False
      with st(1) r \<open>k \<noteq> 0\<close> show ?thesis by (auto simp: handleError_def with_channel_def own_call_log split: option.splits)
    qed
    moreover from st(3) False read_nothing(1) [OF rd] have "w' = put_event n io w st" by simp
    ultimately show ?thesis using that(1) [OF c own_call_trans [OF own1]] by blast
  qed
qed

lemma call_is_run:
  assumes "srv_run K (MB 0) w0 w" "all_own w" "conns w n = Some (cn, io)" "loops w io = Some s" "own_call (cn, s) st"
  shows "srv_run K (MB 0) w0 (put_event n io w st) \<and> all_own (put_event n io w st)"
proof -
  obtain cn1 s1 where st: "st = (cn1, s1)" by fastforce
  have "own_functors cn1" using assms(2,3,5) own_call_functors [of cn s cn1 s1] by (auto simp: st all_own_def)
  with srv_run.owner [OF assms(1,3,4)] all_own_put [OF assms(2)] assms(5) show ?thesis
    by (simp add: st put_event_def own_call_def)
qed

lemma close_is_run:
  assumes "srv_run K (MB 0) w0 w" "all_own w" "is_up n w" "srv_close K (MB tid) n w = Inr w'"
  shows "srv_run K (MB 0) w0 w' \<and> all_own w'"
proof -
  have "srv_close K (MB 0) n w = Inr w'" using assms(4) same_connectionCallback(3) [OF one_callback] by metis
  moreover obtain cn io where "conns w n = Some (cn, io)" "conn_state cn \<in> {kConnected, kDisconnecting}"
    using assms(3) by (auto simp: is_up_def)
  ultimately show ?thesis using srv_run.closes [OF assms(1)] close_own [OF assms(4,2)] by blast
qed

lemma read_is_run:
  assumes "srv_run K (MB 0) w0 w" "all_own w" "is_up n w" "srv_read K MB t n w = Inr w'"
  shows "srv_run K (MB 0) w0 w' \<and> all_own w'"
  using assms(4,2)
proof (cases rule: read_steps)
  case (1 cn io s st)
  then show ?thesis using call_is_run [OF assms(1,2)] by blast
next
  case (2 cn io s cn1 s1)
  let ?w = "put_event n io w (cn1, s1)"
  have "srv_run K (MB 0) w0 ?w \<and> all_own ?w" by (rule call_is_run [OF assms(1,2) 2(1-3)])
  moreover have "is_up n ?w" using assms(3) 2(1,4) by (simp add: is_up_def put_event_def put_conn_def)
  ultimately show ?thesis using close_is_run 2(5) by blast
qed

lemma write_is_run:
  assumes "srv_run K (MB 0) w0 w" "all_own w" "srv_write K n w = Inr w'"
  shows "srv_run K (MB 0) w0 w' \<and> all_own w'"
proof -
  obtain cn io s cn1 s1 where c: "conns w n = Some (cn, io)" "loops w io = Some s"
    "handleWrite K (threadId s) (cn, s) = Inr (cn1, s1)" "w' = put_event n io w (cn1, s1)"
    using assms(3) by (auto simp: srv_write_def with_conn_def with_loop_def rbind_eq_Inr split: option.splits)
  have "own_functors cn" using c(1) assms(2) by (auto simp: all_own_def)
  from call_is_run [OF assms(1,2) c(1,2) handleWrite_own [OF this c(3)]] c(4) show ?thesis by simp
qed

lemma error_is_run:
  assumes "srv_run K (MB 0) w0 w" "all_own w" "srv_error n w = Inr w'"
  shows "srv_run K (MB 0) w0 w' \<and> all_own w'"
proof -
  obtain cn io s e where c: "conns w n = Some (cn, io)" "loops w io = Some s" "w' = put_event n io w (cn, log_sys e s)"
    using assms(3) by (auto simp: srv_error_def handleError_def with_channel_def with_conn_def with_loop_def rbind_eq_Inr split: option.splits)
  from call_is_run [OF assms(1,2) c(1,2) own_call_log] c(3) show ?thesis by simp
qed

lemma service_is_run:
  assumes "service_run K MB w0 w" "all_own w0"
  shows "srv_run K (MB 0) w0 w \<and> all_own w"
  using assms(1)
proof (induction rule: service_run.induct)
  case init
  show ?case using assms(2) srv_run.init by blast
next
  case (accepts w n b handler c local ctx sockfd peer w')
  from accepts(4) same_connectionCallback(2) [OF one_callback]
  have m: "newConnection K (MB 0) handler (threadId b) n c local ctx sockfd peer w = Inr w'" by metis
  from accepts(5) have "srv_run K (MB 0) w0 w" by simp
  then have "srv_run K (MB 0) w0 w'" using accepts(2,3) m by (rule srv_run.accepts)
  with accept_own [OF accepts(4)] accepts(5) show ?case by simp
next
  case (task w i s ok w')
  from task(3) same_connectionCallback(1) [OF one_callback] have "run_task K (MB 0) ok i w = Inr w'" by metis
  with task srv_run.task task_own show ?case by blast
next
  case (reads w n t w')
  then show ?case using read_is_run by blast
next
  case (writes w n w')
  then show ?case using write_is_run by blast
next
  case (errs w n w')
  then show ?case using error_is_run by blast
next
  case (closes w n tid w')
  then show ?case using close_is_run by blast
qed

end

subsection \<open>The HTTP server and the echo server are services\<close>

lemma onRequest_own:
  assumes "own_functors cn" "\<And>a k. bnd a k \<in> range App" "shf \<in> range App"
    and "onRequest K tid bnd shf addr cb req (cn, s) = Inr (cn', s')"
  shows "own_call (cn, s) (cn', s')"
proof -
  obtain resp b1 cn1 s1 where r: "send_Buffer K tid bnd addr (appendToBuffer resp (Buffer_ctor kInitialSize)) (cn, s) = Inr (b1, cn1, s1)"
    "(if resp_closeConnection resp then shutdown tid shf (cn1, s1) else Inr (cn1, s1)) = Inr (cn', s')"
    using assms(4) by (auto simp: onRequest_def rbind_eq_Inr)
  note c = send_Buffer_own [OF assms(1,2) r(1)]
  show ?thesis using r(2) c own_call_trans [OF c shutdown_own [OF assms(3)]] by (simp split: if_splits)
qed

lemma onMessage_own:
  assumes "own_functors cn" "\<And>a k. bnd a k \<in> range App" "shf \<in> range App"
    and "onMessage K tid bnd shf addr cb t (cn, s) = Inr (cn', s')"
  shows "own_call (cn, s) (cn', s')"
proof -
  obtain cx where x: "conn_context cn = Some cx" using assms(4) by (auto simp: onMessage_def split: option.splits)
  obtain ok ctx1 buf1 where p: "parseRequest t cx (inputBuffer cn) = Some (Inr (ok, ctx1, buf1))"
    using assms(4) x by (auto simp: onMessage_def split: option.splits sum.splits)
  let ?cn = "cn\<lparr>inputBuffer := buf1, conn_context := Some ctx1\<rparr>"
  have c: "own_call (cn, s) (?cn, s)" by (rule own_call_same) simp_all
  have sent: "own_call (?cn, s) st2" if "(if \<not> ok then rbind (send K tid bnd addr bad_request_msg (?cn, s)) (shutdown tid shf)
      else Inr (?cn, s)) = Inr st2" for st2
  proof (cases ok)
    case True
    with that own_call_same [of s s ?cn ?cn] show ?thesis by auto
  next
    case False
    with that obtain cn1 s1 where "send K tid bnd addr bad_request_msg (?cn, s) = Inr (cn1, s1)"
      "shutdown tid shf (cn1, s1) = Inr (fst st2, snd st2)" by (auto simp: rbind_eq_Inr)
    from own_call_trans [OF send_own [OF own_call_functors [OF c assms(1)] assms(2) this(1)] shutdown_own [OF assms(3) this(2)]]
    show ?thesis by simp
  qed
  obtain st2 where st2: "(if \<not> ok then rbind (send K tid bnd addr bad_request_msg (?cn, s)) (shutdown tid shf)
      else Inr (?cn, s)) = Inr st2"
    "(if gotAll ctx1 then rbind (onRequest K tid bnd shf addr cb (ctx_request ctx1) st2) (\<lambda>(cn3, s3).
        Inr (setContext (Some (reset_ctx ctx1)) cn3, s3)) else Inr st2) = Inr (cn', s')"
    using assms(4) unfolding onMessage_def by (auto simp: x p Let_def rbind_eq_Inr)
  note c2 = own_call_trans [OF c sent [OF st2(1)]]
  show ?thesis
  proof (cases "gotAll ctx1")
    case False
    with st2(2) c2 show ?thesis by simp
  next
    case True
    with st2(2) obtain cn3 where r: "onRequest K tid bnd shf addr cb (ctx_request ctx1) st2 = Inr (cn3, s')"
      "cn' = setContext (Some (reset_ctx ctx1)) cn3" by (auto simp: rbind_eq_Inr)
    have f: "own_functors (fst st2)" using own_call_functors [of cn s "fst st2" "snd st2"] c2 assms(1) by simp
    from r(1) have "onRequest K tid bnd shf addr cb (ctx_request ctx1) (fst st2, snd st2) = Inr (cn3, s')" by simp
    from onRequest_own [OF f assms(2,3) this] have "own_call st2 (cn3, s')" by simp
    from own_call_trans [OF own_call_trans [OF c2 this] own_call_buffers(3)] r(2) show ?thesis by (simp add: setContext_def)
  qed
qed

lemma echo_onMessage_own:
  assumes "own_functors cn" "\<And>a k. bnd a k \<in> range App" "echo_onMessage K tid bnd addr t (cn, s) = Inr (cn', s')"
  shows "own_call (cn, s) (cn', s')"
proof -
  obtain d b where d: "send K tid bnd addr d (cn\<lparr>inputBuffer := b\<rparr>, s) = Inr (cn', s')"
    using assms(3) by (auto simp: echo_onMessage_def rbind_eq_Inr)
  note c = own_call_buffers(2) [of cn s b]
  show ?thesis by (rule own_call_trans [OF c send_own [OF own_call_functors [OF c assms(1)] assms(2) d]])
qed

interpretation http_service: service K "\<lambda>tid. http_callbacks K tid (\<lambda>a k. App (b a k)) (App sh) addr h" onConnection
  for K b sh addr h
proof
  fix tid t g and cn cn' :: "(srv_task, http_context option) tcp_connection" and s s'
  show "connectionCallback (http_callbacks K tid (\<lambda>a k. App (b a k)) (App sh) addr h) = Some onConnection"
    by (simp add: http_callbacks_def)
  show "own_call (cn, s) (cn', s')" if "onConnection (cn, s) = Inr (cn', s')"
    using that own_call_buffers(3) own_call_same [of s s cn cn]
    by (auto simp: onConnection_def setContext_def split: if_splits)
  show "own_call (cn, s) (cn', s')"
    if "messageCallback (http_callbacks K tid (\<lambda>a k. App (b a k)) (App sh) addr h) = Some g" "own_functors cn"
      "g t (cn, s) = Inr (cn', s')"
    using that onMessage_own [OF that(2), of "\<lambda>a k. App (b a k)" "App sh"] by (auto simp: http_callbacks_def)
qed

interpretation echo_service: service K "\<lambda>tid. echo_callbacks K tid (\<lambda>a k. App (b a k)) addr q" echo_onConnection
  for K b addr q
proof
  fix tid t g and cn cn' :: "(srv_task, 'c) tcp_connection" and s s'
  show "connectionCallback (echo_callbacks K tid (\<lambda>a k. App (b a k)) addr q) = Some echo_onConnection"
    by (simp add: echo_callbacks_def setCloseCallback_def)
  show "own_call (cn, s) (cn', s')" if "echo_onConnection (cn, s) = Inr (cn', s')"
    using that own_call_same [of s s cn cn] by (simp add: echo_onConnection_returns)
  show "own_call (cn, s) (cn', s')"
    if "messageCallback (echo_callbacks K tid (\<lambda>a k. App (b a k)) addr q) = Some g" "own_functors cn"
      "g t (cn, s) = Inr (cn', s')"
    using that echo_onMessage_own [OF that(2), of "\<lambda>a k. App (b a k)"] by (auto simp: echo_callbacks_def setCloseCallback_def)
qed

subsection \<open>The life of a service\<close>

lemma started_all_own:
  assumes "TcpServer_ctor (Some base) ls la name opt fd bind_ok c rd = Inr w1"
    and "srv_start K tid listen_ok new_at fresh cb (srv_setThreadNum k w1) = Inr w0"
  shows "all_own w0"
proof -
  have "all_own w1" using assms(1)
    by (auto simp: TcpServer_ctor_def rbind_eq_Inr all_own_def split: option.splits)
  moreover have "conns w0 = conns w1 \<and> srv_writeComplete w0 = srv_writeComplete w1"
    using assms(2)
    by (auto simp: srv_start_def srv_setThreadNum_def with_loop_def put_loop_def Let_def
        split: option.splits if_splits dest: srv_listen_frame)
  ultimately show ?thesis using all_own_frame by blast
qed

text \<open>
  C2: the HTTP server keeps its connections in order whatever happens on the network. It is constructed,
  given an application's callback, whatever that answers, and a number of threads, and started; then the
  base loop accepts connections, the loops run their functors, and the channels of the connections call
  their handlers: requests are parsed, answered and refused, output is flushed, peers hang up. At every
  moment a queued call refers to a connection that exists and is in the state the call needs, and is queued
  once and on the right loop; the map holds the connections that are not disconnected and no connection
  that does not exist; names are not used twice.
\<close>

theorem http_service_life:
  assumes "\<forall>i s. ls i = Some s \<longrightarrow> idle s" "\<forall>i. idle (fresh i)"
    and "HttpServer_ctor (Some base) ls la name opt fd bind_ok c rd = Inr h1"
    and "HttpServer_start K tid listen_ok new_at fresh has_cb (hs_setThreadNum k (hs_setHttpCallback hcb h1)) = Inr h"
    and "service_run K (\<lambda>tid. http_callbacks K tid (\<lambda>a l. App (b a l)) (App sh) addr h) (hs_server h) w"
  shows "(\<forall>i s n. loops w i = Some s \<longrightarrow> queue_ok w i (count_list (pendingFunctors s)) n) \<and>
    (\<forall>nm n. (nm, n) \<in> set (connections w) \<longrightarrow> (\<exists>cn io. conns w n = Some (cn, io) \<and> conn_name cn = nm)) \<and>
    (\<forall>n cn io. conns w n = Some (cn, io) \<and> conn_state cn \<noteq> kDisconnected \<longrightarrow> (conn_name cn, n) \<in> set (connections w)) \<and>
    distinct (map fst (connections w)) \<and> conn_label w (nextConnId w) \<notin> fst ` set (connections w)"
proof -
  obtain w1 where w1: "TcpServer_ctor (Some base) ls la name opt fd bind_ok c rd = Inr w1"
    "srv_start K tid listen_ok new_at fresh has_cb (srv_setThreadNum k w1) = Inr (hs_server h)"
    using assms(3,4)
    by (auto simp: HttpServer_ctor_def HttpServer_start_def hs_setThreadNum_def hs_setHttpCallback_def rbind_eq_Inr)
  have "srv_run K (http_callbacks K 0 (\<lambda>a l. App (b a l)) (App sh) addr h) (hs_server h) w"
    using http_service.service_is_run [OF assms(5) started_all_own [OF w1]] by simp
  from server_run_inv [OF http_callbacks_server_ok assms(1,2) w1 this] show ?thesis by (rule srv_inv_facts)
qed

theorem http_service_life_witness:
  "\<exists>h w. service_run ideal_kernel (\<lambda>tid. http_callbacks ideal_kernel tid (\<lambda>a l. App l) (App 1) 0 h) (hs_server h) w \<and>
     connections w = [(conn_label w 1, 3)] \<and>
     (\<exists>s. loops w 1 = Some s \<and> queue_ok w 1 (count_list (pendingFunctors s)) 3 \<and> 0 < count_list (pendingFunctors s) (Established 3)) \<and>
     conn_label w (nextConnId w) \<notin> fst ` set (connections w)"
proof -
  let ?cb = "\<lambda>h tid. http_callbacks ideal_kernel tid (\<lambda>a l. App l) (App 1) 0 h"
  obtain w1 w0 w b s where a:
    "TcpServer_ctor (Some 0) demo_loops demo_addr ''srv'' False 9 True 1 (App 2) = Inr w1"
    "srv_start ideal_kernel 7 True (\<lambda>i. Suc i) demo_fresh False (srv_setThreadNum 1 w1) = Inr w0"
    "conns w0 3 = None" "loops w0 (srv_loop w0) = Some b"
    "newConnection ideal_kernel (?cb \<lparr>hs_server = w0, httpCallback = None\<rparr> 0) (\<lambda>n k. App k) (threadId b) 3 5 demo_addr None 11 demo_addr w0 = Inr w"
    "connections w = [(conn_label w 1, 3)]" "loops w 1 = Some s" "0 < count_list (pendingFunctors s) (Established 3)"
    by (rule demo_accept [of "?cb \<lparr>hs_server = undefined, httpCallback = None\<rparr> 0" None]) (simp add: http_callbacks_def)
  let ?h = "\<lparr>hs_server = w0, httpCallback = None\<rparr>"
  have h: "HttpServer_ctor (Some 0) demo_loops demo_addr ''srv'' False 9 True 1 (App 2) = Inr \<lparr>hs_server = w1, httpCallback = Some defaultHttpCallback\<rparr>"
    "HttpServer_start ideal_kernel 7 True (\<lambda>i. Suc i) demo_fresh False
       (hs_setThreadNum 1 (hs_setHttpCallback None \<lparr>hs_server = w1, httpCallback = Some defaultHttpCallback\<rparr>)) = Inr ?h"
    using a(1,2) by (simp_all add: HttpServer_ctor_def HttpServer_start_def hs_setThreadNum_def hs_setHttpCallback_def)
  have "newConnection ideal_kernel (?cb ?h (threadId b)) = newConnection ideal_kernel (?cb ?h 0)"
    by (rule same_connectionCallback(2)) (rule http_service.one_callback)
  with a(5) have "newConnection ideal_kernel (?cb ?h (threadId b)) (\<lambda>n k. App k) (threadId b) 3 5 demo_addr None 11 demo_addr w0 = Inr w"
    by simp
  with service_run.accepts [where MB = "?cb ?h", OF service_run.init a(3,4)] have r: "service_run ideal_kernel (?cb ?h) w0 w" by blast
  from http_service_life [OF demo_srv_sound(1,2) h, of "\<lambda>a l. l" 1 0 w] r a(6-8) show ?thesis
    by (intro exI [of _ ?h] exI [of _ w]) auto
qed

text \<open>The same holds of the example server, whose threads are set by its constructor.\<close>

theorem echo_service_life:
  assumes "\<forall>i s. ls i = Some s \<longrightarrow> idle s" "\<forall>i. idle (fresh i)"
    and "EchoServer_ctor (Some base) ls la name fd bind_ok c rd = Inr w1" "EchoServer_start K tid listen_ok new_at fresh w1 = Inr w0"
    and "service_run K (\<lambda>tid. echo_callbacks K tid (\<lambda>a l. App (b a l)) addr q) w0 w" "loops w i = Some s"
  shows "queue_ok w i (count_list (pendingFunctors s)) n"
proof -
  obtain w2 where w2: "TcpServer_ctor (Some base) ls la name False fd bind_ok c rd = Inr w2"
    "srv_start K tid listen_ok new_at fresh False (srv_setThreadNum 1 w2) = Inr w0"
    using assms(3,4) by (auto simp: EchoServer_ctor_def EchoServer_start_def rbind_eq_Inr)
  have "srv_run K (echo_callbacks K 0 (\<lambda>a l. App (b a l)) addr q) w0 w"
    using echo_service.service_is_run [OF assms(5) started_all_own [OF w2]] by simp
  from srv_inv_facts [OF server_run_inv [OF echo_service.service_callbacks_ok assms(1,2) w2 this]] assms(6) show ?thesis by blast
qed

end
