(* ===== verification/CurrentThread.thy ===== *)
theory CurrentThread
  imports EventLoop
begin

text \<open>
  The cached thread id (\<^verbatim>\<open>src/CurrentThread.h\<close>, \<^verbatim>\<open>CurrentThread.cpp\<close>): a thread-local variable, so a
  value for every thread, 0 until the thread first asks. \<open>gettid\<close> is what the system call
  returns in a thread; the field \<open>gettid_calls\<close> lists the threads that have made it, for the
  statements only.

  What is shown: the cache is transparent, each thread makes the system call once, and with it
  \<open>isInLoopThread\<close>, on which every operation that may be called from any thread decides, is true
  exactly in the thread that made the loop. The other theories therefore take the id of the
  calling thread as an argument.
\<close>

record thread_ids =
  t_cachedTid :: "nat \<Rightarrow> int"
  gettid_calls :: "nat list"

definition thread_ids_init :: thread_ids where
  "thread_ids_init = \<lparr>t_cachedTid = (\<lambda>_. 0), gettid_calls = []\<rparr>"

definition cacheTid :: "(nat \<Rightarrow> int) \<Rightarrow> nat \<Rightarrow> thread_ids \<Rightarrow> thread_ids" where
  "cacheTid gettid th s =
     (if t_cachedTid s th = 0
      then s\<lparr>t_cachedTid := (t_cachedTid s)(th := gettid th), gettid_calls := gettid_calls s @ [th]\<rparr> else s)"

definition CurrentThread_tid :: "(nat \<Rightarrow> int) \<Rightarrow> nat \<Rightarrow> thread_ids \<Rightarrow> int \<times> thread_ids" where
  "CurrentThread_tid gettid th s =
     (let s1 = (if t_cachedTid s th = 0 then cacheTid gettid th s else s) in (t_cachedTid s1 th, s1))"

fun ask_all :: "(nat \<Rightarrow> int) \<Rightarrow> nat list \<Rightarrow> thread_ids \<Rightarrow> int list \<times> thread_ids" where
  "ask_all gettid [] s = ([], s)"
| "ask_all gettid (th # ths) s =
     (case CurrentThread_tid gettid th s of (i, s1) \<Rightarrow>
      case ask_all gettid ths s1 of (is, s2) \<Rightarrow> (i # is, s2))"

text \<open>A thread has its own id in the cache once it has asked, and 0 before.\<close>

definition cache_ok :: "(nat \<Rightarrow> int) \<Rightarrow> thread_ids \<Rightarrow> bool" where
  "cache_ok gettid s \<longleftrightarrow> distinct (gettid_calls s) \<and>
     (\<forall>th. t_cachedTid s th = (if th \<in> set (gettid_calls s) then gettid th else 0))"

lemma cache_ok_init: "cache_ok gettid thread_ids_init"
  by (simp add: cache_ok_def thread_ids_init_def)

lemma tid_ok:
  assumes "cache_ok gettid s" "gettid th \<noteq> 0"
  shows "fst (CurrentThread_tid gettid th s) = gettid th" "cache_ok gettid (snd (CurrentThread_tid gettid th s))"
    "set (gettid_calls (snd (CurrentThread_tid gettid th s))) = insert th (set (gettid_calls s))"
  using assms by (auto simp: CurrentThread_tid_def cacheTid_def cache_ok_def)

lemma ask_all_ok:
  assumes "cache_ok gettid s" "0 \<notin> range gettid"
  shows "fst (ask_all gettid ths s) = map gettid ths" "cache_ok gettid (snd (ask_all gettid ths s))"
    "set (gettid_calls (snd (ask_all gettid ths s))) = set ths \<union> set (gettid_calls s)"
proof -
  have nz: "gettid th \<noteq> 0" for th using assms(2) by (metis rangeI)
  have "fst (ask_all gettid ths s) = map gettid ths \<and> cache_ok gettid (snd (ask_all gettid ths s)) \<and>
    set (gettid_calls (snd (ask_all gettid ths s))) = set ths \<union> set (gettid_calls s)"
    using assms(1)
  proof (induction ths arbitrary: s)
    case (Cons th ths)
    note t = tid_ok [OF Cons.prems nz]
    from Cons.IH [OF t(2) [of th]] t(1,3) [of th] show ?case by (simp add: case_prod_beta)
  qed simp
  then show "fst (ask_all gettid ths s) = map gettid ths" "cache_ok gettid (snd (ask_all gettid ths s))"
    "set (gettid_calls (snd (ask_all gettid ths s))) = set ths \<union> set (gettid_calls s)" by auto
qed

text \<open>A loop keeps the id of the thread that made it.\<close>

lemma EventLoop_ctor_threadId:
  assumes "EventLoop_ctor K use_poll epollfd evtfd other tid c read_cb = Inr el"
  shows "threadId el = tid"
proof -
  obtain s where "enableReading K c s = Inr el" "threadId s = tid"
    using assms by (auto simp: EventLoop_ctor_def rbind_eq_Inr Let_def new_channel_def event_loop.defs reactor.extend_def
        split: if_splits option.splits)
  then have "threadId s = tid" "reactor.more el = reactor.more s"
    using Channel_set_more by (auto simp: enableReading_def)
  then show ?thesis by (cases s; cases el) simp
qed

text \<open>
  C34: the cache is transparent and spares the system call. Whatever the order in which threads ask
  for their ids, each answer is the id the kernel gives that thread, the system call is made exactly once
  by every thread that has asked, and a loop that was made by thread \<open>th\<close> among them finds
  itself in its own thread exactly in that thread.
\<close>

theorem thread_ids_exact:
  assumes "inj gettid" "0 \<notin> range gettid"
    and "ask_all gettid ths thread_ids_init = (ids, s)"
    and "EventLoop_ctor K use_poll epollfd evtfd other (fst (CurrentThread_tid gettid th s)) c read_cb = Inr el"
  shows "ids = map gettid ths \<and> distinct (gettid_calls s) \<and> set (gettid_calls s) = set ths \<and>
    (isInLoopThread (fst (CurrentThread_tid gettid caller s)) el \<longleftrightarrow> caller = th)"
proof -
  note a = ask_all_ok [OF cache_ok_init assms(2), of ths, unfolded assms(3), simplified]
  have nz: "gettid t \<noteq> 0" for t using assms(2) by (metis rangeI)
  have "threadId el = gettid th"
    using EventLoop_ctor_threadId [OF assms(4)] tid_ok(1) [OF a(2) nz, of th] by simp
  then have "isInLoopThread (fst (CurrentThread_tid gettid caller s)) el \<longleftrightarrow> caller = th"
    using tid_ok(1) [OF a(2) nz, of caller] inj_eq [OF assms(1)] by (auto simp: isInLoopThread_def)
  with a show ?thesis by (simp add: cache_ok_def thread_ids_init_def)
qed

theorem thread_ids_exact_witness:
  "ask_all (\<lambda>th. int th + 100) [2, 0, 2, 1, 0] thread_ids_init = ([102, 100, 102, 101, 100], snd (ask_all (\<lambda>th. int th + 100) [2, 0, 2, 1, 0] thread_ids_init)) \<and>
   \<not> isInLoopThread (fst (CurrentThread_tid (\<lambda>th. int th + 100) 1 (snd (ask_all (\<lambda>th. int th + 100) [2, 0, 2, 1, 0] thread_ids_init))))
     (new_loop 4 102 0 (7 :: nat))"
proof -
  let ?g = "\<lambda>th. int th + 100"
  let ?s = "snd (ask_all ?g [2, 0, 2, 1, 0] thread_ids_init)"
  have inj: "inj ?g" and nz: "0 \<notin> range ?g" by (auto simp: inj_def)
  have run: "ask_all ?g [2, 0, 2, 1, 0] thread_ids_init = ([102, 100, 102, 101, 100], ?s)"
    by (simp add: thread_ids_init_def CurrentThread_tid_def cacheTid_def Let_def)
  have "fst (CurrentThread_tid ?g 2 ?s) = 102"
    by (simp add: thread_ids_init_def CurrentThread_tid_def cacheTid_def Let_def)
  then have "EventLoop_ctor ideal_kernel False 3 4 False (fst (CurrentThread_tid ?g 2 ?s)) 0 (7 :: nat) = Inr (new_loop 4 102 0 7)"
    using EventLoop_ctor_new [OF ideal_kernel_sound(1), of 3 4 102 0 "7 :: nat"] by simp
  from thread_ids_exact [OF inj nz run this, of 1] run show ?thesis by simp
qed

end
