(* ===== verification/Spec2Isabelle.thy ===== *)
theory Spec2Isabelle
  imports HttpClient ChatClient ServerEvents ServerEnd CurrentThread
begin

text \<open>
  A verification development of swiftNetCore, a C++ network library in the reactor style: one
  event loop per thread, buffers and connections on top of it, a TCP server and a TCP client, an
  HTTP server and an HTTP client on top of these, and a logger.

  \<^bold>\<open>The program.\<close> An \<^verbatim>\<open>EventLoop\<close> (\<^verbatim>\<open>src/EventLoop.cpp\<close>) waits in its \<^verbatim>\<open>EpollPoller\<close> for descriptors, calls
  the \<^verbatim>\<open>Channel\<close> of each that is ready and then runs the functors other threads have queued. A
  \<^verbatim>\<open>TcpServer\<close> owns an \<^verbatim>\<open>Acceptor\<close> on its base loop and a pool of loop threads; each accepted socket
  becomes a \<^verbatim>\<open>TcpConnection\<close> on a loop of the pool. A \<^verbatim>\<open>TcpClient\<close> owns a \<^verbatim>\<open>Connector\<close>, which makes the
  socket of its one connection and tries again after a failure by a timer of the loop. The
  callbacks of a connection are what \<^verbatim>\<open>HttpServer\<close>, \<^verbatim>\<open>HttpClient\<close> and the two examples consist of:
  they parse the input buffer (\<^verbatim>\<open>HttpContext\<close>), and print to the output (\<^verbatim>\<open>HttpResponse\<close>).

  \<^bold>\<open>How it is modelled.\<close> A class is a record of its members. A loop's state is an extensible record:
  \<open>reactor\<close> (poller, channels, trace of system calls), extended by \<open>event_loop\<close>, this by
  \<open>client_loop\<close> (history that no operation reads), this by \<open>tcp_client\<close>, and this by \<open>http_client\<close>
  and \<open>chat_client\<close>, so that a callback of a connection acts on the members of its owner.
  Objects that are shared (channels, timers, connections) have addresses or numbers, and a
  pointer to a deleted one is a fault. An operation returns \<open>Inl\<close> of a \<open>fault\<close> (a failed
  assertion, a null or dangling pointer, the end of the process) or \<open>Inr\<close> of the new state.
  The operating system is a parameter: a \<open>kernel\<close> answers each call from the trace so far, and what
  a theorem needs of it is a named predicate (\<open>ctl_sound\<close>, \<open>write_sound\<close>, \<open>read_sound\<close>,
  \<open>never_reset\<close>), which the witnesses instantiate by concrete kernels.
  Threads are interleavings of steps: \<open>loop_step\<close>, \<open>pool_step\<close>, \<open>logger_step\<close>, \<open>hs_step\<close>,
  \<open>srv_run\<close>, \<open>service_run\<close>; a step is what a thread does under one lock or between two. A loop that may
  not end is \<open>run_loop\<close> or another partial function to an option, and a claim that it returns is
  proved as such; there is no fuel in the development.

  \<^bold>\<open>The theories,\<close> from the bottom up, with what each shows.

  \<^item> \<open>Prelude\<close>, \<open>Loop\<close>, \<open>StdMap\<close>: results, the standard functions the sources call, the parsers'
    loop with its contract \<open>progress_loop\<close>, the header map with its contract \<open>header_table\<close>.
  \<^item> \<open>Delivery\<close>: the specification of a queue between threads, what is handed in comes out once and in
    order, and the contract \<open>delivery\<close> by which an implementation under interleaving refines it.
  \<^item> \<open>Buffer\<close> (\<^verbatim>\<open>Buffer.h\<close>, \<^verbatim>\<open>Buffer.cpp\<close>): the index invariant, and refinement of a byte queue, by the
    contract \<open>byte_fifo\<close>; a bound of its memory by the bytes it has to hold.
  \<^item> \<open>HttpRequest\<close>, \<open>HttpResponse\<close>, \<open>HttpContext\<close> (\<^verbatim>\<open>src/http\<close>): the bytes of a printed response, the
    grammar of request lines, the round trip of requests, exactly when the parser of requests
    does not return, and that both parsers keep the types of buffer and context.
  \<^item> \<open>Kernel\<close>, \<open>Channel\<close>, \<open>Poller\<close> (\<^verbatim>\<open>Channel.cpp\<close>, \<^verbatim>\<open>Poller.cpp\<close>, \<^verbatim>\<open>EpollPoller.cpp\<close>, \<^verbatim>\<open>DefaultPoller.cpp\<close>):
    which callbacks an event mask invokes; map, channels and kernel agree in every run, and
    \<open>epoll_ctl\<close> never fails. The contract \<open>registry\<close> is what the owners of channels rely on.
  \<^item> \<open>EventLoop\<close>, \<open>CurrentThread\<close> (\<^verbatim>\<open>EventLoop.cpp\<close>, \<^verbatim>\<open>CurrentThread.cpp\<close>): functors run exactly once, in order (a
    \<open>delivery\<close>), and never wait behind a sleeping loop; the test for the loop's own thread is exact.
  \<^item> \<open>Timer\<close>, \<open>TimerQueue\<close> (\<^verbatim>\<open>Timestamp.cpp\<close>, \<^verbatim>\<open>Timer.cpp\<close>, \<^verbatim>\<open>TimerId.h\<close>, \<^verbatim>\<open>TimerQueue.cc\<close>): which timers fire,
    what cancelling does, and that timers fire a million times too late.
  \<^item> \<open>InetAddress\<close>, \<open>SocketsOps\<close>, \<open>Socket\<close> (\<^verbatim>\<open>Endian.h\<close>, \<^verbatim>\<open>InetAddress.cpp\<close>, \<^verbatim>\<open>SocketsOps.cpp\<close>, \<^verbatim>\<open>Socket.cpp\<close>): round
    trip of addresses, the agreement of the two printers, the calls on sockets.
  \<^item> \<open>TcpConnection\<close> (\<^verbatim>\<open>TcpConnection.cpp\<close>): for all callbacks of the owner, the byte streams are exact,
    the shutdown comes after the last byte, and no handler faults.
  \<^item> \<open>Acceptor\<close>, \<open>EventLoopThreadPool\<close>, \<open>TcpServer\<close> (\<^verbatim>\<open>Acceptor.cpp\<close>, \<^verbatim>\<open>Thread.cpp\<close>, \<^verbatim>\<open>EventLoopThread.cpp\<close>,
    \<^verbatim>\<open>EventLoopThreadPool.cpp\<close>, \<^verbatim>\<open>TcpServer.cpp\<close>): the life of the acceptor, the start of a loop's thread,
    the balance of the pool, the life cycle of every connection of a server over all its loops.
    \<open>ServerEnd\<close>: what the destructor of a server leaves to each loop.
  \<^item> \<open>Connector\<close>, \<open>TcpClient\<close> (\<^verbatim>\<open>Connector.cpp\<close>, \<^verbatim>\<open>TcpClient.cpp\<close>): every socket of a connector is watched,
    handed over or closed; what keeps the connections of a client alive. The contract
    \<open>connector_call\<close> is what the client relies on in each call of the connector.
  \<^item> \<open>HttpServer\<close>, \<open>HttpService\<close>, \<open>ThreadPool\<close>, \<open>HttpClient\<close> (\<^verbatim>\<open>src/http\<close>): requests and responses on
    connections, the tasks of the client's thread pool and the end of its destructor.
  \<^item> \<open>AsyncLogger\<close>, \<open>Logger\<close> (\<^verbatim>\<open>AsyncLogger.h\<close>, \<^verbatim>\<open>Logger.h\<close>, \<^verbatim>\<open>Logger.cpp\<close>): nothing is lost or reordered between
    \<open>log\<close> and the file, and which messages are written at all.
  \<^item> \<open>EchoServer\<close>, \<open>ChatClient\<close> (\<^verbatim>\<open>example/testserver.cpp\<close>, \<^verbatim>\<open>example/tcpclient.cpp\<close>): the two programs of the
    repository, put together from the components: the server echoes, the client and the server
    hold their dialogue, and how each program starts or fails to.
  \<^item> \<open>ServerEvents\<close>: servers driven by the events of their connections. By the contract \<open>service\<close> the run
    of a real server, whose handlers parse, answer, flush and close, is a run of \<open>TcpServer\<close>'s
    abstraction, so the life-cycle invariant holds of the HTTP server and of the echo server.
  \<^item> This theory: an HTTP request and its response, from the client's queue through the server to the
    client's callback.

  Every contract is a locale and is interpreted on the definitions of the component that
  provides it: \<open>byte_fifo\<close> on the buffer, \<open>progress_loop\<close> on both parsers, \<open>header_table\<close> on requests and
  responses, \<open>registry\<close> on the poller, \<open>connector_call\<close> on the six calls of the connector, \<open>delivery\<close> on the functors of
  a loop, the tasks of the thread pool and the text of the asynchronous log, \<open>service\<close> on the callbacks
  of the HTTP server and of the echo server.

  \<^bold>\<open>Numbers.\<close> Event masks, ports and addresses are words. A \<^verbatim>\<open>size_t\<close> that counts bytes of storage that
  exists is a natural number; where an \<^verbatim>\<open>int\<close> becomes a \<^verbatim>\<open>size_t\<close> or text becomes an \<^verbatim>\<open>int\<close>, the conversion
  is written out (\<open>int_to_size\<close>, \<open>atoi\<close>, \<open>to_int32\<close>). A \<^verbatim>\<open>double\<close> number of seconds is a rational. Bounds
  that the statements carry (a body shorter than \<open>10 ^ 13\<close>, fewer than \<open>2 ^ 31 - 1\<close> connections)
  are those under which the fixed arrays and counters of the sources are exact.

  \<^bold>\<open>Defects.\<close> Where the sources do not do what they mean to, the model has the behaviour of the code and
  a theorem states it: timers count seconds as microseconds and no loop has a timer queue;
  an incomplete body makes the parser spin; a request inherits the body of the one before it; a
  response in two pieces is lost; a client's connection is never destroyed; a queued reset
  destroys a new channel; a destroyed server is named by functors it leaves behind; and others, at the theorems that state them.

  \<^bold>\<open>Not modelled.\<close> \<^verbatim>\<open>Callback.h\<close> (aliases of function types), \<^verbatim>\<open>Types.h\<close> (casts and \<^verbatim>\<open>memset\<close>), \<^verbatim>\<open>noncopyable.h\<close>:
  they have no state and no behaviour of their own. Declarations of headers whose bodies are elsewhere, and methods that
  only return a member, are the fields of the records. The one-line wrappers of \<^verbatim>\<open>read\<close>,
  \<^verbatim>\<open>readv\<close>, \<^verbatim>\<open>write\<close> in \<^verbatim>\<open>SocketsOps.cpp\<close>, which nothing calls, and the code compiled for Valgrind only. The text of most log
  messages, which no operation reads. The programs under \<^verbatim>\<open>src/http/test\<close>, and the build files.
\<close>

section \<open>Client and server together\<close>

text \<open>What a server's parser makes of the bytes of a request made by \<open>get\<close> or \<open>post\<close>.\<close>

lemma printed_request_arrives:
  assumes "path_ok path" "CHR 0x0D \<notin> set ct" "trimmed ct" "length body < 2 ^ 31"
    and "make_get path = Inr r \<or> make_post path body ct = Inr r"
    and "buffer_inv b" "readable b = readable (print_request r)"
  shows "request_arrived r [] b"
proof -
  have "readable b = request_head r @ req_body r @ []" using assms(7) print_request_bytes(2) [of r] by simp
  with assms show ?thesis using make_get_arrives make_post_arrives by blast
qed

text \<open>
  C18: a request and its response, from end to end. If the bytes that \<open>HttpClient::sendRequest\<close> prints
  for a request made by \<open>get\<close> or \<open>post\<close> have arrived at a live connection of an HTTP server, the
  server's \<open>onMessage\<close> returns, and if everything it then has for the socket arrives in one piece at
  a client, that client's response callback is called once, with the status and the body of the
  response the server's application made for exactly this request.
\<close>

theorem http_round_trip:
  assumes "ctl_sound K" "write_sound K" "never_reset K"
    and "conn_inv (cn, s)" "fresh_history (cn, s)" "conn_state cn = TcpConnection.kConnected"
    and "conn_context cn = Some (ready_ctx old)" "readable (outputBuffer cn) = []"
    and "path_ok path" "CHR 0x0D \<notin> set ct" "trimmed ct" "length body < 2 ^ 31"
    and "make_get path = Inr r \<or> make_post path body ct = Inr r"
    and "readable (inputBuffer cn) = readable (print_request r)"
    and "cb (request_seen t old r) (HttpResponse_ctor (wants_close r)) = Inr resp"
    and "wf_response resp" "length (resp_body resp) < 10 ^ 13"
  shows "\<exists>cn' s'. onMessage K (threadId s) bnd shf addr (Some cb) t (cn, s) = Inr (cn', s') \<and>
    (\<forall>cc cs f. buffer_inv (inputBuffer cc) \<and>
       readable (inputBuffer cc) = sent (conn_fd cn) (life s') @ readable (outputBuffer cn') \<and>
       hc_callback cs = Some f \<and> \<not> hc_useThreadPool cs \<longrightarrow>
       (\<exists>b'. handleResponse tid shf' th run_cb now (cc, cs) =
          run_cb f (response_seen resp) (cc\<lparr>inputBuffer := b'\<rparr>, cs) \<and> readable b' = [])) \<and>
    resp_statusCode (response_seen resp) = resp_statusCode resp \<and> resp_body (response_seen resp) = resp_body resp"
proof -
  have "buffer_inv (inputBuffer cn)" using assms(4) by (simp add: conn_inv_def)
  then have arrived: "request_arrived r [] (inputBuffer cn)"
    by (rule printed_request_arrives [OF assms(9-13) _ assms(14)])
  obtain cn' s' where srv: "onMessage K (threadId s) bnd shf addr (Some cb) t (cn, s) = Inr (cn', s')"
    "sent (conn_fd cn) (life s') @ readable (outputBuffer cn') = response_bytes resp"
    using message_answered [where cb = cb and t = t and old = old, OF assms(1-7) arrived assms(15,17), of bnd shf addr]
      assms(8) by auto
  have "\<exists>b'. handleResponse tid shf' th run_cb now (cc, cs) =
          run_cb f (response_seen resp) (cc\<lparr>inputBuffer := b'\<rparr>, cs) \<and> readable b' = []"
    if "buffer_inv (inputBuffer cc)" "readable (inputBuffer cc) = response_bytes resp" "hc_callback cs = Some f"
      "\<not> hc_useThreadPool cs" for cc cs f
    using response_handled [OF that(1) assms(16) that(2,3), of tid shf' th run_cb now] that(4) by auto
  with srv show ?thesis by (intro exI [of _ cn'] exI [of _ s']) (simp add: response_seen_def)
qed

text \<open>A client that posts two bytes to the application that answers 404.\<close>

theorem http_round_trip_witness:
  "\<exists>r cn' s' b'. make_post ''/x'' ''hi'' ''text/plain'' = Inr r \<and>
     onMessage ideal_kernel 100 (\<lambda>a n. 50) 51 7000 (Some defaultHttpCallback) 7
       (demo_http_conn (readable (print_request r)), demo_http_loop) = Inr (cn', s') \<and>
     handleResponse 100 51 8 (\<lambda>cb resp st. if resp_statusCode resp = k404NotFound then Inr st else Inl RuntimeError) 0
       (demo_http_conn (sent 5 (life s') @ readable (outputBuffer cn')), demo_http_client) =
       Inr ((demo_http_conn (sent 5 (life s') @ readable (outputBuffer cn')))\<lparr>inputBuffer := b'\<rparr>, demo_http_client)"
proof -
  obtain r where r: "make_post ''/x'' ''hi'' ''text/plain'' = Inr r"
    by (simp add: make_post_def setMethod_def HttpRequest_ctor_def)
  let ?cn = "demo_http_conn (readable (print_request r))"
  let ?resp = "setCloseConnection True (setStatusMessage ''Not Found''
      (setStatusCode_enum k404NotFound (HttpResponse_ctor (wants_close r))))"
  define run :: "nat \<Rightarrow> http_response \<Rightarrow> (nat, nat, unit) hc_st \<Rightarrow> (nat, nat, unit) hc_st res" where
    "run = (\<lambda>cb resp st. if resp_statusCode resp = k404NotFound then Inr st else Inl RuntimeError)"
  have c: "conn_state ?cn = TcpConnection.kConnected" "conn_context ?cn = Some (ready_ctx [])" "conn_fd ?cn = 5"
    "readable (outputBuffer ?cn) = []" "readable (inputBuffer ?cn) = readable (print_request r)"
    by (simp_all add: demo_http_conn_def ready_ctx_new)
  have ok: "path_ok ''/x''" "CHR 0x0D \<notin> set ''text/plain''" "trimmed ''text/plain''" "length ''hi'' < 2 ^ 31"
    by (simp_all add: path_ok_def trimmed_def isspace_def)
  have resp: "wf_response ?resp" "length (resp_body ?resp) < 10 ^ 13" "resp_statusCode ?resp = k404NotFound"
    by (simp_all add: wf_response_def HttpResponse_ctor_def setCloseConnection_def setStatusMessage_def setStatusCode_enum_def)
  have cb: "defaultHttpCallback (request_seen 7 [] r) (HttpResponse_ctor (wants_close r)) = Inr ?resp"
    by (simp add: defaultHttpCallback_def)
  note t = http_round_trip [where cb = defaultHttpCallback and t = 7 and old = "[]" and bnd = "\<lambda>a n. 50" and shf = 51 and
      addr = 7000 and tid = 100 and shf' = "51 :: nat" and th = 8 and run_cb = run and now = 0,
      OF ideal_kernel_sound(1,2) never_reset_ideal demo_http_conn_facts c(1,2,4) ok disjI2 [OF r] c(5) cb resp(1,2)]
  from t obtain cn' s' where
    m: "onMessage ideal_kernel 100 (\<lambda>a n. 50) 51 7000 (Some defaultHttpCallback) 7 (?cn, demo_http_loop) = Inr (cn', s')" and
    h: "\<And>cc cs f. buffer_inv (inputBuffer cc) \<and>
       readable (inputBuffer cc) = sent 5 (life s') @ readable (outputBuffer cn') \<and>
       hc_callback cs = Some f \<and> \<not> hc_useThreadPool cs \<Longrightarrow>
       (\<exists>b'. handleResponse 100 51 8 run 0 (cc, cs) = run f (response_seen ?resp) (cc\<lparr>inputBuffer := b'\<rparr>, cs) \<and> readable b' = [])" and
    st: "resp_statusCode (response_seen ?resp) = resp_statusCode ?resp"
    unfolding c(3) demo_http_loop_sel(6) by blast
  let ?cc = "demo_http_conn (sent 5 (life s') @ readable (outputBuffer cn'))"
  have "buffer_inv (inputBuffer ?cc)" "readable (inputBuffer ?cc) = sent 5 (life s') @ readable (outputBuffer cn')"
    "hc_callback demo_http_client = Some 0" "\<not> hc_useThreadPool demo_http_client"
    by (simp_all add: demo_http_conn_def demo_http_client_def HttpClient_ctor_def tcp_client.extend_def Let_def)
  with h [of ?cc demo_http_client 0] st resp(3) r m show ?thesis unfolding run_def by auto
qed

end
